(* ===== verification/Prelude.thy ===== *)
theory Prelude
  imports Main "HOL-Library.Word" "HOL-Library.Monad_Syntax"
begin

text \<open>
  Shared vocabulary of the development: machine integers, bytes, panics, slices and
  decimal digits, with the generic lemmas the components use, and the two interfaces
  (codecs and invariant-preserving machines) that several components provide.

  Conventions. A Rust \<open>u8\<close>/\<open>u16\<close>/\<open>u32\<close>/\<open>u64\<close> is an \<open>8/16/32/64 word\<close>, an \<open>i64\<close> is a
  \<open>64 word\<close> read by \<^const>\<open>sint\<close>, and machine arithmetic wraps, as it does in the release profile
  of \<open>Cargo.toml\<close> (which does not set \<open>overflow-checks\<close>). A \<open>usize\<close> that indexes or measures a
  buffer held in memory is a \<open>nat\<close>; a \<open>usize\<close> that is computed from untrusted digits is a
  \<open>64 word\<close>. A computation that may panic (index or slice out of range) has type \<open>'a run\<close>,
  with \<^const>\<open>None\<close> for the panic. \<open>String\<close> and \<open>str\<close> are their UTF-8 bytes.
\<close>

section \<open>Types\<close>

type_synonym byte = "8 word"
type_synonym u16 = "16 word"
type_synonym u32 = "32 word"
type_synonym u64 = "64 word"
type_synonym i64 = "64 word"
type_synonym bytes = "8 word list"
type_synonym 'a run = "'a option"

text \<open>Facts that normalise the word conversions the components use.\<close>

named_theorems word_norm \<open>conversions between words and naturals\<close>

section \<open>Bytes and ASCII text\<close>

definition asc :: "string \<Rightarrow> bytes" where
  "asc s = map of_char s"

abbreviation ch_0 :: byte where "ch_0 \<equiv> 48"
abbreviation ch_9 :: byte where "ch_9 \<equiv> 57"

definition is_digit :: "byte \<Rightarrow> bool" where
  "is_digit b \<longleftrightarrow> \<not> (b < ch_0 \<or> b > ch_9)"

text \<open>The byte of a decimal digit, \<open>b'0' + n\<close>.\<close>

definition digit :: "nat \<Rightarrow> byte" where
  "digit n = ch_0 + of_nat n"

lemma unat_of_nat_small [word_norm]:
  "n < 2 ^ LENGTH('a) \<Longrightarrow> unat (of_nat n :: 'a::len word) = n"
  by (simp add: unat_of_nat take_bit_nat_eq_self)

lemma unat_digit: "n < 10 \<Longrightarrow> unat (digit n) = 48 + n"
  by (simp add: digit_def unat_word_ariths unat_of_nat take_bit_nat_eq_self)

lemma is_digit_digit [simp]: "n < 10 \<Longrightarrow> is_digit (digit n)"
  by (simp add: is_digit_def word_less_nat_alt unat_digit)

lemma digit_minus: "digit n - ch_0 = of_nat n"
  by (simp add: digit_def)

lemma digit_neq:
  assumes "n < 10" shows "digit n \<noteq> 1" "digit n \<noteq> 61" "digit n \<noteq> 45"
proof -
  have "unat (digit n) = 48 + n" using assms by (rule unat_digit)
  then show "digit n \<noteq> 1" "digit n \<noteq> 61" "digit n \<noteq> 45"
    using assms by (auto dest: arg_cong [where f = unat])
qed

lemma is_digit_cases:
  assumes "is_digit b" obtains n where "n < 10" "b = digit n"
proof -
  have "48 \<le> unat b" "unat b \<le> 57"
    using assms by (simp_all add: is_digit_def not_less word_le_nat_alt)
  then have "unat b - 48 < 10" "b = digit (unat b - 48)"
    by (simp_all add: digit_def of_nat_diff)
  then show ?thesis by (rule that)
qed

section \<open>Decimal numerals\<close>

text \<open>The reference decimal numeral of a natural number, without leading zeros.\<close>

fun dec :: "nat \<Rightarrow> bytes" where
  "dec n = (if n < 10 then [digit n] else dec (n div 10) @ [digit (n mod 10)])"

declare dec.simps [simp del]

lemma dec_small: "n < 10 \<Longrightarrow> dec n = [digit n]"
  by (subst dec.simps) simp

lemma dec_step: "10 \<le> n \<Longrightarrow> dec n = dec (n div 10) @ [digit (n mod 10)]"
  by (subst dec.simps) simp

lemma dec_nonempty [simp]: "dec n \<noteq> []"
  by (subst dec.simps) simp

lemma dec_digits: "b \<in> set (dec n) \<Longrightarrow> is_digit b"
proof (induction n rule: dec.induct)
  case (1 n)
  then show ?case
    by (cases "n < 10") (auto simp: dec.simps [of n] split: if_splits)
qed

lemma dec_length: "n < 10 ^ k \<Longrightarrow> 0 < k \<Longrightarrow> length (dec n) \<le> k"
proof (induction n arbitrary: k rule: dec.induct)
  case (1 n)
  show ?case
  proof (cases "n < 10")
    case True
    then show ?thesis using "1.prems" by (simp add: dec_small)
  next
    case False
    then have "k \<noteq> 1" using "1.prems" by auto
    then obtain m where k: "k = Suc m" "0 < m" using "1.prems" by (cases k) auto
    have "n div 10 < 10 ^ m" using "1.prems" k by (simp add: less_mult_imp_div_less mult.commute)
    then have "length (dec (n div 10)) \<le> m" using "1.IH" False k by simp
    then show ?thesis using False k by (simp add: dec_step)
  qed
qed

lemma dec_value: "foldl (\<lambda>a b. 10 * a + (unat b - 48)) 0 (dec n) = n"
proof (induction n rule: dec.induct)
  case (1 n)
  then show ?case by (cases "n < 10") (simp_all add: dec_small dec_step unat_digit)
qed

lemma dec_inj [simp]: "dec m = dec n \<longleftrightarrow> m = n"
  by (metis dec_value)

text \<open>The value of a digit string in a word type, folding as the source's loops do.\<close>

definition fold_digits :: "'a::len word \<Rightarrow> bytes \<Rightarrow> 'a word" where
  "fold_digits a bs = foldl (\<lambda>acc b. acc * 10 + ucast (b - ch_0)) a bs"

lemma fold_digits_simps [simp]:
  "fold_digits a [] = a"
  "fold_digits a (b # bs) = fold_digits (a * 10 + ucast (b - ch_0)) bs"
  "fold_digits a (xs @ ys) = fold_digits (fold_digits a xs) ys"
  by (simp_all add: fold_digits_def)

lemma ucast_digit: "n < 10 \<Longrightarrow> ucast (digit n - ch_0) = (of_nat n :: 'a::len word)"
  by (simp add: digit_minus unsigned_of_nat take_bit_nat_eq_self)

lemma fold_digits_dec: "fold_digits 0 (dec n) = (of_nat n :: 'a::len word)"
proof (induction n rule: dec.induct)
  case (1 n)
  show ?case
  proof (cases "n < 10")
    case True
    then show ?thesis by (simp add: dec_small ucast_digit)
  next
    case False
    have "of_nat (n div 10) * 10 + of_nat (n mod 10) = (of_nat n :: 'a word)"
      by (metis div_mult_mod_eq of_nat_add of_nat_mult of_nat_numeral)
    then show ?thesis using "1.IH" False by (simp add: dec_step ucast_digit)
  qed
qed

section \<open>Slices and writes\<close>

text \<open>\<open>&buf[off..off + len]\<close>: panics when the range leaves the buffer.\<close>

definition slice :: "'a list \<Rightarrow> nat \<Rightarrow> nat \<Rightarrow> 'a list run" where
  "slice buf off len =
     (if off + len \<le> length buf then Some (take len (drop off buf)) else None)"

text \<open>\<open>buf[i] = v\<close>: panics when \<open>i\<close> is out of range.\<close>

definition set_at :: "'a list \<Rightarrow> nat \<Rightarrow> 'a \<Rightarrow> 'a list run" where
  "set_at buf i v = (if i < length buf then Some (buf[i := v]) else None)"

text \<open>\<open>buf[i]\<close>: panics when \<open>i\<close> is out of range.\<close>

definition get_at :: "'a list \<Rightarrow> nat \<Rightarrow> 'a run" where
  "get_at buf i = (if i < length buf then Some (buf ! i) else None)"

text \<open>\<open>buf[off..off + data.len()].copy_from_slice(data)\<close>.\<close>

definition copy_at :: "'a list \<Rightarrow> nat \<Rightarrow> 'a list \<Rightarrow> 'a list run" where
  "copy_at buf off data =
     (if off + length data \<le> length buf
      then Some (take off buf @ data @ drop (off + length data) buf) else None)"

lemma slice_Some_iff:
  "slice buf off len = Some xs \<longleftrightarrow> off + len \<le> length buf \<and> xs = take len (drop off buf)"
  by (auto simp: slice_def)

lemma slice_append: "slice (pre @ xs @ post) (length pre) (length xs) = Some xs"
  by (simp add: slice_def)

lemma slice_prefix: "off + len \<le> length xs \<Longrightarrow> slice (xs @ ys) off len = slice xs off len"
  by (simp add: slice_def)

lemma copy_at_length: "copy_at buf off data = Some buf' \<Longrightarrow> length buf' = length buf"
  by (auto simp: copy_at_def split: if_splits)

lemma set_at_copy: "set_at buf i v = copy_at buf i [v]"
  by (simp add: set_at_def copy_at_def upd_conv_take_nth_drop Suc_le_eq)

lemma copy_at_copy_at:
  "Option.bind (copy_at buf off xs) (\<lambda>b. copy_at b (off + length xs) ys) = copy_at buf off (xs @ ys)"
  by (auto simp: copy_at_def ac_simps min_def)

lemma take_copy_at:
  "copy_at buf off data = Some buf' \<Longrightarrow> take (off + length data) buf' = take off buf @ data"
  by (auto simp: copy_at_def split: if_splits)

section \<open>Searching\<close>

text \<open>\<open>iter().position(p)\<close>.\<close>

fun position :: "('x \<Rightarrow> bool) \<Rightarrow> 'x list \<Rightarrow> nat option" where
  "position P [] = None"
| "position P (x # xs) = (if P x then Some 0 else map_option Suc (position P xs))"

lemma position_Some: "position P xs = Some i \<Longrightarrow> i < length xs \<and> P (xs ! i)"
  by (induction xs arbitrary: i) (auto split: if_splits)

lemma position_None: "position P xs = None \<longleftrightarrow> (\<forall>x \<in> set xs. \<not> P x)"
  by (induction xs) auto

lemma position_append:
  "position P (xs @ ys) =
     (case position P xs of Some i \<Rightarrow> Some i | None \<Rightarrow> map_option ((+) (length xs)) (position P ys))"
  by (cases "position P ys"; induction xs) (auto split: option.splits)

lemma position_least: "position P xs = Some i \<Longrightarrow> j < i \<Longrightarrow> \<not> P (xs ! j)"
proof (induction xs arbitrary: i j)
  case (Cons x xs)
  then show ?case by (cases j) (auto split: if_splits)
qed simp

section \<open>Little-endian numbers\<close>

text \<open>\<open>to_le_bytes\<close> and \<open>from_le_bytes\<close>, on the value of the number.\<close>

fun le_enc :: "nat \<Rightarrow> nat \<Rightarrow> bytes" where
  "le_enc 0 n = []"
| "le_enc (Suc k) n = of_nat n # le_enc k (n div 256)"

fun le_dec :: "bytes \<Rightarrow> nat" where
  "le_dec [] = 0"
| "le_dec (b # bs) = unat b + 256 * le_dec bs"

lemma length_le_enc [simp]: "length (le_enc k n) = k"
  by (induction k arbitrary: n) simp_all

lemma le_dec_enc: "le_dec (le_enc k n) = n mod 256 ^ k"
proof (induction k arbitrary: n)
  case (Suc k)
  have "n mod 256 ^ Suc k = n mod 256 + 256 * (n div 256 mod 256 ^ k)"
    by (simp add: mod_mult2_eq)
  then show ?case using Suc [of "n div 256"] by (simp add: unat_of_nat take_bit_eq_mod)
qed simp

definition le_u16 :: "u16 \<Rightarrow> bytes" where "le_u16 x = le_enc 2 (unat x)"
definition le_u32 :: "u32 \<Rightarrow> bytes" where "le_u32 x = le_enc 4 (unat x)"
definition le_u64 :: "u64 \<Rightarrow> bytes" where "le_u64 x = le_enc 8 (unat x)"

lemma length_le [simp]: "length (le_u16 x) = 2" "length (le_u32 y) = 4" "length (le_u64 z) = 8"
  by (simp_all add: le_u16_def le_u32_def le_u64_def)

lemma le_dec_word [simp]: "le_dec (le_u16 x) = unat x" "le_dec (le_u32 y) = unat y" "le_dec (le_u64 z) = unat z"
proof -
  have "unat x < 256 ^ 2" "unat y < 256 ^ 4" "unat z < 256 ^ 8"
    using unsigned_less [of x] unsigned_less [of y] unsigned_less [of z] by simp_all
  then show "le_dec (le_u16 x) = unat x" "le_dec (le_u32 y) = unat y" "le_dec (le_u64 z) = unat z"
    by (simp_all add: le_u16_def le_u32_def le_u64_def le_dec_enc)
qed

section \<open>UTF-8\<close>

text \<open>
  \<open>std::str::from_utf8\<close> accepts exactly the well-formed byte sequences of the Unicode
  standard (table 3-7): no overlong forms, no surrogates, nothing above U+10FFFF.
\<close>

definition in_range :: "byte \<Rightarrow> byte \<Rightarrow> byte \<Rightarrow> bool" where
  "in_range lo hi b \<longleftrightarrow> lo \<le> b \<and> b \<le> hi"

abbreviation cont :: "byte \<Rightarrow> bool" where
  "cont b \<equiv> in_range 0x80 0xBF b"

fun utf8_valid :: "bytes \<Rightarrow> bool" where
  "utf8_valid [] = True"
| "utf8_valid (b # bs) =
     (if b < 0x80 then utf8_valid bs
      else case bs of [] \<Rightarrow> False | c # cs \<Rightarrow>
        (if in_range 0xC2 0xDF b then cont c \<and> utf8_valid cs
         else case cs of [] \<Rightarrow> False | d # ds \<Rightarrow>
           (if b = 0xE0 then in_range 0xA0 0xBF c \<and> cont d \<and> utf8_valid ds
            else if b = 0xED then in_range 0x80 0x9F c \<and> cont d \<and> utf8_valid ds
            else if in_range 0xE1 0xEF b then cont c \<and> cont d \<and> utf8_valid ds
            else case ds of [] \<Rightarrow> False | e # es \<Rightarrow>
              (if b = 0xF0 then in_range 0x90 0xBF c \<and> cont d \<and> cont e \<and> utf8_valid es
               else if in_range 0xF1 0xF3 b then cont c \<and> cont d \<and> cont e \<and> utf8_valid es
               else if b = 0xF4 then in_range 0x80 0x8F c \<and> cont d \<and> cont e \<and> utf8_valid es
               else False))))"

declare utf8_valid.simps(2) [simp del]

definition from_utf8 :: "bytes \<Rightarrow> bytes option" where
  "from_utf8 bs = (if utf8_valid bs then Some bs else None)"

lemma utf8_valid_ascii: "\<forall>b \<in> set bs. b < 0x80 \<Longrightarrow> utf8_valid bs"
  by (induction bs) (auto simp: utf8_valid.simps(2))

section \<open>Interfaces\<close>

text \<open>
  A codec: decoding an encoded well-formed value gives it back. Every wire representation
  of the engine (message types, version identifiers, numerals, replicated session states,
  journal headers) is one.
\<close>

locale codec =
  fixes wf :: "'a \<Rightarrow> bool"
    and enc :: "'a \<Rightarrow> 'b"
    and dec_opt :: "'b \<Rightarrow> 'a option"
  assumes dec_enc: "wf x \<Longrightarrow> dec_opt (enc x) = Some x"
begin

lemma enc_inj: "wf x \<Longrightarrow> wf y \<Longrightarrow> enc x = enc y \<Longrightarrow> x = y"
  using dec_enc by (metis option.inject)

lemma enc_eq_iff: "wf x \<Longrightarrow> wf y \<Longrightarrow> enc x = enc y \<longleftrightarrow> x = y"
  using enc_inj by blast

lemma map_enc_inj: "list_all wf xs \<Longrightarrow> list_all wf ys \<Longrightarrow> map enc xs = map enc ys \<Longrightarrow> xs = ys"
proof (induction xs arbitrary: ys)
  case Nil
  then show ?case by simp
next
  case (Cons x xs)
  then obtain y zs where ys: "ys = y # zs" by (cases ys) auto
  with Cons.prems have "x = y" "xs = zs" by (auto intro: enc_inj Cons.IH)
  with ys show ?case by simp
qed

end

text \<open>
  A machine whose events keep an invariant: a step function over a state and an event.
  Runs keep the invariant, and a quantity no step lowers is monotone along runs.
\<close>

locale machine =
  fixes step :: "'s \<Rightarrow> 'e \<Rightarrow> 's"
    and inv :: "'s \<Rightarrow> bool"
  assumes step_inv: "inv s \<Longrightarrow> inv (step s e)"
begin

lemma run_inv: "inv s \<Longrightarrow> inv (foldl step s es)"
  by (induction es arbitrary: s) (auto simp: step_inv)

lemma run_mono:
  fixes m :: "'s \<Rightarrow> 'm::order"
  assumes "\<And>s e. inv s \<Longrightarrow> m s \<le> m (step s e)" and "inv s"
  shows "m s \<le> m (foldl step s es)"
  using assms(2)
  by (induction es arbitrary: s) (auto intro: order_trans assms(1) step_inv)

lemma run_const:
  assumes "\<And>s e. inv s \<Longrightarrow> f (step s e) = f s" and "inv s"
  shows "f (foldl step s es) = f s"
  using assms(2)
  by (induction es arbitrary: s) (auto simp: assms(1) step_inv)

end

text \<open>
  A directory: entries are added under keys, adding may be refused, and an added entry is found
  under its key while the other keys keep theirs. The acceptor's connections and the replicated
  session table are directories.
\<close>

locale directory =
  fixes inv :: "'s \<Rightarrow> bool"
    and find :: "'s \<Rightarrow> 'k \<Rightarrow> 'v option"
    and add :: "'s \<Rightarrow> 'k \<Rightarrow> 'x \<Rightarrow> ('v \<times> 's) option"
  assumes add_inv: "inv s \<Longrightarrow> add s k x = Some (v, s') \<Longrightarrow> inv s'"
    and find_added: "inv s \<Longrightarrow> add s k x = Some (v, s') \<Longrightarrow> find s' k = Some v"
    and find_other: "inv s \<Longrightarrow> add s k x = Some (v, s') \<Longrightarrow> k' \<noteq> k \<Longrightarrow> find s' k' = find s k'"
begin

text \<open>Adding a list of entries, the refused ones skipped: the state and what was added.\<close>

fun add_all :: "'s \<Rightarrow> ('k \<times> 'x) list \<Rightarrow> ('k \<times> 'v) list \<times> 's" where
  "add_all s [] = ([], s)"
| "add_all s ((k, x) # ks) =
     (case add s k x of None \<Rightarrow> add_all s ks
      | Some (v, s') \<Rightarrow> (let (as, s'') = add_all s' ks in ((k, v) # as, s'')))"

lemma add_all_inv: "inv s \<Longrightarrow> inv (snd (add_all s ks))"
  by (induction s ks rule: add_all.induct)
    (auto simp: case_prod_beta dest: add_inv split: option.splits)

lemma find_add_all:
  "inv s \<Longrightarrow> find (snd (add_all s ks)) k = (find s ++ map_of (rev (fst (add_all s ks)))) k"
proof (induction s ks rule: add_all.induct)
  case (1 s)
  then show ?case by simp
next
  case (2 s k0 x ks)
  show ?case
  proof (cases "add s k0 x")
    case None
    then show ?thesis using 2 by simp
  next
    case (Some r)
    obtain v s' where r: "add s k0 x = Some (v, s')" using Some by (cases r) auto
    have "find (snd (add_all s' ks)) k = (find s' ++ map_of (rev (fst (add_all s' ks)))) k"
      using "2.IH"(2) [OF r refl] add_inv [OF "2.prems" r] by simp
    then show ?thesis
      using r find_added [OF "2.prems" r] find_other [OF "2.prems" r, of k]
      by (auto simp: case_prod_beta map_add_def split: option.splits)
  qed
qed

end

end
