(* ===== verification/Checksum.thy ===== *)
theory Checksum
  imports Prelude
begin

text \<open>
  \<open>src/src/tags.rs\<close> (the two delimiter bytes) and \<open>src/src/checksum.rs\<close>: the four-way unrolled
  byte sum, its three-digit rendering, and the validation of a message's \<open>10=nnn\<close> trailer.
  The lemmas show that the unrolled sum is the sum of the bytes modulo 256, and what
  validation decides on a message that ends in a trailer.
\<close>

section \<open>Delimiters\<close>

definition SOH :: byte where "SOH = 0x01"
definition EQUALS :: byte where "EQUALS = 61"

section \<open>compute\<close>

text \<open>The chunk loop: \<open>n\<close> iterations left, \<open>i\<close> the read index.\<close>

fun chunk_loop :: "nat \<Rightarrow> bytes \<Rightarrow> nat \<Rightarrow> u32 \<Rightarrow> u32 \<Rightarrow> u32 \<Rightarrow> u32 \<Rightarrow> nat \<times> u32 \<times> u32 \<times> u32 \<times> u32" where
  "chunk_loop 0 data i sum0 sum1 sum2 sum3 = (i, sum0, sum1, sum2, sum3)"
| "chunk_loop (Suc n) data i sum0 sum1 sum2 sum3 =
     chunk_loop n data (i + 4)
       (sum0 + ucast (data ! i)) (sum1 + ucast (data ! (i + 1)))
       (sum2 + ucast (data ! (i + 2))) (sum3 + ucast (data ! (i + 3)))"

text \<open>The remainder loop, \<open>n\<close> bytes left from index \<open>k = i + j\<close>.\<close>

fun tail_loop :: "nat \<Rightarrow> bytes \<Rightarrow> nat \<Rightarrow> u32 \<Rightarrow> u32" where
  "tail_loop 0 data k sum0 = sum0"
| "tail_loop (Suc n) data k sum0 = tail_loop n data (k + 1) (sum0 + ucast (data ! k))"

definition compute :: "bytes \<Rightarrow> byte" where
  "compute data =
     (let chunks = length data div 4; remainder = length data mod 4 in
      case chunk_loop chunks data 0 0 0 0 0 of (i, sum0, sum1, sum2, sum3) \<Rightarrow>
        (let sum0 = tail_loop remainder data i sum0
         in ucast ((sum0 + sum1 + sum2 + sum3) mod 256)))"

definition sum32 :: "bytes \<Rightarrow> u32" where
  "sum32 bs = sum_list (map ucast bs)"

lemma take_drop_Suc: "k < length xs \<Longrightarrow> take (Suc n) (drop k xs) = xs ! k # take n (drop (Suc k) xs)"
  by (metis Cons_nth_drop_Suc take_Suc_Cons)

lemma tail_loop_eq:
  "k + n \<le> length data \<Longrightarrow> tail_loop n data k s = s + sum32 (take n (drop k data))"
  by (induction n arbitrary: k s) (auto simp: sum32_def take_drop_Suc algebra_simps)

lemma take_four:
  "i + 4 * Suc n \<le> length data \<Longrightarrow>
   sum32 (take (4 * Suc n) (drop i data)) =
     ucast (data ! i) + ucast (data ! (i + 1)) + ucast (data ! (i + 2)) + ucast (data ! (i + 3)) +
     sum32 (take (4 * n) (drop (i + 4) data))"
  by (simp add: take_drop_Suc sum32_def numeral_eq_Suc)

lemma chunk_loop_eq:
  "i + 4 * n \<le> length data \<Longrightarrow> chunk_loop n data i s0 s1 s2 s3 = (i', t0, t1, t2, t3) \<Longrightarrow>
   i' = i + 4 * n \<and>
   t0 + t1 + t2 + t3 = s0 + s1 + s2 + s3 + sum32 (take (4 * n) (drop i data))"
proof (induction n arbitrary: i s0 s1 s2 s3)
  case 0
  then show ?case by (simp add: sum32_def)
next
  case (Suc n)
  from Suc.prems(2) have c: "chunk_loop n data (i + 4)
       (s0 + ucast (data ! i)) (s1 + ucast (data ! (i + 1)))
       (s2 + ucast (data ! (i + 2))) (s3 + ucast (data ! (i + 3))) = (i', t0, t1, t2, t3)"
    by simp
  from Suc.prems(1) have "i + 4 + 4 * n \<le> length data" by simp
  from Suc.IH [OF this c] show ?case
    using take_four [OF Suc.prems(1)] by (simp add: algebra_simps)
qed

lemma ucast_add_8: "(ucast (a + b :: u32) :: byte) = ucast a + ucast b"
proof -
  have "unat (ucast (a + b :: u32) :: byte) = (unat a + unat b) mod 2 ^ 32 mod 256"
    by (simp add: unsigned_ucast_eq take_bit_eq_mod unat_word_ariths)
  also have "\<dots> = (unat a + unat b) mod 256" by (simp add: mod_mod_cancel)
  also have "\<dots> = unat (ucast a + ucast b :: byte)"
    by (simp add: unsigned_ucast_eq take_bit_eq_mod unat_word_ariths mod_simps)
  finally show ?thesis by (simp only: word_unat_eq_iff)
qed

lemma ucast_ucast_byte: "(ucast (ucast (b :: byte) :: u32) :: byte) = b"
  by transfer simp

lemma ucast_sum32: "ucast (sum32 bs) = sum_list bs"
  by (induction bs) (simp_all add: sum32_def ucast_add_8 ucast_ucast_byte)

lemma ucast_mod_256: "(ucast (x mod 256 :: u32) :: byte) = ucast x"
proof -
  have "x mod 256 = take_bit 8 x" by (simp add: take_bit_eq_mod)
  then show ?thesis by transfer (simp add: min_def)
qed

text \<open>The unrolled loop computes the wrapping sum of all bytes.\<close>

lemma compute_sum [simp]: "compute data = sum_list data"
proof -
  obtain i s0 s1 s2 s3 where
    eq: "chunk_loop (length data div 4) data 0 0 0 0 0 = (i, s0, s1, s2, s3)"
    by (metis prod_cases5)
  have le: "4 * (length data div 4) \<le> length data" by simp
  note ch = chunk_loop_eq [OF _ eq, simplified]
  have "i + length data mod 4 = length data" using ch by simp
  then have "tail_loop (length data mod 4) data i s0 + s1 + s2 + s3 =
      (s0 + s1 + s2 + s3) + sum32 (take (length data mod 4) (drop i data))"
    by (simp add: tail_loop_eq algebra_simps)
  also have "take (length data mod 4) (drop i data) = drop i data"
    using ch by (simp add: minus_mult_div_eq_mod)
  also have "s0 + s1 + s2 + s3 + sum32 (drop i data) = sum32 (take i data @ drop i data)"
    using ch by (simp add: sum32_def del: append_take_drop_id)
  finally have "tail_loop (length data mod 4) data i s0 + s1 + s2 + s3 = sum32 data" by simp
  then show ?thesis by (simp add: compute_def eq ucast_mod_256 ucast_sum32)
qed

lemma unat_sum_list: "unat (sum_list (bs :: bytes)) = (\<Sum>b\<leftarrow>bs. unat b) mod 256"
  by (induction bs) (simp_all add: unat_word_ariths mod_simps)

section \<open>format\<close>

definition format :: "byte \<Rightarrow> bytes" where
  "format checksum =
     [ch_0 + (checksum div 100), ch_0 + ((checksum div 10) mod 10), ch_0 + (checksum mod 10)]"

text \<open>The value of three digit bytes, as \<open>validate\<close> reads it (in wrapping \<open>u8\<close> arithmetic).\<close>

definition stated_checksum :: "byte \<Rightarrow> byte \<Rightarrow> byte \<Rightarrow> byte" where
  "stated_checksum d1 d2 d3 = (d1 - ch_0) * 100 + (d2 - ch_0) * 10 + (d3 - ch_0)"

lemma length_format [simp]: "length (format c) = 3"
  by (simp add: format_def)

lemma div_mod_digits: "(c div 100) * 100 + ((c div 10) mod 10) * 10 + c mod 10 = (c :: byte)"
proof -
  have "unat c div 100 = unat c div 10 div 10" by (simp flip: div_mult2_eq)
  then have "unat c div 100 * 100 + (unat c div 10) mod 10 * 10 + unat c mod 10 = unat c"
    using div_mult_mod_eq [of "unat c div 10" 10] div_mult_mod_eq [of "unat c" 10] by linarith
  then have "of_nat (unat c div 100 * 100 + (unat c div 10) mod 10 * 10 + unat c mod 10) = c"
    by simp
  moreover have "of_nat (unat c div 100) = c div 100" "of_nat (unat c div 10 mod 10) = c div 10 mod 10"
    "of_nat (unat c mod 10) = c mod 10"
    using word_arith_nat_div [of c 100] word_arith_nat_mod [of "c div 10" 10]
      word_arith_nat_mod [of c 10] by (simp_all add: unat_div)
  ultimately show ?thesis by simp
qed

lemma stated_checksum_format:
  "format c = [d1, d2, d3] \<Longrightarrow> stated_checksum d1 d2 d3 = c"
  using div_mod_digits [of c] by (clarsimp simp: format_def stated_checksum_def add.assoc)

text \<open>The stated digits are not checked to be digits: \<open>0:0\<close> is read as 100.\<close>

lemma stated_not_digits: "stated_checksum 48 58 48 = stated_checksum 49 48 48"
  by (simp add: stated_checksum_def)

section \<open>validate\<close>

text \<open>\<open>for i in (0..n).rev()\<close> looking for SOH followed by \<open>10=\<close>.\<close>

fun rfind_trailer :: "bytes \<Rightarrow> nat \<Rightarrow> nat option" where
  "rfind_trailer msg 0 = None"
| "rfind_trailer msg (Suc i) =
     (if msg ! i = SOH \<and> msg ! (i + 1) = 49 \<and> msg ! (i + 2) = 48 \<and> msg ! (i + 3) = 61
      then Some i else rfind_trailer msg i)"

definition validate :: "bytes \<Rightarrow> bool" where
  "validate msg =
     (let len = length msg in
      if len < 7 then False
      else
        let checksum_start = (case rfind_trailer msg (len - 4) of Some i \<Rightarrow> i + 1 | None \<Rightarrow> 0) in
        if checksum_start = 0 \<and> \<not> (msg ! 0 = 49 \<and> msg ! 1 = 48 \<and> msg ! 2 = 61) then False
        else
          let computed = compute (take checksum_start msg); cs_offset = checksum_start + 3 in
          if cs_offset + 3 > len then False
          else computed = stated_checksum (msg ! cs_offset) (msg ! (cs_offset + 1)) (msg ! (cs_offset + 2)))"

lemma rfind_trailer_skip:
  "j = Suc i \<Longrightarrow> msg ! i \<noteq> SOH \<Longrightarrow> rfind_trailer msg j = rfind_trailer msg i"
  by simp

text \<open>A trailer at the end of the message is the one the backward search finds.\<close>

lemma rfind_trailer_end:
  "rfind_trailer (pre @ SOH # 49 # 48 # 61 # rest) (4 + length pre) = Some (length pre)"
proof -
  let ?m = "pre @ SOH # 49 # 48 # 61 # rest"
  have "rfind_trailer ?m (4 + length pre) = rfind_trailer ?m (length pre + 3)"
    by (rule rfind_trailer_skip) (simp_all add: nth_append SOH_def)
  also have "\<dots> = rfind_trailer ?m (length pre + 2)"
    by (rule rfind_trailer_skip) (simp_all add: nth_append SOH_def)
  also have "\<dots> = rfind_trailer ?m (length pre + 1)"
    by (rule rfind_trailer_skip) (simp_all add: nth_append SOH_def)
  also have "\<dots> = Some (length pre)"
    by (simp add: nth_append SOH_def)
  finally show ?thesis .
qed

lemma validate_trailer:
  "validate (pre @ [SOH, 49, 48, 61, d1, d2, d3, e]) \<longleftrightarrow>
     sum_list pre + SOH = stated_checksum d1 d2 d3"
proof -
  let ?m = "pre @ [SOH, 49, 48, 61, d1, d2, d3, e]"
  have "length ?m - 4 = 4 + length pre" by simp
  then have "rfind_trailer ?m (length ?m - 4) = Some (length pre)"
    by (simp only: rfind_trailer_end)
  then show ?thesis
    by (simp add: validate_def Let_def nth_append del: rfind_trailer.simps)
qed

end
