(* ===== verification/Message.thy ===== *)
theory Message
  imports Checksum
begin

text \<open>
  \<open>src/src/tags.rs\<close> and \<open>src/src/message.rs\<close>: the tag constants, the flyweight view of a
  message (its field index over the wire buffer), the numeric field readers, and the
  enumerations carried in fields. The array \<open>fields[MAX_FIELDS]\<close> with its \<open>field_count\<close> is the
  list of the entries in use, which is all the code reads of it.

  The lemmas show that the index keeps at most \<open>MAX_FIELDS\<close> entries, that lookups on a
  well-formed view never panic, that signed and unsigned numerals are read back, and that the
  message-type codes form a codec.
\<close>

section \<open>Tags\<close>

definition BEGIN_STRING :: u32 where "BEGIN_STRING = 8"
definition BODY_LENGTH :: u32 where "BODY_LENGTH = 9"
definition MSG_TYPE :: u32 where "MSG_TYPE = 35"
definition SENDER_COMP_ID :: u32 where "SENDER_COMP_ID = 49"
definition TARGET_COMP_ID :: u32 where "TARGET_COMP_ID = 56"
definition MSG_SEQ_NUM :: u32 where "MSG_SEQ_NUM = 34"
definition SENDING_TIME :: u32 where "SENDING_TIME = 52"
definition CHECKSUM :: u32 where "CHECKSUM = 10"
definition ENCRYPT_METHOD :: u32 where "ENCRYPT_METHOD = 98"
definition HEARTBT_INT :: u32 where "HEARTBT_INT = 108"
definition TEST_REQ_ID :: u32 where "TEST_REQ_ID = 112"
definition CL_ORD_ID :: u32 where "CL_ORD_ID = 11"
definition ORDER_ID :: u32 where "ORDER_ID = 37"
definition EXEC_ID :: u32 where "EXEC_ID = 17"
definition EXEC_TYPE :: u32 where "EXEC_TYPE = 150"
definition ORD_STATUS :: u32 where "ORD_STATUS = 39"
definition SYMBOL :: u32 where "SYMBOL = 55"
definition SIDE :: u32 where "SIDE = 54"
definition ORDER_QTY :: u32 where "ORDER_QTY = 38"
definition ORD_TYPE :: u32 where "ORD_TYPE = 40"
definition PRICE :: u32 where "PRICE = 44"
definition TRANSACT_TIME :: u32 where "TRANSACT_TIME = 60"
definition LAST_QTY :: u32 where "LAST_QTY = 32"
definition LAST_PX :: u32 where "LAST_PX = 31"
definition LEAVES_QTY :: u32 where "LEAVES_QTY = 151"
definition CUM_QTY :: u32 where "CUM_QTY = 14"
definition AVG_PX :: u32 where "AVG_PX = 6"
definition HANDL_INST :: u32 where "HANDL_INST = 21"

lemmas tag_defs = BEGIN_STRING_def BODY_LENGTH_def MSG_TYPE_def SENDER_COMP_ID_def
  TARGET_COMP_ID_def MSG_SEQ_NUM_def SENDING_TIME_def CHECKSUM_def ENCRYPT_METHOD_def
  HEARTBT_INT_def TEST_REQ_ID_def CL_ORD_ID_def ORDER_ID_def EXEC_ID_def EXEC_TYPE_def
  ORD_STATUS_def SYMBOL_def SIDE_def ORDER_QTY_def ORD_TYPE_def PRICE_def TRANSACT_TIME_def
  LAST_QTY_def LAST_PX_def LEAVES_QTY_def CUM_QTY_def AVG_PX_def HANDL_INST_def

section \<open>Message types\<close>

datatype MsgType =
  Heartbeat | TestRequest | ResendRequest | Reject | SequenceReset | Logout | Logon
| NewOrderSingle | OrderCancelRequest | OrderCancelReplaceRequest | OrderStatusRequest
| ExecutionReport | OrderCancelReject | MarketDataRequest | MarketDataSnapshot
| MarketDataIncremental | QuoteRequest | Quote | TradeCaptureReport | Unknown

definition msg_type_from_bytes :: "bytes \<Rightarrow> MsgType option" where
  "msg_type_from_bytes bs =
     (if bs = asc ''0'' then Some Heartbeat
      else if bs = asc ''1'' then Some TestRequest
      else if bs = asc ''2'' then Some ResendRequest
      else if bs = asc ''3'' then Some Reject
      else if bs = asc ''4'' then Some SequenceReset
      else if bs = asc ''5'' then Some Logout
      else if bs = asc ''A'' then Some Logon
      else if bs = asc ''D'' then Some NewOrderSingle
      else if bs = asc ''F'' then Some OrderCancelRequest
      else if bs = asc ''G'' then Some OrderCancelReplaceRequest
      else if bs = asc ''H'' then Some OrderStatusRequest
      else if bs = asc ''8'' then Some ExecutionReport
      else if bs = asc ''9'' then Some OrderCancelReject
      else if bs = asc ''V'' then Some MarketDataRequest
      else if bs = asc ''W'' then Some MarketDataSnapshot
      else if bs = asc ''X'' then Some MarketDataIncremental
      else if bs = asc ''R'' then Some QuoteRequest
      else if bs = asc ''S'' then Some Quote
      else if bs = asc ''AE'' then Some TradeCaptureReport
      else Some Unknown)"

fun msg_type_as_bytes :: "MsgType \<Rightarrow> bytes" where
  "msg_type_as_bytes Heartbeat = asc ''0''"
| "msg_type_as_bytes TestRequest = asc ''1''"
| "msg_type_as_bytes ResendRequest = asc ''2''"
| "msg_type_as_bytes Reject = asc ''3''"
| "msg_type_as_bytes SequenceReset = asc ''4''"
| "msg_type_as_bytes Logout = asc ''5''"
| "msg_type_as_bytes Logon = asc ''A''"
| "msg_type_as_bytes NewOrderSingle = asc ''D''"
| "msg_type_as_bytes OrderCancelRequest = asc ''F''"
| "msg_type_as_bytes OrderCancelReplaceRequest = asc ''G''"
| "msg_type_as_bytes OrderStatusRequest = asc ''H''"
| "msg_type_as_bytes ExecutionReport = asc ''8''"
| "msg_type_as_bytes OrderCancelReject = asc ''9''"
| "msg_type_as_bytes MarketDataRequest = asc ''V''"
| "msg_type_as_bytes MarketDataSnapshot = asc ''W''"
| "msg_type_as_bytes MarketDataIncremental = asc ''X''"
| "msg_type_as_bytes QuoteRequest = asc ''R''"
| "msg_type_as_bytes Quote = asc ''S''"
| "msg_type_as_bytes TradeCaptureReport = asc ''AE''"
| "msg_type_as_bytes Unknown = asc ''?''"

definition is_session_level :: "MsgType \<Rightarrow> bool" where
  "is_session_level mt \<longleftrightarrow>
     mt \<in> {Heartbeat, TestRequest, ResendRequest, Reject, SequenceReset, Logout, Logon}"

definition is_admin :: "MsgType \<Rightarrow> bool" where
  "is_admin mt = is_session_level mt"

lemma of_char_asc: "asc (c # cs) = of_char c # asc cs" "asc [] = []"
  by (simp_all add: asc_def)

lemma msg_type_roundtrip: "msg_type_from_bytes (msg_type_as_bytes mt) = Some mt"
  by (cases mt) (simp_all add: msg_type_from_bytes_def of_char_asc)

interpretation msg_codec: codec "\<lambda>_. True" msg_type_as_bytes msg_type_from_bytes
  by unfold_locales (simp add: msg_type_roundtrip)

section \<open>Sides and order types\<close>

datatype Side = Buy | Sell | BuyMinus | SellPlus | SellShort | SellShortExempt | Cross

definition side_from_byte :: "byte \<Rightarrow> Side option" where
  "side_from_byte b =
     (if b = 49 then Some Buy else if b = 50 then Some Sell else if b = 51 then Some BuyMinus
      else if b = 52 then Some SellPlus else if b = 53 then Some SellShort
      else if b = 54 then Some SellShortExempt else if b = 56 then Some Cross else None)"

datatype OrdType = Market | Limit | Stop | StopLimit

definition ord_type_from_byte :: "byte \<Rightarrow> OrdType option" where
  "ord_type_from_byte b =
     (if b = 49 then Some Market else if b = 50 then Some Limit else if b = 51 then Some Stop
      else if b = 52 then Some StopLimit else None)"

section \<open>Numeric values\<close>

text \<open>The digit loop: any byte that is not a digit ends it with \<^const>\<open>None\<close>.\<close>

fun digit_loop :: "'a::len word \<Rightarrow> bytes \<Rightarrow> 'a word option" where
  "digit_loop result [] = Some result"
| "digit_loop result (b # bs) =
     (if b < ch_0 \<or> b > ch_9 then None else digit_loop (result * 10 + ucast (b - ch_0)) bs)"

definition parse_i64 :: "bytes \<Rightarrow> i64 option" where
  "parse_i64 bs =
     (case bs of [] \<Rightarrow> None
      | c # rest \<Rightarrow>
          (let negative = (c = 45) in
           map_option (\<lambda>result. if negative then - result else result)
             (digit_loop 0 (if negative then rest else bs))))"

definition parse_u64 :: "bytes \<Rightarrow> u64 option" where
  "parse_u64 bs = (if bs = [] then None else digit_loop 0 bs)"

lemma digit_loop_eq:
  "digit_loop a bs = (if list_all is_digit bs then Some (fold_digits a bs) else None)"
  by (induction bs arbitrary: a) (auto simp: is_digit_def)

lemma list_all_digits_dec: "list_all is_digit (dec n)"
  by (auto simp: list_all_iff dest: dec_digits)

lemma digit_loop_dec: "digit_loop 0 (dec n) = Some (of_nat n)"
  by (simp add: digit_loop_eq list_all_digits_dec fold_digits_dec)

lemma parse_u64_dec: "parse_u64 (dec n) = Some (of_nat n)"
  by (simp add: parse_u64_def digit_loop_dec)

lemma dec_hd: "hd (dec n) \<noteq> 45"
proof
  assume "hd (dec n) = 45"
  moreover have "is_digit (hd (dec n))" by (rule dec_digits [of _ n]) simp
  ultimately show False by (simp add: is_digit_def)
qed

lemma parse_i64_dec: "parse_i64 (dec n) = Some (of_nat n)"
  using dec_hd [of n] digit_loop_dec [of n]
  by (cases "dec n") (simp_all add: parse_i64_def Let_def)

lemma parse_i64_neg: "parse_i64 (45 # dec n) = Some (- of_nat n)"
  by (simp add: parse_i64_def digit_loop_dec)

interpretation u64_codec: codec "\<lambda>_. True" "\<lambda>v :: u64. dec (unat v)" parse_u64
  by unfold_locales (simp add: parse_u64_dec)

section \<open>The field index\<close>

definition MAX_FIELDS :: nat where "MAX_FIELDS = 512"

record FieldEntry =
  fe_tag :: u32
  fe_offset :: u32
  fe_length :: u16

record MessageView =
  mv_buffer :: bytes
  mv_fields :: "FieldEntry list"
  mv_msg_type_idx :: nat
  mv_checksum_valid :: bool

definition new_view :: "bytes \<Rightarrow> MessageView" where
  "new_view buffer =
     \<lparr>mv_buffer = buffer, mv_fields = [], mv_msg_type_idx = 0, mv_checksum_valid = False\<rparr>"

definition field_count :: "MessageView \<Rightarrow> nat" where
  "field_count v = length (mv_fields v)"

definition add_field :: "MessageView \<Rightarrow> u32 \<Rightarrow> u32 \<Rightarrow> u16 \<Rightarrow> MessageView" where
  "add_field v tag offset len =
     (if field_count v < MAX_FIELDS then
        v\<lparr>mv_fields := mv_fields v @ [\<lparr>fe_tag = tag, fe_offset = offset, fe_length = len\<rparr>],
          mv_msg_type_idx := (if tag = MSG_TYPE then field_count v else mv_msg_type_idx v)\<rparr>
      else v)"

definition set_checksum_valid :: "MessageView \<Rightarrow> bool \<Rightarrow> MessageView" where
  "set_checksum_valid v valid = v\<lparr>mv_checksum_valid := valid\<rparr>"

definition entry_value :: "bytes \<Rightarrow> FieldEntry \<Rightarrow> bytes run" where
  "entry_value buffer e = slice buffer (unat (fe_offset e)) (unat (fe_length e))"

definition get_field :: "MessageView \<Rightarrow> u32 \<Rightarrow> bytes option run" where
  "get_field v tag =
     (case find (\<lambda>e. fe_tag e = tag) (mv_fields v) of
        None \<Rightarrow> Some None
      | Some e \<Rightarrow> map_option Some (entry_value (mv_buffer v) e))"

definition get_field_str :: "MessageView \<Rightarrow> u32 \<Rightarrow> bytes option run" where
  "get_field_str v tag = map_option (\<lambda>f. Option.bind f from_utf8) (get_field v tag)"

definition get_field_i64 :: "MessageView \<Rightarrow> u32 \<Rightarrow> i64 option run" where
  "get_field_i64 v tag = map_option (\<lambda>f. Option.bind f parse_i64) (get_field v tag)"

definition get_field_u64 :: "MessageView \<Rightarrow> u32 \<Rightarrow> u64 option run" where
  "get_field_u64 v tag = map_option (\<lambda>f. Option.bind f parse_u64) (get_field v tag)"

definition msg_type :: "MessageView \<Rightarrow> bytes option run" where
  "msg_type v =
     (let idx = mv_msg_type_idx v in
      if idx < field_count v \<and> fe_tag (mv_fields v ! idx) = MSG_TYPE
      then map_option Some (entry_value (mv_buffer v) (mv_fields v ! idx))
      else get_field v MSG_TYPE)"

definition msg_type_enum :: "MessageView \<Rightarrow> MsgType option run" where
  "msg_type_enum v = map_option (\<lambda>f. Option.bind f msg_type_from_bytes) (msg_type v)"

definition begin_string :: "MessageView \<Rightarrow> bytes option run" where
  "begin_string v = get_field_str v BEGIN_STRING"

definition sender_comp_id :: "MessageView \<Rightarrow> bytes option run" where
  "sender_comp_id v = get_field_str v SENDER_COMP_ID"

definition target_comp_id :: "MessageView \<Rightarrow> bytes option run" where
  "target_comp_id v = get_field_str v TARGET_COMP_ID"

definition msg_seq_num :: "MessageView \<Rightarrow> u64 option run" where
  "msg_seq_num v = get_field_u64 v MSG_SEQ_NUM"

section \<open>Well-formed views\<close>

text \<open>Every entry lies inside the buffer, and at most \<^const>\<open>MAX_FIELDS\<close> are in use.\<close>

definition entry_ok :: "bytes \<Rightarrow> FieldEntry \<Rightarrow> bool" where
  "entry_ok buffer e \<longleftrightarrow> unat (fe_offset e) + unat (fe_length e) \<le> length buffer"

definition view_ok :: "MessageView \<Rightarrow> bool" where
  "view_ok v \<longleftrightarrow> field_count v \<le> MAX_FIELDS \<and> list_all (entry_ok (mv_buffer v)) (mv_fields v)"

text \<open>What a view says: the tags and values of its fields, in order.\<close>

definition field_pairs :: "MessageView \<Rightarrow> (u32 \<times> bytes) list" where
  "field_pairs v =
     map (\<lambda>e. (fe_tag e, take (unat (fe_length e)) (drop (unat (fe_offset e)) (mv_buffer v))))
       (mv_fields v)"

lemma view_ok_new: "view_ok (new_view buffer)"
  by (simp add: view_ok_def new_view_def field_count_def)

lemma view_ok_add_field:
  "view_ok v \<Longrightarrow> unat off + unat len \<le> length (mv_buffer v) \<Longrightarrow> view_ok (add_field v tag off len)"
  by (auto simp: view_ok_def add_field_def field_count_def entry_ok_def)

lemma view_ok_set_checksum [simp]: "view_ok (set_checksum_valid v b) = view_ok v"
  by (simp add: view_ok_def set_checksum_valid_def field_count_def)

lemma field_pairs_set_checksum [simp]: "field_pairs (set_checksum_valid v b) = field_pairs v"
  by (simp add: field_pairs_def set_checksum_valid_def)

lemma mv_buffer_simps [simp]:
  "mv_buffer (new_view b) = b"
  "mv_buffer (add_field v t off l) = mv_buffer v"
  "mv_buffer (set_checksum_valid v c) = mv_buffer v"
  by (simp_all add: new_view_def add_field_def set_checksum_valid_def)

lemma entry_value_ok: "entry_ok buffer e \<Longrightarrow>
  entry_value buffer e = Some (take (unat (fe_length e)) (drop (unat (fe_offset e)) buffer))"
  by (simp add: entry_value_def entry_ok_def slice_def)

text \<open>On a well-formed view a lookup is the first pair with the tag, and never a panic.\<close>

lemma find_map_of:
  "map_option (\<lambda>e. h e) (find (\<lambda>e. g e = k) es) = map_of (map (\<lambda>e. (g e, h e)) es) k"
  by (induction es) auto

lemma get_field_map_of:
  assumes "view_ok v" shows "get_field v tag = Some (map_of (field_pairs v) tag)"
proof (cases "find (\<lambda>e. fe_tag e = tag) (mv_fields v)")
  case None
  then show ?thesis
    using find_map_of [of _ fe_tag tag "mv_fields v"] by (force simp: get_field_def field_pairs_def)
next
  case (Some e)
  then have "e \<in> set (mv_fields v)" by (auto simp: find_Some_iff)
  then have "entry_ok (mv_buffer v) e" using assms by (auto simp: view_ok_def list_all_iff)
  moreover have "map_of (field_pairs v) tag =
      Some (take (unat (fe_length e)) (drop (unat (fe_offset e)) (mv_buffer v)))"
    using Some by (simp add: field_pairs_def flip: find_map_of)
  ultimately show ?thesis using Some by (simp add: get_field_def entry_value_ok)
qed

text \<open>The cached index of \<open>MSG_TYPE\<close> points at the last field with that tag.\<close>

definition idx_ok :: "MessageView \<Rightarrow> bool" where
  "idx_ok v \<longleftrightarrow>
     (MSG_TYPE \<in> fe_tag ` set (mv_fields v) \<longrightarrow>
        mv_msg_type_idx v < field_count v \<and>
        fe_tag (mv_fields v ! mv_msg_type_idx v) = MSG_TYPE \<and>
        MSG_TYPE \<notin> fe_tag ` set (drop (Suc (mv_msg_type_idx v)) (mv_fields v)))"

lemma idx_ok_new: "idx_ok (new_view b)"
  by (simp add: idx_ok_def new_view_def)

lemma idx_ok_set_checksum [simp]: "idx_ok (set_checksum_valid v b) = idx_ok v"
  by (simp add: idx_ok_def set_checksum_valid_def field_count_def)

lemma idx_ok_add_field: "idx_ok v \<Longrightarrow> idx_ok (add_field v tag off len)"
  by (auto simp: idx_ok_def add_field_def field_count_def nth_append)

lemma map_of_rev_last:
  assumes "i < length ps" "fst (ps ! i) = k" "k \<notin> fst ` set (drop (Suc i) ps)"
  shows "map_of (rev ps) k = Some (snd (ps ! i))"
proof -
  have "ps = take i ps @ ps ! i # drop (Suc i) ps"
    using assms(1) by (simp add: id_take_nth_drop)
  then have "rev ps = rev (drop (Suc i) ps) @ ps ! i # rev (take i ps)"
    by (metis append.assoc append_Cons append_Nil rev.simps(2) rev_append)
  moreover have "map_of (rev (drop (Suc i) ps)) k = None"
    using assms(3) by (simp add: map_of_eq_None_iff)
  ultimately show ?thesis using assms(2) by (cases "ps ! i") (simp add: map_add_def)
qed

lemma msg_type_last:
  assumes "view_ok v" "idx_ok v"
  shows "msg_type v = Some (map_of (rev (field_pairs v)) MSG_TYPE)"
proof (cases "MSG_TYPE \<in> fe_tag ` set (mv_fields v)")
  case True
  let ?i = "mv_msg_type_idx v"
  have i: "?i < field_count v" "fe_tag (mv_fields v ! ?i) = MSG_TYPE"
    "MSG_TYPE \<notin> fe_tag ` set (drop (Suc ?i) (mv_fields v))"
    using assms(2) True by (auto simp: idx_ok_def)
  have "entry_ok (mv_buffer v) (mv_fields v ! ?i)"
    using assms(1) i(1) by (auto simp: view_ok_def field_count_def list_all_length)
  moreover have "map_of (rev (field_pairs v)) MSG_TYPE = Some (snd (field_pairs v ! ?i))"
    using i by (intro map_of_rev_last) (auto simp: field_pairs_def field_count_def drop_map image_image)
  ultimately show ?thesis
    using i by (simp add: msg_type_def Let_def entry_value_ok field_pairs_def field_count_def)
next
  case False
  have "map_of (field_pairs v) MSG_TYPE = None" "map_of (rev (field_pairs v)) MSG_TYPE = None"
    using False by (auto simp: field_pairs_def map_of_eq_None_iff image_image)
  moreover have "\<not> (mv_msg_type_idx v < field_count v \<and>
      fe_tag (mv_fields v ! mv_msg_type_idx v) = MSG_TYPE)"
    using False by (metis field_count_def image_eqI nth_mem)
  ultimately show ?thesis
    using get_field_map_of [OF assms(1)] by (simp add: msg_type_def Let_def)
qed

end
