(* ===== verification/Parser.thy ===== *)
theory Parser
  imports Message
begin

text \<open>
  \<open>src/src/parser.rs\<close>: the zero-copy parser and the stream framer. The cursor loops are recursive
  functions over the same positions as the source's \<open>while\<close> loops, and every early return is a
  value of the error side of the sum.

  The lemmas describe each loop twice: what it does on a buffer that is laid out as
  \<open>tag=value<SOH>\<close> (used for the round trip with the serializer), and what an arbitrary successful
  run says about the buffer (used for the soundness of the parser on untrusted input).
\<close>

section \<open>Errors and configuration\<close>

datatype ParseError =
  BufferTooShort | MissingBeginString | MissingBodyLength | InvalidBodyLength | MissingMsgType
| InvalidChecksum | MalformedField | InvalidTag | MessageTooLarge

record FixParser =
  fp_validate_checksum :: bool
  fp_validate_body_length :: bool
  fp_max_message_size :: nat

definition new_parser :: FixParser where
  "new_parser = \<lparr>fp_validate_checksum = True, fp_validate_body_length = True,
     fp_max_message_size = 65536\<rparr>"

definition new_unchecked :: FixParser where
  "new_unchecked = \<lparr>fp_validate_checksum = False, fp_validate_body_length = False,
     fp_max_message_size = 65536\<rparr>"

section \<open>One field\<close>

text \<open>The tag loop: digits up to the \<open>=\<close>, accumulated in a wrapping \<open>u32\<close>.\<close>

function tag_loop :: "bytes \<Rightarrow> nat \<Rightarrow> u32 \<Rightarrow> ParseError + (nat \<times> u32)" where
  "tag_loop buffer pos tag =
     (if pos < length buffer \<and> buffer ! pos \<noteq> EQUALS then
        (let b = buffer ! pos in
         if b < ch_0 \<or> b > ch_9 then Inl InvalidTag
         else tag_loop buffer (pos + 1) (tag * 10 + ucast (b - ch_0)))
      else Inr (pos, tag))"
  by pat_completeness auto
termination
  by (relation "measure (\<lambda>(buffer, pos, tag). length buffer - pos)") auto

function scan_soh :: "bytes \<Rightarrow> nat \<Rightarrow> nat" where
  "scan_soh buffer pos =
     (if pos < length buffer \<and> buffer ! pos \<noteq> SOH then scan_soh buffer (pos + 1) else pos)"
  by pat_completeness auto
termination
  by (relation "measure (\<lambda>(buffer, pos). length buffer - pos)") auto

declare tag_loop.simps [simp del] scan_soh.simps [simp del]

text \<open>One \<open>tag=value<SOH>\<close> at \<open>pos\<close>: the tag, the value's start and length, the next position.\<close>

definition parse_one :: "bytes \<Rightarrow> nat \<Rightarrow> ParseError + (u32 \<times> nat \<times> nat \<times> nat)" where
  "parse_one buffer pos =
     (let len = length buffer in
      case tag_loop buffer pos 0 of Inl e \<Rightarrow> Inl e
      | Inr (pos, tag) \<Rightarrow>
          if pos \<ge> len \<or> buffer ! pos \<noteq> EQUALS then Inl MalformedField
          else
            let value_start = pos + 1; pos = scan_soh buffer value_start in
            if pos \<ge> len then Inl MalformedField
            else Inr (tag, value_start, pos - value_start, pos + 1))"

text \<open>A tag number above \<open>u32\<close> wraps, and a field without a tag number has tag 0.\<close>

lemma tag_wraps: "parse_one (asc ''4294967331=X'' @ [SOH]) 0 = Inr (35, 11, 1, 13)"
  by (simp add: parse_one_def asc_def tag_loop.simps scan_soh.simps EQUALS_def SOH_def Let_def)

lemma empty_tag: "parse_one (asc ''=X'' @ [SOH]) 0 = Inr (0, 1, 1, 3)"
  by (simp add: parse_one_def asc_def tag_loop.simps scan_soh.simps EQUALS_def SOH_def Let_def)

subsection \<open>What a successful run says of the buffer\<close>

lemma tag_loop_sound:
  "tag_loop buffer pos a = Inr (pos', tag) \<Longrightarrow> pos \<le> length buffer \<Longrightarrow>
   \<exists>t. list_all is_digit t \<and> pos' = pos + length t \<and> pos' \<le> length buffer \<and>
       take (length t) (drop pos buffer) = t \<and> tag = fold_digits a t"
proof (induction buffer pos a rule: tag_loop.induct)
  case (1 buffer pos a)
  show ?case
  proof (cases "pos < length buffer \<and> buffer ! pos \<noteq> EQUALS")
    case True
    let ?b = "buffer ! pos"
    have d: "is_digit ?b" and r: "tag_loop buffer (pos + 1) (a * 10 + ucast (?b - ch_0)) = Inr (pos', tag)"
      using "1.prems"(1) True
      by (simp_all add: tag_loop.simps [of buffer pos] Let_def is_digit_def split: if_splits)
    have "\<exists>t. list_all is_digit t \<and> pos' = pos + 1 + length t \<and> pos' \<le> length buffer \<and>
        take (length t) (drop (pos + 1) buffer) = t \<and> tag = fold_digits (a * 10 + ucast (?b - ch_0)) t"
      using True d r by (intro "1.IH") (simp_all add: is_digit_def)
    then obtain t where t: "list_all is_digit t" "pos' = pos + 1 + length t" "pos' \<le> length buffer"
      "take (length t) (drop (pos + 1) buffer) = t" "tag = fold_digits (a * 10 + ucast (?b - ch_0)) t"
      by blast
    then have "take (length (?b # t)) (drop pos buffer) = ?b # t"
      using True by (simp flip: Cons_nth_drop_Suc)
    with d t show ?thesis by (intro exI [of _ "?b # t"]) auto
  next
    case False
    then have "tag_loop buffer pos a = Inr (pos, a)" by (subst tag_loop.simps) auto
    then show ?thesis using "1.prems" by (intro exI [of _ "[]"]) simp
  qed
qed

lemma scan_soh_sound:
  "pos \<le> length buffer \<Longrightarrow>
   \<exists>v. SOH \<notin> set v \<and> scan_soh buffer pos = pos + length v \<and> pos + length v \<le> length buffer \<and>
       take (length v) (drop pos buffer) = v \<and>
       (scan_soh buffer pos < length buffer \<longrightarrow> buffer ! scan_soh buffer pos = SOH)"
proof (induction buffer pos rule: scan_soh.induct)
  case (1 buffer pos)
  show ?case
  proof (cases "pos < length buffer \<and> buffer ! pos \<noteq> SOH")
    case True
    have eq: "scan_soh buffer pos = scan_soh buffer (pos + 1)"
      using True by (simp add: scan_soh.simps [of buffer pos])
    obtain v where v: "SOH \<notin> set v" "scan_soh buffer (pos + 1) = pos + 1 + length v"
      "pos + 1 + length v \<le> length buffer" "take (length v) (drop (pos + 1) buffer) = v"
      "scan_soh buffer (pos + 1) < length buffer \<longrightarrow> buffer ! scan_soh buffer (pos + 1) = SOH"
      using "1.IH" True by auto
    have "take (length (buffer ! pos # v)) (drop pos buffer) = buffer ! pos # v"
      using True v by (simp flip: Cons_nth_drop_Suc)
    then show ?thesis using True v eq by (intro exI [of _ "buffer ! pos # v"]) auto
  next
    case False
    then show ?thesis using "1.prems"
      by (intro exI [of _ "[]"]) (auto simp: scan_soh.simps [of buffer pos])
  qed
qed

lemma parse_one_sound:
  assumes "parse_one buffer pos = Inr (tag, vs, vl, pos')" "pos \<le> length buffer"
  obtains t v where "list_all is_digit t" "SOH \<notin> set v" "tag = fold_digits 0 t"
    "vs = pos + length t + 1" "vl = length v" "pos' = pos + length t + length v + 2"
    "take (pos' - pos) (drop pos buffer) = t @ EQUALS # v @ [SOH]" "pos' \<le> length buffer"
proof -
  obtain q where q: "tag_loop buffer pos 0 = Inr (q, tag)" "q < length buffer"
    "buffer ! q = EQUALS" "vs = q + 1" "scan_soh buffer vs < length buffer"
    "vl = scan_soh buffer vs - vs" "pos' = scan_soh buffer vs + 1"
    using assms(1) by (auto simp: parse_one_def Let_def split: sum.splits prod.splits if_splits)
  obtain t where t: "list_all is_digit t" "q = pos + length t"
    "take (length t) (drop pos buffer) = t" "tag = fold_digits 0 t"
    using tag_loop_sound [OF q(1) assms(2)] by auto
  obtain v where v: "SOH \<notin> set v" "scan_soh buffer vs = vs + length v"
    "take (length v) (drop vs buffer) = v" "buffer ! scan_soh buffer vs = SOH"
    using scan_soh_sound [of vs buffer] q by auto
  have "pos' - pos = length t + (length v + 2)" using q t v by simp
  then have "take (pos' - pos) (drop pos buffer) =
      take (length t) (drop pos buffer) @ take (length v + 2) (drop q buffer)"
    using t by (simp only: take_add drop_drop) (simp add: add.commute)
  also have "drop q buffer = EQUALS # drop vs buffer"
    using q by (simp flip: Cons_nth_drop_Suc)
  also have "take (length v + 2) (EQUALS # drop vs buffer) = EQUALS # take (length v) (drop vs buffer) @ [SOH]"
    using q v by (simp add: take_Suc_conv_app_nth)
  finally have "take (pos' - pos) (drop pos buffer) = t @ EQUALS # v @ [SOH]"
    using t v by simp
  then show ?thesis using q t v by (intro that [of t v]) auto
qed

lemma parse_one_progress:
  "parse_one buffer pos = Inr (tag, vs, vl, pos') \<Longrightarrow> pos \<le> length buffer \<Longrightarrow>
   pos < pos' \<and> pos' \<le> length buffer"
  by (erule parse_one_sound) auto

section \<open>The field loop\<close>

text \<open>The structural checks on the first three fields.\<close>

definition structural_error :: "nat \<Rightarrow> u32 \<Rightarrow> ParseError option" where
  "structural_error field_num tag =
     (if field_num = 0 \<and> tag \<noteq> BEGIN_STRING then Some MissingBeginString
      else if field_num = 1 \<and> tag \<noteq> BODY_LENGTH then Some MissingBodyLength
      else if field_num = 2 \<and> tag \<noteq> MSG_TYPE then Some MissingMsgType
      else None)"

text \<open>The loop's variables besides the cursor.\<close>

record ParseState =
  ps_view :: MessageView
  ps_field_num :: nat
  ps_body_start :: nat
  ps_stated :: u64

definition add_parsed :: "bytes \<Rightarrow> ParseState \<Rightarrow> u32 \<Rightarrow> nat \<Rightarrow> nat \<Rightarrow> nat \<Rightarrow> ParseState" where
  "add_parsed buffer st tag value_start value_len pos =
     \<lparr>ps_view = add_field (ps_view st) tag (of_nat value_start) (of_nat value_len),
      ps_field_num = ps_field_num st,
      ps_body_start = (if ps_field_num st = 1 then pos else ps_body_start st),
      ps_stated = (if ps_field_num st = 1
                   then fold_digits 0 (take value_len (drop value_start buffer))
                   else ps_stated st)\<rparr>"

function field_loop :: "bytes \<Rightarrow> nat \<Rightarrow> ParseState \<Rightarrow> ParseError + (nat \<times> ParseState)" where
  "field_loop buffer pos st =
     (if pos < length buffer then
        (case parse_one buffer pos of Inl e \<Rightarrow> Inl e
         | Inr (tag, value_start, value_len, pos') \<Rightarrow>
             (case structural_error (ps_field_num st) tag of Some e \<Rightarrow> Inl e
              | None \<Rightarrow>
                  (let st' = add_parsed buffer st tag value_start value_len pos' in
                   if tag = CHECKSUM then Inr (pos', st')
                   else field_loop buffer pos' (st'\<lparr>ps_field_num := ps_field_num st' + 1\<rparr>))))
      else Inr (pos, st))"
  by pat_completeness auto
termination
proof (relation "measure (\<lambda>(buffer, pos, st). length buffer - pos)", goal_cases)
  case (2 buffer pos st r tag y vs z vl pos' st')
  then have "pos < length buffer" "parse_one buffer pos = Inr (tag, vs, vl, pos')" by simp_all
  then have "pos < pos' \<and> pos' \<le> length buffer" by (auto dest: parse_one_progress)
  with \<open>pos < length buffer\<close> have "length buffer - pos' < length buffer - pos" by arith
  then show ?case by simp
qed simp

declare field_loop.simps [simp del]

section \<open>parse\<close>

definition find_checksum_tag_start :: "bytes \<Rightarrow> nat \<Rightarrow> nat" where
  "find_checksum_tag_start buffer end_pos =
     (if end_pos < 7 then 0
      else case rfind_trailer buffer (end_pos - 4) of Some i \<Rightarrow> i + 1 | None \<Rightarrow> 0)"

definition body_length_error :: "FixParser \<Rightarrow> bytes \<Rightarrow> nat \<Rightarrow> ParseState \<Rightarrow> bool" where
  "body_length_error p buffer consumed st \<longleftrightarrow>
     fp_validate_body_length p \<and> ps_body_start st > 0 \<and>
     (let checksum_tag_start = find_checksum_tag_start buffer consumed in
      checksum_tag_start > 0 \<and>
      of_nat checksum_tag_start - of_nat (ps_body_start st) \<noteq> ps_stated st)"

definition parse :: "FixParser \<Rightarrow> bytes \<Rightarrow> ParseError + (MessageView \<times> nat)" where
  "parse p buffer =
     (let len = length buffer in
      if len < 20 then Inl BufferTooShort
      else if len > fp_max_message_size p then Inl MessageTooLarge
      else
        case field_loop buffer 0
          \<lparr>ps_view = new_view buffer, ps_field_num = 0, ps_body_start = 0, ps_stated = 0\<rparr> of
          Inl e \<Rightarrow> Inl e
        | Inr (consumed, st) \<Rightarrow>
            if body_length_error p buffer consumed st then Inl InvalidBodyLength
            else if fp_validate_checksum p then
              (let valid = validate (take consumed buffer);
                   view = set_checksum_valid (ps_view st) valid in
               if \<not> valid then Inl InvalidChecksum else Inr (view, consumed))
            else Inr (set_checksum_valid (ps_view st) True, consumed))"

section \<open>find\_message\_boundary\<close>

definition boundary_at :: "bytes \<Rightarrow> nat \<Rightarrow> bool" where
  "boundary_at buffer i \<longleftrightarrow>
     buffer ! i = SOH \<and> buffer ! (i + 1) = 49 \<and> buffer ! (i + 2) = 48 \<and>
     buffer ! (i + 3) = 61 \<and> buffer ! (i + 7) = SOH"

function boundary_loop :: "bytes \<Rightarrow> nat \<Rightarrow> nat option" where
  "boundary_loop buffer i =
     (if i + 8 \<le> length buffer then
        (if boundary_at buffer i then Some (i + 8) else boundary_loop buffer (i + 1))
      else None)"
  by pat_completeness auto
termination
  by (relation "measure (\<lambda>(buffer, i). length buffer - i)") auto

declare boundary_loop.simps [simp del]

definition find_message_boundary :: "bytes \<Rightarrow> nat option" where
  "find_message_boundary buffer = (if length buffer < 7 then None else boundary_loop buffer 0)"

text \<open>A boundary lies in the buffer and is at least one trailer long, and it is the first.\<close>

lemma boundary_loop_Some:
  "boundary_loop buffer i = Some b \<Longrightarrow>
   i + 8 \<le> b \<and> b \<le> length buffer \<and> boundary_at buffer (b - 8) \<and>
   (\<forall>j. i \<le> j \<and> j < b - 8 \<longrightarrow> \<not> boundary_at buffer j)"
proof (induction buffer i rule: boundary_loop.induct)
  case (1 buffer i)
  show ?case
  proof (cases "i + 8 \<le> length buffer \<and> \<not> boundary_at buffer i")
    case True
    then have "boundary_loop buffer (i + 1) = Some b"
      using "1.prems" by (simp add: boundary_loop.simps [of buffer i])
    with "1.IH" True show ?thesis
      by (auto simp: Suc_le_eq) (metis Suc_leI le_neq_implies_less)
  next
    case False
    then show ?thesis using "1.prems"
      by (auto simp: boundary_loop.simps [of buffer i] split: if_splits)
  qed
qed

lemma boundary_loop_None:
  "boundary_loop buffer i = None \<Longrightarrow> i \<le> j \<Longrightarrow> j + 8 \<le> length buffer \<Longrightarrow> \<not> boundary_at buffer j"
proof (induction buffer i rule: boundary_loop.induct)
  case (1 buffer i)
  then have "i + 8 \<le> length buffer" by simp
  with "1.prems"(1) have "\<not> boundary_at buffer i" "boundary_loop buffer (i + 1) = None"
    by (simp_all add: boundary_loop.simps [of buffer i] split: if_splits)
  with "1.IH" "1.prems" \<open>i + 8 \<le> length buffer\<close> show ?case
    by (cases "i = j") auto
qed

lemma boundary_le: "find_message_boundary buffer = Some b \<Longrightarrow> 8 \<le> b \<and> b \<le> length buffer"
  by (auto simp: find_message_boundary_def split: if_splits dest: boundary_loop_Some)

section \<open>The loops on a laid-out buffer\<close>

lemma tag_loop_layout:
  "list_all is_digit t \<Longrightarrow>
   tag_loop (pre @ t @ EQUALS # rest) (length pre) a =
     Inr (length pre + length t, fold_digits a t)"
proof (induction t arbitrary: pre a)
  case Nil
  then show ?case by (subst tag_loop.simps) (simp add: nth_append)
next
  case (Cons b t)
  have "tag_loop ((pre @ [b]) @ t @ EQUALS # rest) (length (pre @ [b])) (a * 10 + ucast (b - ch_0)) =
      Inr (length (pre @ [b]) + length t, fold_digits (a * 10 + ucast (b - ch_0)) t)"
    using Cons.prems by (intro Cons.IH) simp
  moreover have "b \<noteq> EQUALS" using Cons.prems by (auto simp: is_digit_def EQUALS_def)
  ultimately show ?case
    using Cons.prems by (subst tag_loop.simps) (simp add: is_digit_def nth_append)
qed

lemma scan_soh_layout:
  "SOH \<notin> set v \<Longrightarrow> scan_soh (pre @ v @ SOH # rest) (length pre) = length pre + length v"
proof (induction v arbitrary: pre)
  case Nil
  then show ?case by (subst scan_soh.simps) (simp add: nth_append)
next
  case (Cons b v)
  have "scan_soh ((pre @ [b]) @ v @ SOH # rest) (length (pre @ [b])) = length (pre @ [b]) + length v"
    using Cons.prems by (intro Cons.IH) simp
  then show ?case using Cons.prems by (subst scan_soh.simps) (auto simp: nth_append)
qed

lemma parse_one_layout:
  assumes "list_all is_digit t" "SOH \<notin> set v"
  shows "parse_one (pre @ t @ EQUALS # v @ SOH # rest) (length pre) =
    Inr (fold_digits 0 t, length pre + length t + 1, length v, length pre + length t + length v + 2)"
proof -
  have "scan_soh ((pre @ t @ [EQUALS]) @ v @ SOH # rest) (length (pre @ t @ [EQUALS])) =
      length (pre @ t @ [EQUALS]) + length v"
    using assms(2) by (rule scan_soh_layout)
  then show ?thesis
    using tag_loop_layout [OF assms(1), of pre "v @ SOH # rest" 0]
    by (simp add: parse_one_def nth_append)
qed

end
