(* ===== verification/Serializer.thy ===== *)
theory Serializer
  imports Message
begin

text \<open>
  \<open>src/src/serializer.rs\<close>: the in-place serializer. Every indexed write of the source is a
  \<^const>\<open>set_at\<close> or \<^const>\<open>copy_at\<close>, so a message that does not fit the caller's buffer is a panic
  (\<^const>\<open>None\<close>), and the reserved body-length bytes are really patched by \<open>finalize\<close>.

  The lemmas give each operation as an equation on the text written so far (\<open>ser_run\<close>), ending
  in the closed form of every builder: the wire text, or a panic exactly when it does not fit.
\<close>

section \<open>Digit table and integer writers\<close>

definition DIGIT_PAIRS :: bytes where
  "DIGIT_PAIRS = asc (''0001020304050607080910111213141516171819'' @
     ''2021222324252627282930313233343536373839'' @
     ''4041424344454647484950515253545556575859'' @
     ''6061626364656667686970717273747576777879'' @
     ''8081828384858687888990919293949596979899'')"

record FixSerializer =
  fs_buffer :: bytes
  fs_pos :: nat
  fs_body_start :: nat

definition new_serializer :: "bytes \<Rightarrow> FixSerializer" where
  "new_serializer buffer = \<lparr>fs_buffer = buffer, fs_pos = 0, fs_body_start = 0\<rparr>"

text \<open>\<open>self.buffer[self.pos] = b; self.pos += 1\<close>.\<close>

definition write_byte :: "FixSerializer \<Rightarrow> byte \<Rightarrow> FixSerializer run" where
  "write_byte s b =
     map_option (\<lambda>buf. s\<lparr>fs_buffer := buf, fs_pos := fs_pos s + 1\<rparr>) (set_at (fs_buffer s) (fs_pos s) b)"

definition write_bytes :: "FixSerializer \<Rightarrow> bytes \<Rightarrow> FixSerializer run" where
  "write_bytes s data =
     map_option (\<lambda>buf. s\<lparr>fs_buffer := buf, fs_pos := fs_pos s + length data\<rparr>)
       (copy_at (fs_buffer s) (fs_pos s) data)"

text \<open>Two digits from the table at \<open>buf[i - 2 .. i]\<close>; an index below 0 panics.\<close>

definition put_pair :: "bytes \<Rightarrow> nat \<Rightarrow> nat \<Rightarrow> bytes run" where
  "put_pair buf i r =
     (if i < 2 then None
      else Option.bind (set_at buf (i - 2) (DIGIT_PAIRS ! (r * 2)))
        (\<lambda>b. set_at b (i - 1) (DIGIT_PAIRS ! (r * 2 + 1))))"

text \<open>\<open>while val >= 100\<close>, on the value of the unsigned integer.\<close>

function pair_loop :: "nat \<Rightarrow> nat \<Rightarrow> bytes \<Rightarrow> (nat \<times> nat \<times> bytes) run" where
  "pair_loop val i buf =
     (if val \<ge> 100 then
        Option.bind (put_pair buf i (val mod 100)) (\<lambda>b. pair_loop (val div 100) (i - 2) b)
      else Some (val, i, buf))"
  by pat_completeness auto
termination
  by (relation "measure (\<lambda>(val, i, buf). val)") auto

declare pair_loop.simps [simp del]

definition last_digits :: "nat \<Rightarrow> nat \<Rightarrow> bytes \<Rightarrow> (nat \<times> bytes) run" where
  "last_digits val i buf =
     (if val \<ge> 10 then map_option (\<lambda>b. (i - 2, b)) (put_pair buf i val)
      else if i < 1 then None
      else map_option (\<lambda>b. (i - 1, b)) (set_at buf (i - 1) (ch_0 + of_nat val)))"

text \<open>The common body of \<open>write_u32\<close> and \<open>write_u64\<close>, which differ in the temporary's size.\<close>

definition write_decimal :: "nat \<Rightarrow> FixSerializer \<Rightarrow> nat \<Rightarrow> FixSerializer run" where
  "write_decimal room s val =
     (if val = 0 then write_byte s ch_0
      else
        Option.bind (pair_loop val room (replicate room 0)) (\<lambda>(v, i, buf).
        Option.bind (last_digits v i buf) (\<lambda>(i, buf).
          write_bytes s (drop i buf))))"

definition write_u32 :: "FixSerializer \<Rightarrow> u32 \<Rightarrow> FixSerializer run" where
  "write_u32 s val = write_decimal 10 s (unat val)"

definition write_u64 :: "FixSerializer \<Rightarrow> u64 \<Rightarrow> FixSerializer run" where
  "write_u64 s val = write_decimal 20 s (unat val)"

definition write_i64 :: "FixSerializer \<Rightarrow> i64 \<Rightarrow> FixSerializer run" where
  "write_i64 s val =
     (if sint val < 0 then Option.bind (write_byte s 45) (\<lambda>s. write_u64 s (- val))
      else write_u64 s val)"

section \<open>Fields\<close>

definition write_tag :: "FixSerializer \<Rightarrow> u32 \<Rightarrow> FixSerializer run" where
  "write_tag s tag = Option.bind (write_u32 s tag) (\<lambda>s. write_byte s EQUALS)"

definition write_tag_value :: "FixSerializer \<Rightarrow> u32 \<Rightarrow> bytes \<Rightarrow> FixSerializer run" where
  "write_tag_value s tag value =
     Option.bind (write_tag s tag) (\<lambda>s. Option.bind (write_bytes s value) (\<lambda>s. write_byte s SOH))"

definition begin_message :: "FixSerializer \<Rightarrow> bytes \<Rightarrow> bytes \<Rightarrow> FixSerializer run" where
  "begin_message s begin_str mtype =
     Option.bind (write_tag_value s BEGIN_STRING begin_str) (\<lambda>s.
     Option.bind (write_bytes s (asc ''9=000000'' @ [SOH])) (\<lambda>s.
     write_tag_value (s\<lparr>fs_body_start := fs_pos s\<rparr>) MSG_TYPE mtype))"

definition add_str :: "FixSerializer \<Rightarrow> u32 \<Rightarrow> bytes \<Rightarrow> FixSerializer run" where
  "add_str s tag value = write_tag_value s tag value"

definition add_int :: "FixSerializer \<Rightarrow> u32 \<Rightarrow> i64 \<Rightarrow> FixSerializer run" where
  "add_int s tag value =
     Option.bind (write_tag s tag) (\<lambda>s. Option.bind (write_i64 s value) (\<lambda>s. write_byte s SOH))"

definition add_u64 :: "FixSerializer \<Rightarrow> u32 \<Rightarrow> u64 \<Rightarrow> FixSerializer run" where
  "add_u64 s tag value =
     Option.bind (write_tag s tag) (\<lambda>s. Option.bind (write_u64 s value) (\<lambda>s. write_byte s SOH))"

section \<open>finalize\<close>

text \<open>\<open>while val > 0 && i > 0\<close> of \<open>write_u64_to_buf\<close>.\<close>

fun u64_loop :: "nat \<Rightarrow> nat \<Rightarrow> bytes \<Rightarrow> nat \<times> bytes" where
  "u64_loop val 0 tmp = (0, tmp)"
| "u64_loop val (Suc i) tmp =
     (if val > 0 then u64_loop (val div 10) i (tmp[i := ch_0 + of_nat (val mod 10)])
      else (Suc i, tmp))"

text \<open>The digits written to \<open>buf[..len]\<close> (the function returns their number).\<close>

definition write_u64_to_buf :: "nat \<Rightarrow> bytes" where
  "write_u64_to_buf val =
     (if val = 0 then [ch_0]
      else case u64_loop val 6 (replicate 6 0) of (i, tmp) \<Rightarrow> drop i tmp)"

fun zero_fill :: "bytes \<Rightarrow> nat \<Rightarrow> nat \<Rightarrow> bytes run" where
  "zero_fill buf start 0 = Some buf"
| "zero_fill buf start (Suc n) = Option.bind (set_at buf start ch_0) (\<lambda>b. zero_fill b (start + 1) n)"

fun set_all :: "bytes \<Rightarrow> nat \<Rightarrow> bytes \<Rightarrow> bytes run" where
  "set_all buf i [] = Some buf"
| "set_all buf i (b # bs) = Option.bind (set_at buf i b) (\<lambda>buf. set_all buf (i + 1) bs)"

text \<open>The seven bytes \<open>10=nnn<SOH>\<close> that \<open>finalize\<close> writes, in order.\<close>

definition trailer :: "byte \<Rightarrow> bytes" where
  "trailer c = [49, 48, 61] @ format c @ [SOH]"

text \<open>
  The result is the buffer and the returned length. A serializer on which \<open>begin\<close> was not
  called has \<open>body_start = 0\<close>: the index \<open>body_start - 7\<close> is then out of range.
\<close>

definition finalize :: "FixSerializer \<Rightarrow> (bytes \<times> nat) run" where
  "finalize s =
     (let body_end = fs_pos s; body_length = body_end - fs_body_start s in
      if fs_body_start s < 7 then None
      else
        let bl_start = fs_body_start s - 7;
            bl = write_u64_to_buf body_length;
            bl_offset = bl_start + (6 - length bl) in
        Option.bind (zero_fill (fs_buffer s) bl_start 6) (\<lambda>buf.
        Option.bind (copy_at buf bl_offset bl) (\<lambda>buf.
        Option.bind (slice buf 0 body_end) (\<lambda>data.
        let cs = compute data in
        Option.bind (set_all buf body_end (trailer cs)) (\<lambda>buf.
          Some (buf, body_end + 7))))))"

section \<open>Message builders\<close>

definition build_heartbeat :: "bytes \<Rightarrow> bytes \<Rightarrow> bytes \<Rightarrow> bytes \<Rightarrow> u64 \<Rightarrow> bytes \<Rightarrow> (bytes \<times> nat) run" where
  "build_heartbeat buf begin_str sender target seq_num sending_time =
     Option.bind (begin_message (new_serializer buf) begin_str (asc ''0'')) (\<lambda>s.
     Option.bind (add_str s SENDER_COMP_ID sender) (\<lambda>s.
     Option.bind (add_str s TARGET_COMP_ID target) (\<lambda>s.
     Option.bind (add_u64 s MSG_SEQ_NUM seq_num) (\<lambda>s.
     Option.bind (add_str s SENDING_TIME sending_time) finalize))))"

definition build_logon ::
  "bytes \<Rightarrow> bytes \<Rightarrow> bytes \<Rightarrow> bytes \<Rightarrow> u64 \<Rightarrow> bytes \<Rightarrow> i64 \<Rightarrow> (bytes \<times> nat) run" where
  "build_logon buf begin_str sender target seq_num sending_time heartbeat_interval =
     Option.bind (begin_message (new_serializer buf) begin_str (asc ''A'')) (\<lambda>s.
     Option.bind (add_str s SENDER_COMP_ID sender) (\<lambda>s.
     Option.bind (add_str s TARGET_COMP_ID target) (\<lambda>s.
     Option.bind (add_u64 s MSG_SEQ_NUM seq_num) (\<lambda>s.
     Option.bind (add_str s SENDING_TIME sending_time) (\<lambda>s.
     Option.bind (add_int s ENCRYPT_METHOD 0) (\<lambda>s.
     Option.bind (add_int s HEARTBT_INT heartbeat_interval) finalize))))))"

definition build_logout :: "bytes \<Rightarrow> bytes \<Rightarrow> bytes \<Rightarrow> bytes \<Rightarrow> u64 \<Rightarrow> bytes \<Rightarrow> (bytes \<times> nat) run" where
  "build_logout buf begin_str sender target seq_num sending_time =
     Option.bind (begin_message (new_serializer buf) begin_str (asc ''5'')) (\<lambda>s.
     Option.bind (add_str s SENDER_COMP_ID sender) (\<lambda>s.
     Option.bind (add_str s TARGET_COMP_ID target) (\<lambda>s.
     Option.bind (add_u64 s MSG_SEQ_NUM seq_num) (\<lambda>s.
     Option.bind (add_str s SENDING_TIME sending_time) finalize))))"

definition build_test_request ::
  "bytes \<Rightarrow> bytes \<Rightarrow> bytes \<Rightarrow> bytes \<Rightarrow> u64 \<Rightarrow> bytes \<Rightarrow> bytes \<Rightarrow> (bytes \<times> nat) run" where
  "build_test_request buf begin_str sender target seq_num sending_time test_req_id =
     Option.bind (begin_message (new_serializer buf) begin_str (asc ''1'')) (\<lambda>s.
     Option.bind (add_str s SENDER_COMP_ID sender) (\<lambda>s.
     Option.bind (add_str s TARGET_COMP_ID target) (\<lambda>s.
     Option.bind (add_u64 s MSG_SEQ_NUM seq_num) (\<lambda>s.
     Option.bind (add_str s SENDING_TIME sending_time) (\<lambda>s.
     Option.bind (add_str s TEST_REQ_ID test_req_id) finalize)))))"

definition build_new_order_single ::
  "bytes \<Rightarrow> bytes \<Rightarrow> bytes \<Rightarrow> bytes \<Rightarrow> u64 \<Rightarrow> bytes \<Rightarrow> bytes \<Rightarrow> bytes \<Rightarrow> byte \<Rightarrow> i64 \<Rightarrow> byte \<Rightarrow> bytes \<Rightarrow>
   (bytes \<times> nat) run" where
  "build_new_order_single buf begin_str sender target seq_num sending_time cl_ord_id symbol side
       qty ord_type price =
     Option.bind (begin_message (new_serializer buf) begin_str (asc ''D'')) (\<lambda>s.
     Option.bind (add_str s SENDER_COMP_ID sender) (\<lambda>s.
     Option.bind (add_str s TARGET_COMP_ID target) (\<lambda>s.
     Option.bind (add_u64 s MSG_SEQ_NUM seq_num) (\<lambda>s.
     Option.bind (add_str s SENDING_TIME sending_time) (\<lambda>s.
     Option.bind (add_str s CL_ORD_ID cl_ord_id) (\<lambda>s.
     Option.bind (add_str s SYMBOL symbol) (\<lambda>s.
     Option.bind (add_str s SIDE [side]) (\<lambda>s.
     Option.bind (add_int s ORDER_QTY qty) (\<lambda>s.
     Option.bind (add_str s ORD_TYPE [ord_type]) (\<lambda>s.
     Option.bind (add_str s PRICE price) (\<lambda>s.
     Option.bind (add_str s TRANSACT_TIME sending_time) (\<lambda>s.
     Option.bind (add_str s HANDL_INST (asc ''1'')) finalize))))))))))))"

definition build_execution_report ::
  "bytes \<Rightarrow> bytes \<Rightarrow> bytes \<Rightarrow> bytes \<Rightarrow> u64 \<Rightarrow> bytes \<Rightarrow> bytes \<Rightarrow> bytes \<Rightarrow> bytes \<Rightarrow> bytes \<Rightarrow> byte \<Rightarrow> i64 \<Rightarrow>
   i64 \<Rightarrow> bytes \<Rightarrow> i64 \<Rightarrow> i64 \<Rightarrow> bytes \<Rightarrow> byte \<Rightarrow> byte \<Rightarrow> (bytes \<times> nat) run" where
  "build_execution_report buf begin_str sender target seq_num sending_time order_id exec_id cl_ord_id
       symbol side ord_qty last_qty last_px leaves_qty cum_qty avg_px exec_type ord_status =
     Option.bind (begin_message (new_serializer buf) begin_str (asc ''8'')) (\<lambda>s.
     Option.bind (add_str s SENDER_COMP_ID sender) (\<lambda>s.
     Option.bind (add_str s TARGET_COMP_ID target) (\<lambda>s.
     Option.bind (add_u64 s MSG_SEQ_NUM seq_num) (\<lambda>s.
     Option.bind (add_str s SENDING_TIME sending_time) (\<lambda>s.
     Option.bind (add_str s ORDER_ID order_id) (\<lambda>s.
     Option.bind (add_str s EXEC_ID exec_id) (\<lambda>s.
     Option.bind (add_str s CL_ORD_ID cl_ord_id) (\<lambda>s.
     Option.bind (add_str s EXEC_TYPE [exec_type]) (\<lambda>s.
     Option.bind (add_str s ORD_STATUS [ord_status]) (\<lambda>s.
     Option.bind (add_str s SYMBOL symbol) (\<lambda>s.
     Option.bind (add_str s SIDE [side]) (\<lambda>s.
     Option.bind (add_int s ORDER_QTY ord_qty) (\<lambda>s.
     Option.bind (add_int s LAST_QTY last_qty) (\<lambda>s.
     Option.bind (add_str s LAST_PX last_px) (\<lambda>s.
     Option.bind (add_int s LEAVES_QTY leaves_qty) (\<lambda>s.
     Option.bind (add_int s CUM_QTY cum_qty) (\<lambda>s.
     Option.bind (add_str s AVG_PX avg_px) (\<lambda>s.
     Option.bind (add_str s TRANSACT_TIME sending_time) finalize))))))))))))))))))"

section \<open>The writers on the text written so far\<close>

text \<open>A serializer over \<open>buf\<close> that has written \<open>out\<close>; a panic when \<open>out\<close> did not fit.\<close>

definition ser_run :: "bytes \<Rightarrow> bytes \<Rightarrow> nat \<Rightarrow> FixSerializer run" where
  "ser_run buf out k =
     (if length out \<le> length buf
      then Some \<lparr>fs_buffer = out @ drop (length out) buf, fs_pos = length out, fs_body_start = k\<rparr>
      else None)"

lemma run_chain:
  "Option.bind m f = m' \<Longrightarrow> Option.bind m (\<lambda>s. Option.bind (f s) g) = Option.bind m' g"
  by (simp flip: Option.bind_assoc)

named_theorems ser_step \<open>the effect of an operation on the text written so far\<close>

lemma ser_run_new: "Some (new_serializer buf) = ser_run buf [] 0"
  by (simp add: ser_run_def new_serializer_def)

lemma write_bytes_run [ser_step]:
  "Option.bind (ser_run buf out k) (\<lambda>s. write_bytes s data) = ser_run buf (out @ data) k"
  by (auto simp: ser_run_def write_bytes_def copy_at_def ac_simps)

lemma write_byte_run [ser_step]:
  "Option.bind (ser_run buf out k) (\<lambda>s. write_byte s b) = ser_run buf (out @ [b]) k"
proof -
  have "write_byte s b = write_bytes s [b]" for s
    by (simp add: write_byte_def write_bytes_def set_at_copy)
  then show ?thesis by (simp add: write_bytes_run)
qed

lemma DIGIT_PAIRS_concat:
  "DIGIT_PAIRS = concat (map (\<lambda>r. [digit (r div 10), digit (r mod 10)]) [0..<100])"
proof -
  have "[0..<100] = 0 # 1 # [2..<100::nat]" by (simp add: upt_conv_Cons numeral_2_eq_2)
  then show ?thesis by (simp add: DIGIT_PAIRS_def of_char_asc digit_def upt_rec_numeral)
qed

lemma nth_concat_pairs:
  "r < n \<Longrightarrow> concat (map (\<lambda>r. [f r, g r]) [0..<n]) ! (r * 2) = f r \<and>
    concat (map (\<lambda>r. [f r, g r]) [0..<n]) ! (r * 2 + 1) = g r"
proof (induction n)
  case 0
  then show ?case by simp
next
  case (Suc n)
  have "length (concat (map (\<lambda>r. [f r, g r]) [0..<n])) = n * 2"
    by (simp add: length_concat comp_def sum_list_triv)
  with Suc show ?case by (cases "r = n") (simp_all add: nth_append)
qed

lemma digit_pairs:
  assumes "r < 100"
  shows "DIGIT_PAIRS ! (r * 2) = digit (r div 10)" "DIGIT_PAIRS ! (r * 2 + 1) = digit (r mod 10)"
  unfolding DIGIT_PAIRS_concat
  using nth_concat_pairs [OF assms, of "\<lambda>r. digit (r div 10)" "\<lambda>r. digit (r mod 10)"] by simp_all

text \<open>Two table digits written below \<open>i\<close> leave everything from \<open>i\<close> on as it was.\<close>

lemma put_pair_drop:
  assumes "2 \<le> i" "i \<le> length buf" "r < 100"
  obtains buf' where "put_pair buf i r = Some buf'" "length buf' = length buf"
    "drop (i - 2) buf' = digit (r div 10) # digit (r mod 10) # drop i buf"
proof -
  let ?b = "buf[i - 2 := digit (r div 10), i - 1 := digit (r mod 10)]"
  have "put_pair buf i r = Some ?b"
    using assms digit_pairs [OF assms(3)] by (auto simp: put_pair_def set_at_def)
  moreover have "drop (i - 2) ?b = ?b ! (i - 2) # ?b ! (i - 1) # drop i ?b"
    using assms Cons_nth_drop_Suc [of "i - 2" ?b] Cons_nth_drop_Suc [of "i - 1" ?b]
    by (simp add: numeral_2_eq_2 Suc_diff_Suc)
  ultimately show ?thesis using assms by (intro that [of ?b]) simp_all
qed

lemma dec_hundred:
  assumes "100 \<le> n"
  shows "dec n = dec (n div 100) @ [digit (n mod 100 div 10), digit (n mod 100 mod 10)]"
proof -
  have "dec n = (dec (n div 10 div 10) @ [digit (n div 10 mod 10)]) @ [digit (n mod 10)]"
    using assms by (simp add: dec_step)
  moreover have "n div 10 div 10 = n div 100" by (simp flip: div_mult2_eq)
  moreover have "n mod 100 div 10 = n div 10 mod 10" "n mod 100 mod 10 = n mod 10"
    using mod_mult2_eq [of n 10 10] by (simp_all add: mod_mod_cancel)
  ultimately show ?thesis by simp
qed

lemma last_digits_dec:
  assumes "val < 100" "length (dec val) \<le> i" "i \<le> length buf" "0 < val"
  shows "\<exists>i' buf'. last_digits val i buf = Some (i', buf') \<and> drop i' buf' = dec val @ drop i buf"
proof (cases "10 \<le> val")
  case True
  then have two: "dec val = [digit (val div 10), digit (val mod 10)]"
    using assms(1) by (simp add: dec_step dec_small)
  then obtain buf' where "put_pair buf i val = Some buf'"
    "drop (i - 2) buf' = digit (val div 10) # digit (val mod 10) # drop i buf"
    using assms by - (rule put_pair_drop [of i buf val], auto)
  then show ?thesis using True two by (auto simp: last_digits_def)
next
  case False
  then have one: "dec val = [digit val]" by (simp add: dec_small)
  then have "drop (i - 1) (buf[i - 1 := digit val]) = digit val # drop i buf"
    using assms Cons_nth_drop_Suc [of "i - 1" "buf[i - 1 := digit val]"] by simp
  then show ?thesis
    using False one assms by (auto simp: last_digits_def set_at_def digit_def)
qed

lemma pair_loop_dec:
  "0 < val \<Longrightarrow> length (dec val) \<le> i \<Longrightarrow> i \<le> length buf \<Longrightarrow>
   \<exists>v i' buf' i'' buf''. pair_loop val i buf = Some (v, i', buf') \<and>
     last_digits v i' buf' = Some (i'', buf'') \<and> drop i'' buf'' = dec val @ drop i buf"
proof (induction val i buf rule: pair_loop.induct)
  case (1 val i buf)
  show ?case
  proof (cases "100 \<le> val")
    case True
    note d = dec_hundred [OF True]
    obtain b where b: "put_pair buf i (val mod 100) = Some b" "length b = length buf"
      "drop (i - 2) b = digit (val mod 100 div 10) # digit (val mod 100 mod 10) # drop i buf"
      using "1.prems" d by - (rule put_pair_drop [of i buf "val mod 100"], auto)
    have "0 < val div 100" using True by (simp add: div_greater_zero_iff)
    moreover have "length (dec (val div 100)) \<le> i - 2" "i - 2 \<le> length b"
      using "1.prems" b(2) d by auto
    ultimately obtain v i' buf' i'' buf'' where
      "pair_loop (val div 100) (i - 2) b = Some (v, i', buf')"
      "last_digits v i' buf' = Some (i'', buf'')"
      "drop i'' buf'' = dec (val div 100) @ drop (i - 2) b"
      using "1.IH" [OF True b(1)] by blast
    then show ?thesis using True b d by (simp add: pair_loop.simps [of val])
  next
    case False
    then have "pair_loop val i buf = Some (val, i, buf)" by (simp add: pair_loop.simps)
    then show ?thesis using False "1.prems" last_digits_dec [of val i buf] by auto
  qed
qed

lemma write_decimal_run:
  assumes "length (dec val) \<le> room"
  shows "Option.bind (ser_run buf out k) (\<lambda>s. write_decimal room s val) = ser_run buf (out @ dec val) k"
proof (cases "val = 0")
  case True
  then show ?thesis by (simp add: write_decimal_def write_byte_run dec_small digit_def)
next
  case False
  then obtain v i' buf' i'' buf'' where
    "pair_loop val room (replicate room 0) = Some (v, i', buf')"
    "last_digits v i' buf' = Some (i'', buf'')" "drop i'' buf'' = dec val"
    using pair_loop_dec [of val room "replicate room 0"] assms by auto
  then have "write_decimal room s val = write_bytes s (dec val)" for s
    using False by (simp add: write_decimal_def)
  then show ?thesis by (simp add: write_bytes_run)
qed

lemma write_u32_run [ser_step]:
  "Option.bind (ser_run buf out k) (\<lambda>s. write_u32 s v) = ser_run buf (out @ dec (unat v)) k"
proof -
  have "unat v < 2 ^ 32" using unsigned_less [of v] by simp
  then have "unat v < 10 ^ 10" by simp
  then have "length (dec (unat v)) \<le> 10" by (rule dec_length) simp
  then show ?thesis by (simp add: write_u32_def write_decimal_run)
qed

lemma write_u64_run [ser_step]:
  "Option.bind (ser_run buf out k) (\<lambda>s. write_u64 s v) = ser_run buf (out @ dec (unat v)) k"
proof -
  have "unat v < 2 ^ 64" using unsigned_less [of v] by simp
  then have "unat v < 10 ^ 20" by simp
  then have "length (dec (unat v)) \<le> 20" by (rule dec_length) simp
  then show ?thesis by (simp add: write_u64_def write_decimal_run)
qed

text \<open>The text of a signed integer; the negation is the wrapping one.\<close>

definition int_text :: "i64 \<Rightarrow> bytes" where
  "int_text v = (if sint v < 0 then 45 # dec (unat (- v)) else dec (unat v))"

lemma write_i64_run [ser_step]:
  "Option.bind (ser_run buf out k) (\<lambda>s. write_i64 s v) = ser_run buf (out @ int_text v) k"
  by (simp add: write_i64_def int_text_def run_chain [OF write_byte_run] write_u64_run)

lemmas write_chain = write_bytes_run [THEN run_chain] write_byte_run [THEN run_chain]
  write_u32_run [THEN run_chain] write_u64_run [THEN run_chain] write_i64_run [THEN run_chain]

section \<open>The wire text\<close>

text \<open>\<open>tag=value<SOH>\<close>.\<close>

definition field_bytes :: "u32 \<times> bytes \<Rightarrow> bytes" where
  "field_bytes f = dec (unat (fst f)) @ EQUALS # snd f @ [SOH]"

definition fields_bytes :: "(u32 \<times> bytes) list \<Rightarrow> bytes" where
  "fields_bytes fs = concat (map field_bytes fs)"

lemma fields_bytes_simps [simp]:
  "fields_bytes [] = []"
  "fields_bytes (f # fs) = field_bytes f @ fields_bytes fs"
  "fields_bytes (xs @ ys) = fields_bytes xs @ fields_bytes ys"
  by (simp_all add: fields_bytes_def)

lemma write_tag_value_run [ser_step]:
  "Option.bind (ser_run buf out k) (\<lambda>s. write_tag_value s t v) = ser_run buf (out @ field_bytes (t, v)) k"
  by (simp add: write_tag_value_def write_tag_def field_bytes_def write_chain ser_step)

lemma add_str_run [ser_step]:
  "Option.bind (ser_run buf out k) (\<lambda>s. add_str s t v) = ser_run buf (out @ field_bytes (t, v)) k"
  by (simp add: add_str_def write_tag_value_run)

lemma add_u64_run [ser_step]:
  "Option.bind (ser_run buf out k) (\<lambda>s. add_u64 s t v) =
     ser_run buf (out @ field_bytes (t, dec (unat v))) k"
  by (simp add: add_u64_def write_tag_def field_bytes_def write_chain ser_step)

lemma add_int_run [ser_step]:
  "Option.bind (ser_run buf out k) (\<lambda>s. add_int s t v) = ser_run buf (out @ field_bytes (t, int_text v)) k"
  by (simp add: add_int_def write_tag_def field_bytes_def write_chain ser_step)

lemmas field_chain = add_str_run [THEN run_chain] add_u64_run [THEN run_chain]
  add_int_run [THEN run_chain] write_tag_value_run [THEN run_chain]

section \<open>finalize in closed form\<close>

text \<open>The \<open>k\<close> low decimal digits of \<open>v\<close>, zero-padded.\<close>

fun padded :: "nat \<Rightarrow> nat \<Rightarrow> bytes" where
  "padded 0 v = []"
| "padded (Suc k) v = padded k (v div 10) @ [digit (v mod 10)]"

lemma length_padded [simp]: "length (padded k v) = k"
  by (induction k arbitrary: v) simp_all

lemma padded_zero: "padded k 0 = replicate k ch_0"
  by (induction k) (simp_all add: digit_def replicate_append_same)

lemma padded_digits: "list_all is_digit (padded k v)"
  by (induction k arbitrary: v) simp_all

lemma fold_digits_padded: "fold_digits 0 (padded k v) = (of_nat (v mod 10 ^ k) :: 'a::len word)"
proof (induction k arbitrary: v)
  case 0
  then show ?case by simp
next
  case (Suc k)
  have "v mod 10 ^ Suc k = v div 10 mod 10 ^ k * 10 + v mod 10"
    using mod_mult2_eq [of v 10 "10 ^ k"] by simp
  then show ?case using Suc [of "v div 10"] by (simp add: ucast_digit)
qed

lemma u64_loop_padded:
  "i \<le> length tmp \<Longrightarrow> u64_loop val i tmp = (i', tmp') \<Longrightarrow>
   i' \<le> i \<and> length tmp' = length tmp \<and> replicate i' ch_0 @ drop i' tmp' = padded i val @ drop i tmp"
proof (induction val i tmp rule: u64_loop.induct)
  case (1 val tmp)
  then show ?case by simp
next
  case (2 val i tmp)
  show ?case
  proof (cases "val > 0")
    case True
    then have "i' \<le> i \<and> length tmp' = length tmp \<and> replicate i' ch_0 @ drop i' tmp' =
        padded i (val div 10) @ drop i (tmp[i := ch_0 + of_nat (val mod 10)])"
      using "2.IH" [OF True] "2.prems" by simp
    moreover have "drop i (tmp[i := ch_0 + of_nat (val mod 10)]) = digit (val mod 10) # drop (Suc i) tmp"
      using "2.prems" Cons_nth_drop_Suc [of i "tmp[i := ch_0 + of_nat (val mod 10)]"]
      by (simp add: digit_def)
    ultimately show ?thesis by simp
  next
    case False
    then show ?thesis using "2.prems" padded_zero [of "Suc i"] by auto
  qed
qed

lemma write_u64_to_buf_padded:
  "length (write_u64_to_buf val) \<le> 6 \<and>
   replicate (6 - length (write_u64_to_buf val)) ch_0 @ write_u64_to_buf val = padded 6 val"
proof (cases "val = 0")
  case True
  then show ?thesis using padded_zero [of 6]
    by (simp add: write_u64_to_buf_def replicate_append_same flip: replicate_Suc)
next
  case False
  obtain i tmp where eq: "u64_loop val 6 (replicate 6 0) = (i, tmp)" by fastforce
  have "i \<le> 6 \<and> length tmp = 6 \<and> replicate i ch_0 @ drop i tmp = padded 6 val"
    using u64_loop_padded [OF _ eq] by simp
  then show ?thesis using False eq by (simp add: write_u64_to_buf_def)
qed

lemma zero_fill_mid:
  "n = length six \<Longrightarrow> zero_fill (h @ six @ rest) (length h) n = Some (h @ replicate n ch_0 @ rest)"
proof (induction n arbitrary: h six)
  case 0
  then show ?case by simp
next
  case (Suc n)
  then obtain b six' where six: "six = b # six'" by (cases six) auto
  then have "zero_fill ((h @ [ch_0]) @ six' @ rest) (length (h @ [ch_0])) n =
      Some ((h @ [ch_0]) @ replicate n ch_0 @ rest)"
    using Suc.prems by (intro Suc.IH) simp
  then show ?case using six by (simp add: set_at_def)
qed

lemma set_all_copy: "i \<le> length buf \<Longrightarrow> set_all buf i bs = copy_at buf i bs"
proof (induction bs arbitrary: buf i)
  case Nil
  then show ?case by (simp add: copy_at_def)
next
  case (Cons b bs)
  show ?case
  proof (cases "i < length buf")
    case True
    have "set_all buf i (b # bs) = copy_at (buf[i := b]) (i + 1) bs"
      using True Cons.IH by (simp add: set_at_def)
    also have "\<dots> = Option.bind (copy_at buf i [b]) (\<lambda>c. copy_at c (i + length [b]) bs)"
      using True by (simp add: set_at_def flip: set_at_copy)
    also have "\<dots> = copy_at buf i ([b] @ bs)" by (rule copy_at_copy_at)
    finally show ?thesis by simp
  next
    case False
    then show ?thesis by (simp add: set_at_def copy_at_def)
  qed
qed

text \<open>The text is written when it fits the buffer, and a panic otherwise.\<close>

definition emit :: "bytes \<Rightarrow> bytes \<Rightarrow> (bytes \<times> nat) run" where
  "emit buf w = (if length w \<le> length buf then Some (w @ drop (length w) buf, length w) else None)"

lemma length_trailer [simp]: "length (trailer c) = 7"
  by (simp add: trailer_def)

lemma copy_at_end:
  "copy_at (xs @ ys) (length xs) zs =
     (if length zs \<le> length ys then Some (xs @ zs @ drop (length zs) ys) else None)"
  by (simp add: copy_at_def)

lemma finalize_run:
  assumes "length six = 6"
  shows "Option.bind (ser_run buf (h @ six @ SOH # body) (length h + 7)) finalize =
    (let pre = h @ padded 6 (length body) @ SOH # body in emit buf (pre @ trailer (sum_list pre)))"
proof (cases "length (h @ six @ SOH # body) \<le> length buf")
  case True
  let ?out = "h @ six @ SOH # body"
  let ?bl = "write_u64_to_buf (length body)"
  let ?pre = "h @ padded 6 (length body) @ SOH # body"
  let ?rest = "SOH # body @ drop (length ?out) buf"
  have zf: "zero_fill (h @ six @ ?rest) (length h) 6 = Some (h @ replicate 6 ch_0 @ ?rest)"
    using assms by (intro zero_fill_mid) simp
  have bl: "length ?bl \<le> 6" "replicate (6 - length ?bl) ch_0 @ ?bl = padded 6 (length body)"
    using write_u64_to_buf_padded by auto
  have "copy_at (h @ replicate 6 ch_0 @ ?rest) (length h + (6 - length ?bl)) ?bl =
      Some (h @ (replicate (6 - length ?bl) ch_0 @ ?bl) @ ?rest)"
    using bl(1) by (simp add: copy_at_def min_def)
  then have cp: "copy_at (h @ replicate 6 ch_0 @ ?rest) (length h + (6 - length ?bl)) ?bl =
      Some (?pre @ drop (length ?out) buf)"
    using bl(2) by simp
  have sl: "slice (?pre @ drop (length ?out) buf) 0 (length ?out) = Some ?pre"
    using assms by (simp add: slice_def)
  have sa: "set_all (?pre @ drop (length ?out) buf) (length ?out) (trailer (sum_list ?pre)) =
      (if length ?out + 7 \<le> length buf
       then Some (?pre @ trailer (sum_list ?pre) @ drop (length ?out + 7) buf) else None)"
    using assms True copy_at_end [of ?pre "drop (length ?out) buf" "trailer (sum_list ?pre)"]
    by (simp add: set_all_copy le_diff_conv2 add.commute)
  show ?thesis
    using True zf cp sl sa assms
    by (simp add: ser_run_def finalize_def Let_def emit_def ac_simps)
next
  case False
  then show ?thesis using assms by (simp add: ser_run_def emit_def Let_def)
qed

section \<open>The wire text of a message, and the builders in closed form\<close>

text \<open>Everything before the trailer: BeginString, the six-digit BodyLength, the body.\<close>

definition wire_pre :: "bytes \<Rightarrow> (u32 \<times> bytes) list \<Rightarrow> bytes" where
  "wire_pre begin_str fs =
     field_bytes (BEGIN_STRING, begin_str) @
     field_bytes (BODY_LENGTH, padded 6 (length (fields_bytes fs))) @ fields_bytes fs"

definition wire :: "bytes \<Rightarrow> (u32 \<times> bytes) list \<Rightarrow> bytes" where
  "wire begin_str fs = wire_pre begin_str fs @ trailer (sum_list (wire_pre begin_str fs))"

text \<open>A serializer that has begun a message and added the fields \<open>fs\<close>.\<close>

definition begun :: "bytes \<Rightarrow> bytes \<Rightarrow> (u32 \<times> bytes) list \<Rightarrow> FixSerializer run" where
  "begun buf begin_str fs =
     (let h = field_bytes (BEGIN_STRING, begin_str) @ [57, 61] in
      ser_run buf (h @ asc ''000000'' @ SOH # fields_bytes fs) (length h + 7))"

lemma set_body_start_run:
  "Option.bind (ser_run buf out k) (\<lambda>s. g (s\<lparr>fs_body_start := fs_pos s\<rparr>)) =
     Option.bind (ser_run buf out (length out)) g"
  by (simp add: ser_run_def)

lemma begin_message_run:
  "begin_message (new_serializer buf) begin_str mtype = begun buf begin_str [(MSG_TYPE, mtype)]"
proof -
  have "begin_message (new_serializer buf) begin_str mtype =
      Option.bind (ser_run buf [] 0) (\<lambda>s. begin_message s begin_str mtype)"
    by (simp flip: ser_run_new)
  then show ?thesis
    by (simp add: begin_message_def begun_def Let_def field_chain write_chain
        set_body_start_run [where g = "\<lambda>s. write_tag_value s MSG_TYPE mtype"]
        write_tag_value_run of_char_asc eval_nat_numeral)
qed

lemma begun_add [ser_step]:
  "Option.bind (begun buf b fs) (\<lambda>s. add_str s t v) = begun buf b (fs @ [(t, v)])"
  "Option.bind (begun buf b fs) (\<lambda>s. add_u64 s t n) = begun buf b (fs @ [(t, dec (unat n))])"
  "Option.bind (begun buf b fs) (\<lambda>s. add_int s t i) = begun buf b (fs @ [(t, int_text i)])"
  by (simp_all add: begun_def Let_def add_str_run add_u64_run add_int_run)

lemmas begun_chain = begun_add [THEN run_chain]

lemma begun_finalize: "Option.bind (begun buf b fs) finalize = emit buf (wire b fs)"
proof -
  let ?h = "field_bytes (BEGIN_STRING, b) @ [57, 61]"
  have "length (asc ''000000'') = 6" by (simp add: asc_def)
  note fin = finalize_run [OF this, of buf ?h "fields_bytes fs"]
  have "wire_pre b fs = ?h @ padded 6 (length (fields_bytes fs)) @ SOH # fields_bytes fs"
    by (simp add: wire_pre_def field_bytes_def BODY_LENGTH_def EQUALS_def dec_small digit_def)
  then show ?thesis using fin by (simp add: begun_def Let_def wire_def)
qed

lemmas builder_simps = begin_message_run begun_chain begun_finalize append_Cons append_Nil

lemma build_heartbeat_eq:
  "build_heartbeat buf b sender target n t =
     emit buf (wire b [(MSG_TYPE, asc ''0''), (SENDER_COMP_ID, sender), (TARGET_COMP_ID, target),
       (MSG_SEQ_NUM, dec (unat n)), (SENDING_TIME, t)])"
  by (simp only: build_heartbeat_def builder_simps)

lemma build_logon_eq:
  "build_logon buf b sender target n t hb =
     emit buf (wire b [(MSG_TYPE, asc ''A''), (SENDER_COMP_ID, sender), (TARGET_COMP_ID, target),
       (MSG_SEQ_NUM, dec (unat n)), (SENDING_TIME, t), (ENCRYPT_METHOD, int_text 0),
       (HEARTBT_INT, int_text hb)])"
  by (simp only: build_logon_def builder_simps)

lemma build_logout_eq:
  "build_logout buf b sender target n t =
     emit buf (wire b [(MSG_TYPE, asc ''5''), (SENDER_COMP_ID, sender), (TARGET_COMP_ID, target),
       (MSG_SEQ_NUM, dec (unat n)), (SENDING_TIME, t)])"
  by (simp only: build_logout_def builder_simps)

lemma build_test_request_eq:
  "build_test_request buf b sender target n t tid =
     emit buf (wire b [(MSG_TYPE, asc ''1''), (SENDER_COMP_ID, sender), (TARGET_COMP_ID, target),
       (MSG_SEQ_NUM, dec (unat n)), (SENDING_TIME, t), (TEST_REQ_ID, tid)])"
  by (simp only: build_test_request_def builder_simps)

lemma build_new_order_single_eq:
  "build_new_order_single buf b sender target n t cl symb side qty otype price =
     emit buf (wire b [(MSG_TYPE, asc ''D''), (SENDER_COMP_ID, sender), (TARGET_COMP_ID, target),
       (MSG_SEQ_NUM, dec (unat n)), (SENDING_TIME, t), (CL_ORD_ID, cl), (SYMBOL, symb), (SIDE, [side]),
       (ORDER_QTY, int_text qty), (ORD_TYPE, [otype]), (PRICE, price), (TRANSACT_TIME, t),
       (HANDL_INST, asc ''1'')])"
  by (simp only: build_new_order_single_def builder_simps)

lemma build_execution_report_eq:
  "build_execution_report buf b sender target n t oid eid cl symb side oqty lqty lpx leaves cum avg
       etype ostat =
     emit buf (wire b [(MSG_TYPE, asc ''8''), (SENDER_COMP_ID, sender), (TARGET_COMP_ID, target),
       (MSG_SEQ_NUM, dec (unat n)), (SENDING_TIME, t), (ORDER_ID, oid), (EXEC_ID, eid), (CL_ORD_ID, cl),
       (EXEC_TYPE, [etype]), (ORD_STATUS, [ostat]), (SYMBOL, symb), (SIDE, [side]),
       (ORDER_QTY, int_text oqty), (LAST_QTY, int_text lqty), (LAST_PX, lpx),
       (LEAVES_QTY, int_text leaves), (CUM_QTY, int_text cum), (AVG_PX, avg), (TRANSACT_TIME, t)])"
  by (simp only: build_execution_report_def builder_simps)

lemma parse_i64_int_text: "parse_i64 (int_text v) = Some v"
proof (cases "sint v < 0")
  case True
  then show ?thesis by (simp add: int_text_def parse_i64_neg)
next
  case False
  then show ?thesis by (simp add: int_text_def parse_i64_dec)
qed

interpretation i64_codec: codec "\<lambda>_. True" int_text parse_i64
  by unfold_locales (simp add: parse_i64_int_text)

end
