(* ===== verification/Wire.thy ===== *)
theory Wire
  imports Parser Serializer
begin

text \<open>
  The serializer and the parser against the wire text of a message. The text \<open>wire b fs\<close> of a
  message with BeginString \<open>b\<close> and body fields \<open>fs\<close> is what the builders of
  \<open>src/src/serializer.rs\<close> emit (theory \<open>Serializer\<close>); here the parser of \<open>src/src/parser.rs\<close>
  reads it back field by field, whatever follows it in the buffer, and the framer finds its end.
  The last section is the converse for untrusted input: what the parser accepts is a
  well-formed text.
\<close>

section \<open>One field\<close>

lemma fold_digits_tag [simp]: "fold_digits 0 (dec (unat t)) = (t :: u32)"
  by (simp add: fold_digits_dec)

lemma field_loop_step:
  assumes "SOH \<notin> set v" and "buffer = pre @ field_bytes (t, v) @ post"
  shows "field_loop buffer (length pre) st =
    (case structural_error (ps_field_num st) t of Some e \<Rightarrow> Inl e
     | None \<Rightarrow>
        (let pos' = length pre + length (field_bytes (t, v));
             st' = add_parsed buffer st t (length pre + length (dec (unat t)) + 1) (length v) pos' in
         if t = CHECKSUM then Inr (pos', st')
         else field_loop buffer pos' (st'\<lparr>ps_field_num := ps_field_num st' + 1\<rparr>)))"
proof -
  have "parse_one buffer (length pre) = Inr (t, length pre + length (dec (unat t)) + 1, length v,
      length pre + length (field_bytes (t, v)))"
    using parse_one_layout [OF list_all_digits_dec assms(1), of pre "unat t" post] assms(2)
    by (simp add: field_bytes_def)
  moreover have "length pre < length buffer"
    using assms(2) by (simp add: field_bytes_def)
  ultimately show ?thesis
    by (subst field_loop.simps) (simp add: Let_def split: option.splits)
qed

text \<open>What the loop knows after the fields \<open>fs\<close>.\<close>

definition has_parsed :: "bytes \<Rightarrow> ParseState \<Rightarrow> (u32 \<times> bytes) list \<Rightarrow> bool" where
  "has_parsed buffer st fs \<longleftrightarrow>
     mv_buffer (ps_view st) = buffer \<and> field_pairs (ps_view st) = fs \<and>
     ps_field_num st = length fs \<and> view_ok (ps_view st) \<and> idx_ok (ps_view st)"

lemma has_parsed_count: "has_parsed buffer st fs \<Longrightarrow> field_count (ps_view st) = length fs"
  by (auto simp: has_parsed_def field_pairs_def field_count_def)

lemma add_parsed_simps [simp]:
  "ps_field_num (add_parsed buffer st t vs vl pos) = ps_field_num st"
  "ps_view (add_parsed buffer st t vs vl pos) = add_field (ps_view st) t (of_nat vs) (of_nat vl)"
  "ps_body_start (add_parsed buffer st t vs vl pos) =
     (if ps_field_num st = 1 then pos else ps_body_start st)"
  "ps_stated (add_parsed buffer st t vs vl pos) =
     (if ps_field_num st = 1 then fold_digits 0 (take vl (drop vs buffer)) else ps_stated st)"
  by (simp_all add: add_parsed_def)

lemma field_pairs_add_field:
  assumes "field_count v < MAX_FIELDS" "vs < 2 ^ 32" "vl < 2 ^ 16"
  shows "field_pairs (add_field v t (of_nat vs) (of_nat vl)) =
    field_pairs v @ [(t, take vl (drop vs (mv_buffer v)))]"
  using assms by (simp add: add_field_def field_pairs_def word_norm)

lemma view_ok_add_parsed:
  assumes "view_ok v" "vs + vl \<le> length (mv_buffer v)" "vs < 2 ^ 32" "vl < 2 ^ 16"
  shows "view_ok (add_field v t (of_nat vs) (of_nat vl))"
  using assms by (intro view_ok_add_field) (simp_all add: word_norm)

lemma has_parsed_add:
  assumes "has_parsed buffer st fs" "length fs < MAX_FIELDS"
    and buf: "buffer = pre @ field_bytes (t, v) @ post" "length buffer \<le> 65536"
    and "vs = length pre + length (dec (unat t)) + 1"
  shows "has_parsed buffer
    ((add_parsed buffer st t vs (length v) pos)\<lparr>ps_field_num := ps_field_num st + 1\<rparr>) (fs @ [(t, v)])"
proof -
  have len: "vs < 2 ^ 32" "length v < 2 ^ 16" "vs + length v \<le> length buffer"
    using buf assms(5) by (auto simp: field_bytes_def)
  have "drop vs buffer = v @ SOH # post"
    using buf(1) assms(5) by (simp add: field_bytes_def)
  then have "take (length v) (drop vs buffer) = v" by simp
  then show ?thesis
    using assms(1,2) len has_parsed_count [OF assms(1)]
    by (simp add: has_parsed_def field_pairs_add_field view_ok_add_parsed idx_ok_add_field)
qed

text \<open>The state after a field that is not the checksum.\<close>

definition after_field :: "bytes \<Rightarrow> ParseState \<Rightarrow> nat \<Rightarrow> u32 \<Rightarrow> bytes \<Rightarrow> ParseState" where
  "after_field buffer st p t v =
     (add_parsed buffer st t (p + length (dec (unat t)) + 1) (length v)
        (p + length (field_bytes (t, v))))\<lparr>ps_field_num := ps_field_num st + 1\<rparr>"

lemma after_field_simps [simp]:
  "ps_field_num (after_field buffer st p t v) = ps_field_num st + 1"
  "ps_body_start (after_field buffer st p t v) =
     (if ps_field_num st = 1 then p + length (field_bytes (t, v)) else ps_body_start st)"
  by (simp_all add: after_field_def)

lemma after_field_stated:
  "buffer = pre @ field_bytes (t, v) @ post \<Longrightarrow>
   ps_stated (after_field buffer st (length pre) t v) =
     (if ps_field_num st = 1 then fold_digits 0 v else ps_stated st)"
  by (simp add: after_field_def field_bytes_def)

lemma field_loop_next:
  assumes "SOH \<notin> set v" "t \<noteq> CHECKSUM" "structural_error (ps_field_num st) t = None"
    and "buffer = pre @ field_bytes (t, v) @ post"
  shows "field_loop buffer (length pre) st =
    field_loop buffer (length (pre @ field_bytes (t, v))) (after_field buffer st (length pre) t v)"
  using field_loop_step [OF assms(1,4), of st] assms(2,3) by (simp add: Let_def after_field_def)

lemma has_parsed_after:
  assumes "has_parsed buffer st fs" "length fs < MAX_FIELDS"
    and "buffer = pre @ field_bytes (t, v) @ post" "length buffer \<le> 65536"
  shows "has_parsed buffer (after_field buffer st (length pre) t v) (fs @ [(t, v)])"
  unfolding after_field_def by (rule has_parsed_add [OF assms refl])

section \<open>A run of fields\<close>

text \<open>A body field: not the checksum tag, and no delimiter in the value.\<close>

definition good_field :: "u32 \<times> bytes \<Rightarrow> bool" where
  "good_field f \<longleftrightarrow> fst f \<noteq> CHECKSUM \<and> SOH \<notin> set (snd f)"

lemma field_loop_fields:
  assumes "list_all good_field fs" "has_parsed buffer st fs0" "3 \<le> length fs0"
    and "length fs0 + length fs \<le> MAX_FIELDS"
    and "buffer = pre @ fields_bytes fs @ post" "length buffer \<le> 65536"
  shows "\<exists>st'. field_loop buffer (length pre) st = field_loop buffer (length (pre @ fields_bytes fs)) st' \<and>
    has_parsed buffer st' (fs0 @ fs) \<and> ps_body_start st' = ps_body_start st \<and> ps_stated st' = ps_stated st"
  using assms
proof (induction fs arbitrary: fs0 st pre)
  case Nil
  then show ?case by auto
next
  case (Cons f fs)
  obtain t v where f: "f = (t, v)" by (cases f)
  let ?st = "after_field buffer st (length pre) t v"
  have g: "SOH \<notin> set v" "t \<noteq> CHECKSUM" using Cons.prems(1) f by (simp_all add: good_field_def)
  have buf: "buffer = pre @ field_bytes (t, v) @ (fields_bytes fs @ post)"
    using Cons.prems(5) f by simp
  have n: "ps_field_num st = length fs0" using Cons.prems(2) by (simp add: has_parsed_def)
  then have "structural_error (ps_field_num st) t = None"
    using Cons.prems(3) by (auto simp: structural_error_def)
  note step = field_loop_next [OF g this buf]
  have hp: "has_parsed buffer ?st (fs0 @ [(t, v)])"
    using Cons.prems buf by (intro has_parsed_after) auto
  have "\<exists>st'. field_loop buffer (length (pre @ field_bytes (t, v))) ?st =
      field_loop buffer (length ((pre @ field_bytes (t, v)) @ fields_bytes fs)) st' \<and>
      has_parsed buffer st' ((fs0 @ [(t, v)]) @ fs) \<and>
      ps_body_start st' = ps_body_start ?st \<and> ps_stated st' = ps_stated ?st"
    using Cons.prems buf hp by (intro Cons.IH) auto
  moreover have "ps_body_start ?st = ps_body_start st" "ps_stated ?st = ps_stated st"
    using n Cons.prems(3) after_field_stated [OF buf] by auto
  ultimately show ?case using step f by (simp add: ac_simps)
qed

text \<open>The first three fields, with their structural checks.\<close>

abbreviation "start_state buffer \<equiv>
  \<lparr>ps_view = new_view buffer, ps_field_num = 0, ps_body_start = 0, ps_stated = 0\<rparr>"

lemma has_parsed_start: "has_parsed buffer (start_state buffer) []"
  by (simp add: has_parsed_def view_ok_new idx_ok_new) (simp add: field_pairs_def new_view_def)

lemma field_loop_header:
  assumes "SOH \<notin> set b" "SOH \<notin> set mt" "list_all is_digit n"
    and buffer: "buffer = field_bytes (BEGIN_STRING, b) @ field_bytes (BODY_LENGTH, n) @
       field_bytes (MSG_TYPE, mt) @ post" "length buffer \<le> 65536"
  shows "\<exists>st. field_loop buffer 0 (start_state buffer) =
      field_loop buffer (length (field_bytes (BEGIN_STRING, b) @ field_bytes (BODY_LENGTH, n) @
        field_bytes (MSG_TYPE, mt))) st \<and>
    has_parsed buffer st [(BEGIN_STRING, b), (BODY_LENGTH, n), (MSG_TYPE, mt)] \<and>
    ps_body_start st = length (field_bytes (BEGIN_STRING, b) @ field_bytes (BODY_LENGTH, n)) \<and>
    ps_stated st = fold_digits 0 n"
proof -
  let ?B = "field_bytes (BEGIN_STRING, b)" and ?L = "field_bytes (BODY_LENGTH, n)"
    and ?M = "field_bytes (MSG_TYPE, mt)"
  define s1 where "s1 = after_field buffer (start_state buffer) (length ([] :: bytes)) BEGIN_STRING b"
  define s2 where "s2 = after_field buffer s1 (length ?B) BODY_LENGTH n"
  define s3 where "s3 = after_field buffer s2 (length (?B @ ?L)) MSG_TYPE mt"
  have n: "SOH \<notin> set n" using assms(3) by (auto simp: list_all_iff is_digit_def SOH_def)
  have tags: "BEGIN_STRING \<noteq> CHECKSUM" "BODY_LENGTH \<noteq> CHECKSUM" "MSG_TYPE \<noteq> CHECKSUM"
    by (simp_all add: tag_defs)
  have num: "ps_field_num s1 = 1" "ps_field_num s2 = 2" by (simp_all add: s1_def s2_def)
  have b1: "buffer = [] @ ?B @ (?L @ ?M @ post)" and b2: "buffer = ?B @ ?L @ (?M @ post)"
    and b3: "buffer = (?B @ ?L) @ ?M @ post"
    using buffer by simp_all
  have "field_loop buffer (length ([] :: bytes)) (start_state buffer) = field_loop buffer (length ([] @ ?B)) s1"
    unfolding s1_def by (rule field_loop_next [OF assms(1) tags(1) _ b1]) (simp add: structural_error_def)
  also have "field_loop buffer (length ([] @ ?B)) s1 = field_loop buffer (length (?B @ ?L)) s2"
    unfolding s2_def append_Nil
    by (rule field_loop_next [OF n tags(2) _ b2]) (simp add: structural_error_def num)
  also have "\<dots> = field_loop buffer (length ((?B @ ?L) @ ?M)) s3"
    unfolding s3_def
    by (rule field_loop_next [OF assms(2) tags(3) _ b3]) (simp add: structural_error_def num)
  finally have loop: "field_loop buffer 0 (start_state buffer) = field_loop buffer (length (?B @ ?L @ ?M)) s3"
    by simp
  have "has_parsed buffer s1 ([] @ [(BEGIN_STRING, b)])"
    unfolding s1_def by (rule has_parsed_after [OF has_parsed_start _ b1 buffer(2)]) (simp add: MAX_FIELDS_def)
  then have "has_parsed buffer s2 (([] @ [(BEGIN_STRING, b)]) @ [(BODY_LENGTH, n)])"
    unfolding s2_def by (rule has_parsed_after [OF _ _ b2 buffer(2)]) (simp add: MAX_FIELDS_def)
  then have "has_parsed buffer s3 ((([] @ [(BEGIN_STRING, b)]) @ [(BODY_LENGTH, n)]) @ [(MSG_TYPE, mt)])"
    unfolding s3_def by (rule has_parsed_after [OF _ _ b3 buffer(2)]) (simp add: MAX_FIELDS_def)
  then have h3: "has_parsed buffer s3 [(BEGIN_STRING, b), (BODY_LENGTH, n), (MSG_TYPE, mt)]" by simp
  have "ps_stated s3 = fold_digits 0 n" "ps_body_start s3 = length (?B @ ?L)"
    using after_field_stated [OF b3, of s2] after_field_stated [OF b2, of s1] num
    by (simp_all add: s2_def s3_def)
  with loop h3 show ?thesis by (intro exI [of _ s3]) simp
qed

section \<open>The trailer\<close>

lemma digit_byte: "x < 10 \<Longrightarrow> is_digit (ch_0 + x)"
  by (simp add: is_digit_def word_less_nat_alt unat_word_ariths)

lemma format_digits: "list_all is_digit (format c)"
proof -
  have "unat c < 256" using unsigned_less [of c] by simp
  then have "c div 100 < 10" "(c div 10) mod 10 < 10" "c mod 10 < 10"
    by (simp_all add: word_less_nat_alt unat_div unat_mod)
  then show ?thesis by (simp add: format_def digit_byte)
qed

lemma digits_no_soh: "list_all is_digit ds \<Longrightarrow> SOH \<notin> set ds"
  by (auto simp: list_all_iff is_digit_def SOH_def)

lemma trailer_field: "trailer c = field_bytes (CHECKSUM, format c)"
  by (simp add: trailer_def field_bytes_def CHECKSUM_def EQUALS_def SOH_def format_def
      dec_step dec_small digit_def)

lemma field_loop_trailer:
  assumes "has_parsed buffer st fs" "3 \<le> length fs" "length fs < MAX_FIELDS"
    and buf: "buffer = pre @ trailer c @ post" "length buffer \<le> 65536"
  shows "\<exists>st'. field_loop buffer (length pre) st = Inr (length pre + 7, st') \<and>
    field_pairs (ps_view st') = fs @ [(CHECKSUM, format c)] \<and> view_ok (ps_view st') \<and>
    idx_ok (ps_view st') \<and> mv_buffer (ps_view st') = buffer \<and>
    ps_body_start st' = ps_body_start st \<and> ps_stated st' = ps_stated st"
proof -
  let ?f = "field_bytes (CHECKSUM, format c)"
  have b: "buffer = pre @ ?f @ post" using buf(1) by (simp add: trailer_field)
  have len: "length ?f = 7" using length_trailer [of c] by (simp add: trailer_field)
  have n: "ps_field_num st = length fs" using assms(1) by (simp add: has_parsed_def)
  then have "structural_error (ps_field_num st) CHECKSUM = None"
    using assms(2) by (auto simp: structural_error_def)
  then have "field_loop buffer (length pre) st = Inr (length pre + 7,
      add_parsed buffer st CHECKSUM (length pre + length (dec (unat CHECKSUM)) + 1) (length (format c))
        (length pre + 7))"
    using field_loop_step [OF digits_no_soh [OF format_digits] b, of st] len by (simp add: Let_def)
  moreover note has_parsed_add [OF assms(1,3) b buf(2) refl, of "length pre + 7"]
  ultimately show ?thesis using n assms(2) by (auto simp: has_parsed_def)
qed

lemma wire_pre_soh: "\<exists>pre. wire_pre b fs = pre @ [SOH]"
proof -
  have "\<exists>pre. field_bytes f @ fields_bytes fs = pre @ [SOH]" for f
  proof (induction fs arbitrary: f)
    case Nil
    then show ?case by (simp add: field_bytes_def)
  next
    case (Cons g fs)
    from Cons [of g] obtain pre where "field_bytes g @ fields_bytes fs = pre @ [SOH]" by blast
    then show ?case by (intro exI [of _ "field_bytes f @ pre"]) simp
  qed
  from this [of "(BODY_LENGTH, padded 6 (length (fields_bytes fs)))"]
  obtain pre where "field_bytes (BODY_LENGTH, padded 6 (length (fields_bytes fs))) @ fields_bytes fs =
      pre @ [SOH]" by blast
  then show ?thesis by (simp add: wire_pre_def)
qed

text \<open>A text with its trailer: the backward searches find the trailer, and the checksum agrees.\<close>

lemma trailer_bytes:
  obtains d1 d2 d3 where "trailer c = [49, 48, 61, d1, d2, d3, SOH]" "stated_checksum d1 d2 d3 = c"
proof -
  obtain d1 d2 d3 where f: "format c = [d1, d2, d3]" by (simp add: format_def)
  then have "stated_checksum d1 d2 d3 = c" by (rule stated_checksum_format)
  moreover have "trailer c = [49, 48, 61, d1, d2, d3, SOH]"
    using f by (simp add: trailer_def format_def)
  ultimately show ?thesis by (rule that [rotated])
qed

lemma validate_wire: "validate (wire b fs)"
proof -
  obtain pre where pre: "wire_pre b fs = pre @ [SOH]" using wire_pre_soh by blast
  obtain d1 d2 d3 where "trailer (sum_list (wire_pre b fs)) = [49, 48, 61, d1, d2, d3, SOH]"
    "stated_checksum d1 d2 d3 = sum_list (wire_pre b fs)" by (rule trailer_bytes)
  then show ?thesis using validate_trailer [of pre d1 d2 d3 SOH] pre by (simp add: wire_def)
qed

lemma checksum_start_wire:
  "find_checksum_tag_start (wire b fs @ rest) (length (wire b fs)) = length (wire_pre b fs)"
proof -
  obtain pre where pre: "wire_pre b fs = pre @ [SOH]" using wire_pre_soh by blast
  obtain d1 d2 d3 where t: "trailer (sum_list (wire_pre b fs)) = [49, 48, 61, d1, d2, d3, SOH]"
    by (rule trailer_bytes)
  have "length (wire b fs) - 4 = 4 + length pre" "7 \<le> length (wire b fs)"
    using pre by (simp_all add: wire_def)
  moreover have "wire b fs @ rest = pre @ SOH # 49 # 48 # 61 # (d1 # d2 # d3 # SOH # rest)"
    using pre t by (simp add: wire_def)
  ultimately have "rfind_trailer (wire b fs @ rest) (length (wire b fs) - 4) = Some (length pre)"
    by (simp only: rfind_trailer_end)
  then show ?thesis using pre \<open>7 \<le> length (wire b fs)\<close>
    by (simp add: find_checksum_tag_start_def del: rfind_trailer.simps)
qed

section \<open>Serialize, then parse\<close>

text \<open>
  The parser reads the text of a message back: the fields in order, the checksum field last, and
  the length of the text as the number of bytes consumed, whatever follows in the buffer and
  whichever checks are switched on.
\<close>

definition parsed_fields :: "bytes \<Rightarrow> (u32 \<times> bytes) list \<Rightarrow> (u32 \<times> bytes) list" where
  "parsed_fields b fs =
     (BEGIN_STRING, b) # (BODY_LENGTH, padded 6 (length (fields_bytes fs))) # fs @
       [(CHECKSUM, format (sum_list (wire_pre b fs)))]"

lemma length_wire: "length (wire b fs) = length (wire_pre b fs) + 7"
  by (simp add: wire_def)

lemma length_field_bytes: "3 \<le> length (field_bytes f)"
  using dec_nonempty [of "unat (fst f)"] by (cases "dec (unat (fst f))") (simp_all add: field_bytes_def)

lemma length_wire_ge: "22 \<le> length (wire b (f # fs))"
proof -
  have "9 \<le> length (field_bytes (BODY_LENGTH, padded 6 n))" for n
    using dec_nonempty [of "unat BODY_LENGTH"]
    by (cases "dec (unat BODY_LENGTH)") (simp_all add: field_bytes_def)
  from this [of "length (fields_bytes (f # fs))"] length_field_bytes [of f]
    length_field_bytes [of "(BEGIN_STRING, b)"]
  show ?thesis by (simp add: length_wire wire_pre_def)
qed

lemma of_nat_eq_padded: "n < 1000000 \<Longrightarrow> fold_digits 0 (padded 6 n) = (of_nat n :: u64)"
  by (simp add: fold_digits_padded)

lemma checksum_flag: "mv_checksum_valid (set_checksum_valid v c) = c"
  by (simp add: set_checksum_valid_def)

lemma parse_wire_helper:
  assumes "SOH \<notin> set b" "SOH \<notin> set mt" "list_all good_field fs" "length fs + 4 \<le> MAX_FIELDS"
    and size: "length (wire b ((MSG_TYPE, mt) # fs) @ rest) \<le> fp_max_message_size p"
      "fp_max_message_size p \<le> 65536"
  shows "\<exists>v. parse p (wire b ((MSG_TYPE, mt) # fs) @ rest) = Inr (v, length (wire b ((MSG_TYPE, mt) # fs))) \<and>
    field_pairs v = parsed_fields b ((MSG_TYPE, mt) # fs) \<and> view_ok v \<and> idx_ok v \<and> mv_checksum_valid v \<and>
    mv_buffer v = wire b ((MSG_TYPE, mt) # fs) @ rest"
proof -
  let ?fs = "(MSG_TYPE, mt) # fs" and ?B = "field_bytes (BEGIN_STRING, b)"
    and ?L = "field_bytes (BODY_LENGTH, padded 6 (length (fields_bytes ((MSG_TYPE, mt) # fs))))"
    and ?M = "field_bytes (MSG_TYPE, mt)"
  let ?t = "trailer (sum_list (wire_pre b ?fs))"
  define buffer where "buffer = wire b ?fs @ rest"
  have len: "length buffer \<le> 65536" "length buffer \<le> fp_max_message_size p"
    using size by (simp_all add: buffer_def)
  have b1: "buffer = ?B @ ?L @ ?M @ (fields_bytes fs @ ?t @ rest)"
    by (simp add: buffer_def wire_def wire_pre_def)
  have b2: "buffer = (?B @ ?L @ ?M) @ fields_bytes fs @ (?t @ rest)" and
    b3: "buffer = ((?B @ ?L @ ?M) @ fields_bytes fs) @ ?t @ rest"
    using b1 by simp_all
  have pre: "wire_pre b ?fs = (?B @ ?L @ ?M) @ fields_bytes fs" by (simp add: wire_pre_def)
  obtain s1 where s1: "field_loop buffer 0 (start_state buffer) = field_loop buffer (length (?B @ ?L @ ?M)) s1"
    "has_parsed buffer s1 [(BEGIN_STRING, b), (BODY_LENGTH, padded 6 (length (fields_bytes ?fs))), (MSG_TYPE, mt)]"
    "ps_body_start s1 = length (?B @ ?L)" "ps_stated s1 = fold_digits 0 (padded 6 (length (fields_bytes ?fs)))"
    using field_loop_header [OF assms(1,2) padded_digits b1 len(1)] by blast
  obtain s2 where s2: "field_loop buffer (length (?B @ ?L @ ?M)) s1 =
      field_loop buffer (length ((?B @ ?L @ ?M) @ fields_bytes fs)) s2"
    "has_parsed buffer s2 ([(BEGIN_STRING, b), (BODY_LENGTH, padded 6 (length (fields_bytes ?fs))), (MSG_TYPE, mt)] @ fs)"
    "ps_body_start s2 = ps_body_start s1" "ps_stated s2 = ps_stated s1"
    using field_loop_fields [OF assms(3) s1(2) _ _ b2 len(1)] assms(4) by fastforce
  obtain s3 where s3: "field_loop buffer (length ((?B @ ?L @ ?M) @ fields_bytes fs)) s2 =
      Inr (length ((?B @ ?L @ ?M) @ fields_bytes fs) + 7, s3)"
    "field_pairs (ps_view s3) = parsed_fields b ?fs"
    "view_ok (ps_view s3)" "idx_ok (ps_view s3)" "mv_buffer (ps_view s3) = buffer"
    "ps_body_start s3 = ps_body_start s2" "ps_stated s3 = ps_stated s2"
    using field_loop_trailer [OF s2(2) _ _ b3 len(1)] assms(4) by (auto simp: parsed_fields_def)
  have loop: "field_loop buffer 0 (start_state buffer) = Inr (length (wire b ?fs), s3)"
    using s1(1) s2(1) s3(1) by (simp add: length_wire pre)
  have "length (fields_bytes ?fs) < 1000000" using len b1 by simp
  then have "ps_stated s3 = of_nat (length (fields_bytes ?fs))"
    using s3 s2 s1 of_nat_eq_padded by simp
  moreover have "find_checksum_tag_start buffer (length (wire b ?fs)) = length (?B @ ?L) + length (fields_bytes ?fs)"
    unfolding buffer_def checksum_start_wire by (simp add: wire_pre_def)
  ultimately have bl: "\<not> body_length_error p buffer (length (wire b ?fs)) s3"
    using s3 s2 s1 by (simp add: body_length_error_def Let_def)
  have "20 \<le> length buffer" using length_wire_ge [of b "(MSG_TYPE, mt)" fs] by (simp add: buffer_def)
  moreover have "validate (take (length (wire b ?fs)) buffer)"
    using validate_wire by (simp add: buffer_def)
  ultimately have "parse p buffer = Inr (set_checksum_valid (ps_view s3) True, length (wire b ?fs))"
    using loop bl len(2) by (simp add: parse_def Let_def not_less)
  then show ?thesis using s3 unfolding buffer_def
    by (intro exI [of _ "set_checksum_valid (ps_view s3) True"]) (simp add: checksum_flag)
qed

section \<open>Framing\<close>

text \<open>
  The framer stops at the first SOH that is followed by \<open>10=\<close> and has another SOH seven places
  on. In the text of a message that is the trailer: a body field cannot start with \<open>10=\<close>, because
  the tag's numeral would be 10.
\<close>

lemma dec_ten:
  assumes "take 3 (dec n @ EQUALS # xs) = [49, 48, 61]" shows "n = 10"
proof -
  have nd: "EQUALS \<notin> set (dec n)" using dec_digits [of EQUALS n] by (auto simp: is_digit_def EQUALS_def)
  obtain d ds where d: "dec n = d # ds" by (cases "dec n") simp_all
  have "take 2 (ds @ EQUALS # xs) = [48, 61]" "d = 49" using assms d by (simp_all add: eval_nat_numeral)
  moreover from this have "ds \<noteq> []" by (auto simp: EQUALS_def take_Cons')
  ultimately have "dec n = [49, 48]"
    using d nd by (cases ds; cases "tl ds") (auto simp: EQUALS_def take_Cons')
  also have "\<dots> = dec 10" by (simp add: dec_step dec_small digit_def)
  finally show ?thesis by simp
qed

text \<open>A boundary inside a run of SOH-terminated fields would be the start of a field.\<close>

lemma boundary_free_prefix:
  assumes "SOH \<notin> set xs" "i < length xs"
  shows "\<not> boundary_at (xs @ ys) i"
proof -
  have "xs ! i \<noteq> SOH" using assms by (metis nth_mem)
  then show ?thesis using assms(2) by (simp add: boundary_at_def nth_append)
qed

lemma boundary_at_drop: "boundary_at (pre @ ys) (length pre + i) = boundary_at ys i"
  by (simp add: boundary_at_def nth_append add.assoc)

lemma not_boundary_field:
  assumes "SOH \<notin> set v" "i < length (dec (unat t) @ EQUALS # v)"
  shows "\<not> boundary_at (field_bytes (t, v) @ ys) i"
proof -
  have "SOH \<notin> set (dec (unat t) @ EQUALS # v)"
    using assms(1) digits_no_soh [OF list_all_digits_dec, of "unat t"] by (auto simp: EQUALS_def SOH_def)
  from boundary_free_prefix [OF this assms(2), of "SOH # ys"] show ?thesis
    by (simp add: field_bytes_def)
qed

lemma not_boundary_sep:
  assumes "t \<noteq> CHECKSUM"
  shows "\<not> boundary_at (SOH # field_bytes (t, v) @ ys) 0"
proof
  assume "boundary_at (SOH # field_bytes (t, v) @ ys) 0"
  then have b: "(field_bytes (t, v) @ ys) ! 0 = 49" "(field_bytes (t, v) @ ys) ! 1 = 48"
    "(field_bytes (t, v) @ ys) ! 2 = 61"
    by (simp_all add: boundary_at_def eval_nat_numeral)
  have "3 \<le> length (field_bytes (t, v) @ ys)" using length_field_bytes [of "(t, v)"] by simp
  then obtain x y z zs where "field_bytes (t, v) @ ys = x # y # z # zs"
    by (metis Suc_le_length_iff numeral_3_eq_3)
  with b have "take 3 (field_bytes (t, v) @ ys) = [49, 48, 61]" by (simp add: eval_nat_numeral)
  then have "unat t = 10" by (intro dec_ten [of _ "v @ SOH # ys"]) (simp add: field_bytes_def)
  then have "t = 10" by (simp add: word_unat_eq_iff)
  with assms show False by (simp add: CHECKSUM_def)
qed

lemma no_boundary_fields:
  "list_all good_field fs \<Longrightarrow> Suc i < length (fields_bytes fs) \<Longrightarrow> \<not> boundary_at (fields_bytes fs @ ys) i"
proof (induction fs arbitrary: i)
  case Nil
  then show ?case by simp
next
  case (Cons f fs)
  obtain t v where f: "f = (t, v)" by (cases f)
  let ?x = "dec (unat t) @ EQUALS # v"
  have fb: "field_bytes f = ?x @ [SOH]" by (simp add: f field_bytes_def)
  have v: "SOH \<notin> set v" using Cons.prems(1) f by (simp add: good_field_def)
  have len: "length (field_bytes f) = length ?x + 1" by (simp only: fb) simp
  consider "i < length ?x" | "i = length ?x" | "length (field_bytes f) \<le> i" using len by linarith
  then show ?case
  proof cases
    case 1
    then show ?thesis using not_boundary_field [OF v] f by simp
  next
    case 2
    then obtain g gs where fs: "fs = g # gs" using Cons.prems(2) fb by (cases fs) auto
    then have "\<not> boundary_at (SOH # field_bytes g @ fields_bytes gs @ ys) 0"
      using Cons.prems(1) not_boundary_sep [of "fst g" "snd g"] by (simp add: good_field_def)
    then show ?thesis using 2 boundary_at_drop [of ?x "SOH # field_bytes g @ fields_bytes gs @ ys" 0] fb fs
      by simp
  next
    case 3
    let ?j = "i - length (field_bytes f)"
    have "\<not> boundary_at (fields_bytes fs @ ys) ?j"
      using 3 Cons.prems by (intro Cons.IH) auto
    then show ?thesis using 3 boundary_at_drop [of "field_bytes f" "fields_bytes fs @ ys" ?j] by simp
  qed
qed

lemma find_boundary_wire:
  assumes "SOH \<notin> set b" "list_all good_field fs"
  shows "find_message_boundary (wire b fs @ rest) = Some (length (wire b fs))"
proof -
  let ?pad = "padded 6 (length (fields_bytes fs))"
  let ?fs = "(BEGIN_STRING, b) # (BODY_LENGTH, ?pad) # fs"
  let ?buf = "wire b fs @ rest" and ?t = "trailer (sum_list (wire_pre b fs)) @ rest"
  have w: "wire_pre b fs = fields_bytes ?fs" by (simp add: wire_pre_def)
  have good: "list_all good_field ?fs"
    using assms digits_no_soh [OF padded_digits] by (simp add: good_field_def tag_defs)
  obtain pre where pre: "wire_pre b fs = pre @ [SOH]" using wire_pre_soh by blast
  obtain d1 d2 d3 where t: "trailer (sum_list (wire_pre b fs)) = [49, 48, 61, d1, d2, d3, SOH]"
    by (rule trailer_bytes)
  have buf: "?buf = pre @ SOH # 49 # 48 # 61 # d1 # d2 # d3 # SOH # rest"
    using pre t by (simp add: wire_def)
  have at: "boundary_at ?buf (length pre)"
    using boundary_at_drop [of pre "SOH # 49 # 48 # 61 # d1 # d2 # d3 # SOH # rest" 0] buf
    by (simp add: boundary_at_def)
  have "?buf = fields_bytes ?fs @ ?t" by (simp only: wire_def w append_assoc)
  moreover have "length (fields_bytes ?fs) = length pre + 1" using pre w by simp
  ultimately have no: "\<not> boundary_at ?buf i" if "i < length pre" for i
    using no_boundary_fields [OF good, of i ?t] that by simp
  have len: "length ?buf = length pre + 8 + length rest" using buf by simp
  have "boundary_loop ?buf 0 = Some (length pre + 8)"
  proof (cases "boundary_loop ?buf 0")
    case None
    from boundary_loop_None [OF this, of "length pre"] at len show ?thesis by simp
  next
    case (Some x)
    note x = boundary_loop_Some [OF Some]
    then have "\<not> x - 8 < length pre" "\<not> length pre < x - 8" using no at by auto
    then show ?thesis using Some x by auto
  qed
  then show ?thesis using len pre by (simp add: find_message_boundary_def length_wire)
qed

section \<open>What the parser accepts\<close>

text \<open>A raw field is its tag digits (leading zeros and the empty numeral included) and its value.\<close>

type_synonym raw_field = "bytes \<times> bytes"

definition raw_bytes :: "raw_field \<Rightarrow> bytes" where
  "raw_bytes r = fst r @ EQUALS # snd r @ [SOH]"

definition raw_tag :: "raw_field \<Rightarrow> u32" where
  "raw_tag r = fold_digits 0 (fst r)"

definition raw_pair :: "raw_field \<Rightarrow> u32 \<times> bytes" where
  "raw_pair r = (raw_tag r, snd r)"

text \<open>
  The texts the field loop accepts: digits before the first \<open>=\<close>, no delimiter in a value, the
  header fields in order, nothing after a checksum field.
\<close>

fun text_ok :: "nat \<Rightarrow> raw_field list \<Rightarrow> bool" where
  "text_ok k [] = True"
| "text_ok k (r # rs) \<longleftrightarrow>
     list_all is_digit (fst r) \<and> SOH \<notin> set (snd r) \<and>
     (k < 3 \<longrightarrow> raw_tag r = [BEGIN_STRING, BODY_LENGTH, MSG_TYPE] ! k) \<and>
     (raw_tag r = CHECKSUM \<longrightarrow> rs = []) \<and> text_ok (k + 1) rs"

lemma structural_None:
  "structural_error k t = None \<longleftrightarrow> (k < 3 \<longrightarrow> t = [BEGIN_STRING, BODY_LENGTH, MSG_TYPE] ! k)"
proof -
  consider "k = 0" | "k = 1" | "k = 2" | "\<not> k < 3" by linarith
  then show ?thesis by cases (simp_all add: structural_error_def)
qed

text \<open>
  A delimiter inside a run of fields ends a field: what follows it is the text of the remaining
  fields. So the trailer that the checksum routine finds behind a delimiter is a field with the
  tag digits \<open>10\<close>.
\<close>

lemma soh_ends_field:
  assumes "\<forall>r \<in> set rs. list_all is_digit (fst r) \<and> SOH \<notin> set (snd r)"
    and "i < length (concat (map raw_bytes rs))" "concat (map raw_bytes rs) ! i = SOH"
  shows "\<exists>rs1 rs2. rs = rs1 @ rs2 \<and> drop (Suc i) (concat (map raw_bytes rs)) = concat (map raw_bytes rs2)"
  using assms
proof (induction rs arbitrary: i)
  case Nil
  then show ?case by simp
next
  case (Cons r rs)
  let ?x = "fst r @ EQUALS # snd r"
  have rb: "raw_bytes r = ?x @ [SOH]" by (simp add: raw_bytes_def)
  have no: "SOH \<notin> set ?x"
    using Cons.prems(1) digits_no_soh [of "fst r"] by (auto simp: EQUALS_def SOH_def)
  consider "i < length ?x" | "i = length ?x" | "Suc (length ?x) \<le> i" by linarith
  then show ?case
  proof cases
    case 1
    have "concat (map raw_bytes (r # rs)) = ?x @ SOH # concat (map raw_bytes rs)" by (simp add: rb)
    then have "concat (map raw_bytes (r # rs)) ! i = ?x ! i" using 1 by (simp only: nth_append if_True)
    with 1 no Cons.prems(3) show ?thesis by (metis nth_mem)
  next
    case 2
    then show ?thesis by (intro exI [of _ "[r]"] exI [of _ rs]) (simp add: rb)
  next
    case 3
    then obtain j where j: "i = length (raw_bytes r) + j" unfolding rb by (auto simp: le_iff_add)
    obtain rs1 rs2 where "rs = rs1 @ rs2"
      "drop (Suc j) (concat (map raw_bytes rs)) = concat (map raw_bytes rs2)"
      using Cons.IH [of j] Cons.prems j by auto
    then show ?thesis using j by (intro exI [of _ "r # rs1"] exI [of _ rs2]) simp
  qed
qed

lemma rfind_trailer_Some:
  "rfind_trailer msg k = Some i \<Longrightarrow>
   i < k \<and> msg ! i = SOH \<and> msg ! (i + 1) = 49 \<and> msg ! (i + 2) = 48 \<and> msg ! (i + 3) = 61"
  by (induction k) (auto split: if_splits intro: less_SucI)

lemma raw_starts_10:
  assumes "list_all is_digit (fst r)" "take 3 (concat (map raw_bytes (r # rs))) = [49, 48, 61]"
  shows "fst r = asc ''10''"
proof -
  have nd: "EQUALS \<notin> set (fst r)" using assms(1) by (auto simp: list_all_iff is_digit_def EQUALS_def)
  consider "fst r = []" | d where "fst r = [d]" | d e where "fst r = [d, e]"
    | d e f ds where "fst r = d # e # f # ds"
    by (metis list.exhaust)
  then show ?thesis using assms(2) nd
    by cases (auto simp: raw_bytes_def EQUALS_def asc_def numeral_3_eq_3)
qed

lemma take_3_nth: "j + 3 \<le> length m \<Longrightarrow> m ! j = a \<Longrightarrow> m ! (j + 1) = b \<Longrightarrow> m ! (j + 2) = c \<Longrightarrow>
    take 3 (drop j m) = [a, b, c]"
  by (simp add: numeral_3_eq_3 take_Suc_conv_app_nth)

lemma validate_position:
  assumes "validate m"
  obtains "take 3 m = [49, 48, 61]"
  | i where "i < length m" "m ! i = SOH" "take 3 (drop (Suc i) m) = [49, 48, 61]"
proof -
  have len: "7 \<le> length m" using assms by (auto simp: validate_def Let_def split: if_splits)
  show ?thesis
  proof (cases "rfind_trailer m (length m - 4)")
    case None
    then have "m ! 0 = 49" "m ! 1 = 48" "m ! 2 = 61"
      using assms len by (auto simp: validate_def Let_def split: if_splits)
    then have "take 3 (drop 0 m) = [49, 48, 61]" using len by (intro take_3_nth) (simp_all add: numeral_2_eq_2)
    then show ?thesis by (intro that(1)) simp
  next
    case (Some i)
    note f = rfind_trailer_Some [OF Some]
    with len have "i + 4 < length m" by arith
    then show ?thesis using f by (intro that(2) [of i] take_3_nth) (simp_all add: eval_nat_numeral)
  qed
qed

lemma validate_has_trailer:
  assumes "validate (concat (map raw_bytes rs))"
    and digits: "\<forall>r \<in> set rs. list_all is_digit (fst r) \<and> SOH \<notin> set (snd r)"
  shows "\<exists>r \<in> set rs. fst r = asc ''10''"
proof -
  have "\<exists>rs1 rs2. rs = rs1 @ rs2 \<and> take 3 (concat (map raw_bytes rs2)) = [49, 48, 61]"
    using assms(1)
  proof (cases rule: validate_position)
    case 1
    then show ?thesis by (intro exI [of _ "[]"] exI [of _ rs]) simp
  next
    case (2 i)
    then show ?thesis using soh_ends_field [OF digits, of i] by (metis (no_types))
  qed
  then obtain rs1 rs2 where rs: "rs = rs1 @ rs2" "take 3 (concat (map raw_bytes rs2)) = [49, 48, 61]"
    by blast
  then obtain r rs' where "rs2 = r # rs'" by (cases rs2) simp_all
  then show ?thesis using rs digits raw_starts_10 [of r rs'] by auto
qed

text \<open>
  With a verified checksum the accepted text therefore has all three header fields and ends with
  a field that is written \<open>10=\<close>.
\<close>

lemma text_ok_set: "text_ok k rs \<Longrightarrow> \<forall>r \<in> set rs. list_all is_digit (fst r) \<and> SOH \<notin> set (snd r)"
  by (induction rs arbitrary: k) auto

lemma text_ok_checksum_last:
  "text_ok k rs \<Longrightarrow> r \<in> set rs \<Longrightarrow> raw_tag r = CHECKSUM \<Longrightarrow> \<exists>ys. rs = ys @ [r] \<and> 3 \<le> k + length ys"
proof (induction rs arbitrary: k)
  case Nil
  then show ?case by simp
next
  case (Cons x rs)
  show ?case
  proof (cases "raw_tag x = CHECKSUM")
    case True
    consider "k = 0" | "k = 1" | "k = 2" | "3 \<le> k" by linarith
    then have "3 \<le> k" using Cons.prems(1) True by cases (simp_all add: tag_defs)
    then show ?thesis using Cons.prems True by (intro exI [of _ "[]"]) auto
  next
    case False
    then have "r \<in> set rs" using Cons.prems by auto
    then obtain ys where "rs = ys @ [r]" "3 \<le> k + 1 + length ys" using Cons by fastforce
    then show ?thesis by (intro exI [of _ "x # ys"]) simp
  qed
qed

lemma checked_layout:
  assumes "validate (concat (map raw_bytes rs))" "text_ok 0 rs"
  shows "\<exists>r0 r1 r2 body c. rs = r0 # r1 # r2 # body @ [(asc ''10'', c)]"
proof -
  obtain r where r: "r \<in> set rs" "fst r = asc ''10''"
    using validate_has_trailer [OF assms(1) text_ok_set [OF assms(2)]] by blast
  then have "raw_tag r = CHECKSUM" by (simp add: raw_tag_def asc_def CHECKSUM_def)
  then obtain ys where "rs = ys @ [r]" "3 \<le> length ys" using text_ok_checksum_last [OF assms(2) r(1)] by auto
  moreover from this obtain r0 r1 r2 body where "ys = r0 # r1 # r2 # body"
    by (metis Suc_le_length_iff numeral_3_eq_3)
  ultimately show ?thesis using r(2) by (metis append_Cons prod.collapse)
qed

text \<open>The position after the second field and its value as a number, as the loop records them.\<close>

fun body_info :: "nat \<Rightarrow> nat \<Rightarrow> nat \<times> u64 \<Rightarrow> raw_field list \<Rightarrow> nat \<times> u64" where
  "body_info k pos info [] = info"
| "body_info k pos info (r # rs) =
     (let pos' = pos + length (raw_bytes r) in
      body_info (k + 1) pos' (if k = 1 then (pos', fold_digits 0 (snd r)) else info) rs)"

lemma body_info_later: "2 \<le> k \<Longrightarrow> body_info k pos info rs = info"
  by (induction rs arbitrary: k pos) auto

definition accepts :: "bytes \<Rightarrow> nat \<Rightarrow> ParseState \<Rightarrow> nat \<Rightarrow> ParseState \<Rightarrow> raw_field list \<Rightarrow> bool" where
  "accepts buffer pos st n st' rs \<longleftrightarrow>
     pos \<le> n \<and> n \<le> length buffer \<and> take (n - pos) (drop pos buffer) = concat (map raw_bytes rs) \<and>
     text_ok (ps_field_num st) rs \<and>
     (ps_body_start st', ps_stated st') =
       body_info (ps_field_num st) pos (ps_body_start st, ps_stated st) rs \<and> view_ok (ps_view st') \<and> mv_buffer (ps_view st') = buffer \<and>
     field_pairs (ps_view st') = take MAX_FIELDS (field_pairs (ps_view st) @ map raw_pair rs) \<and>
     (n < length buffer \<longrightarrow> rs \<noteq> [] \<and> raw_tag (last rs) = CHECKSUM)"

lemma field_pairs_length [simp]: "length (field_pairs v) = field_count v"
  by (simp add: field_pairs_def field_count_def)

lemma field_pairs_add_any:
  assumes "view_ok v" "vs < 2 ^ 32" "vl < 2 ^ 16" "take vl (drop vs (mv_buffer v)) = x"
  shows "field_pairs (add_field v t (of_nat vs) (of_nat vl)) = take MAX_FIELDS (field_pairs v @ [(t, x)])"
proof (cases "field_count v < MAX_FIELDS")
  case True
  then show ?thesis using assms by (simp add: field_pairs_add_field)
next
  case False
  then show ?thesis using assms(1) by (simp add: add_field_def view_ok_def)
qed

lemma take_take_append: "take n (take n xs @ ys) = take n (xs @ ys)"
  by (cases "length xs \<le> n") simp_all

lemma field_loop_sound:
  "field_loop buffer pos st = Inr (n, st') \<Longrightarrow> pos \<le> length buffer \<Longrightarrow> length buffer \<le> 65536 \<Longrightarrow>
   view_ok (ps_view st) \<Longrightarrow> mv_buffer (ps_view st) = buffer \<Longrightarrow>
   \<exists>rs. accepts buffer pos st n st' rs"
proof (induction buffer pos st rule: field_loop.induct)
  case (1 buffer pos st)
  show ?case
  proof (cases "pos < length buffer")
    case False
    then show ?thesis using "1.prems"
      by (intro exI [of _ "[]"]) (auto simp: accepts_def field_loop.simps view_ok_def)
  next
    case True
    then obtain tag vs vl pos' where p: "parse_one buffer pos = Inr (tag, vs, vl, pos')"
      using "1.prems"(1) by (auto simp: field_loop.simps [of buffer pos] split: sum.splits)
    then have se: "structural_error (ps_field_num st) tag = None"
      using "1.prems"(1) True by (auto simp: field_loop.simps [of buffer pos] split: option.splits)
    obtain t v where tv: "list_all is_digit t" "SOH \<notin> set v" "tag = fold_digits 0 t"
      "vs = pos + length t + 1" "vl = length v" "pos' = pos + length t + length v + 2"
      "take (pos' - pos) (drop pos buffer) = t @ EQUALS # v @ [SOH]" "pos' \<le> length buffer"
      using p "1.prems"(2) by (rule parse_one_sound)
    note hd = se [unfolded structural_None]
    let ?st = "add_parsed buffer st tag vs vl pos'"
    let ?st2 = "?st\<lparr>ps_field_num := ps_field_num ?st + 1\<rparr>"
    have sz: "vs < 2 ^ 32" "vl < 2 ^ 16" "vs + vl \<le> length buffer" using tv "1.prems"(3) by auto
    have "drop pos buffer = (t @ EQUALS # v @ [SOH]) @ drop (pos' - pos) (drop pos buffer)"
      using tv(7) append_take_drop_id by metis
    moreover have "drop vs buffer = drop (length t + 1) (drop pos buffer)" using tv(4) by (simp add: ac_simps)
    ultimately have "drop vs buffer = v @ SOH # drop (pos' - pos) (drop pos buffer)"
      by (metis (no_types) append_Cons append_Nil append_assoc append_eq_conv_conj length_append_singleton
          Suc_eq_plus1)
    then have val: "take vl (drop vs buffer) = v" using tv(5) by simp
    have ok: "view_ok (ps_view ?st)" "mv_buffer (ps_view ?st) = buffer"
      "field_pairs (ps_view ?st) = take MAX_FIELDS (field_pairs (ps_view st) @ [raw_pair (t, v)])"
      using "1.prems" sz val tv(3)
      by (simp_all add: view_ok_add_parsed field_pairs_add_any raw_pair_def raw_tag_def)
    have info: "(ps_body_start ?st, ps_stated ?st) =
        (if ps_field_num st = 1 then (pos + length (raw_bytes (t, v)), fold_digits 0 (snd (t, v)))
         else (ps_body_start st, ps_stated st))"
      using tv(6) val by (simp add: raw_bytes_def)
    have p': "pos' = pos + length (raw_bytes (t, v))" using tv(6) by (simp add: raw_bytes_def)
    show ?thesis
    proof (cases "tag = CHECKSUM")
      case last: True
      then have "n = pos'" "st' = ?st"
        using "1.prems"(1) True p se by (auto simp: field_loop.simps [of buffer pos])
      moreover have "(ps_body_start ?st, ps_stated ?st) =
          body_info (ps_field_num st) pos (ps_body_start st, ps_stated st) [(t, v)]"
        using info by simp
      ultimately show ?thesis using tv(1-3,6-8) ok hd last
        by (intro exI [of _ "[(t, v)]"])
          (simp add: accepts_def raw_bytes_def raw_tag_def raw_pair_def del: add_parsed_simps)
    next
      case False
      then have "field_loop buffer pos' ?st2 = Inr (n, st')"
        using "1.prems"(1) True p se by (simp add: field_loop.simps [of buffer pos] Let_def)
      then obtain rs where rs: "accepts buffer pos' ?st2 n st' rs"
        using "1.IH" [OF True p refl refl refl se refl False] tv(8) "1.prems"(3) ok by auto
      have le: "pos \<le> pos'" "pos' \<le> n" using rs tv(6) by (simp_all add: accepts_def)
      then have "n - pos = (pos' - pos) + (n - pos')" by arith
      then have "take (n - pos) (drop pos buffer) =
          take (pos' - pos) (drop pos buffer) @ take (n - pos') (drop pos' buffer)"
        using le by (simp only: take_add drop_drop) simp
      moreover have "field_pairs (ps_view st') =
          take MAX_FIELDS (field_pairs (ps_view st) @ map raw_pair ((t, v) # rs))"
        using rs ok(3) take_take_append [of MAX_FIELDS "field_pairs (ps_view st) @ [raw_pair (t, v)]"]
        by (simp add: accepts_def del: take_append)
      moreover have "(ps_body_start st', ps_stated st') =
          body_info (ps_field_num st) pos (ps_body_start st, ps_stated st) ((t, v) # rs)"
      proof -
        have "(ps_body_start st', ps_stated st') =
            body_info (ps_field_num st + 1) pos' (ps_body_start ?st, ps_stated ?st) rs"
          using rs by (simp add: accepts_def del: add_parsed_simps(3,4))
        then show ?thesis unfolding p' using val by (simp add: Let_def)
      qed
      ultimately have "accepts buffer pos st n st' ((t, v) # rs)"
        using rs tv(1-3,7) hd False le
        by (auto simp: accepts_def raw_bytes_def raw_tag_def raw_pair_def simp del: body_info.simps)
      then show ?thesis ..
    qed
  qed
qed

text \<open>An accepted buffer: at least 20 bytes, within the configured size, checks passed.\<close>

lemma parse_accepts:
  assumes "parse p buffer = Inr (v, n)" "fp_max_message_size p \<le> 65536"
  obtains rs st where "accepts buffer 0 (start_state buffer) n st rs"
    "v = set_checksum_valid (ps_view st) True" "20 \<le> length buffer" "\<not> body_length_error p buffer n st"
    "length buffer \<le> fp_max_message_size p" "fp_validate_checksum p \<longrightarrow> validate (take n buffer)"
proof -
  obtain st where st: "field_loop buffer 0 (start_state buffer) = Inr (n, st)"
    "v = set_checksum_valid (ps_view st) True" "20 \<le> length buffer"
    "length buffer \<le> fp_max_message_size p" "\<not> body_length_error p buffer n st"
    "fp_validate_checksum p \<longrightarrow> validate (take n buffer)"
    using assms(1) by (auto simp: parse_def Let_def split: if_splits sum.splits)
  have "\<exists>rs. accepts buffer 0 (start_state buffer) n st rs"
    using st assms(2) by (intro field_loop_sound) (simp_all add: view_ok_new)
  then obtain rs where "accepts buffer 0 (start_state buffer) n st rs" ..
  then show ?thesis using st by (intro that)
qed

section \<open>Properties of the wire format\<close>

text \<open>
  C1. Serialize then parse. For SOH-free values, body tags other than 10, at most 512 fields and a
  buffer within the parser's limit, the parser accepts the serialized text whatever bytes follow
  it, consumes exactly the text, and its view returns the fields that were written, in order, with
  the checksum field last; lookups answer from those fields.
\<close>

theorem parse_wire:
  assumes "SOH \<notin> set b" "SOH \<notin> set mt" "list_all good_field fs" "length fs + 4 \<le> MAX_FIELDS"
    and "length (wire b ((MSG_TYPE, mt) # fs) @ rest) \<le> fp_max_message_size p"
    and "fp_max_message_size p \<le> 65536"
  shows "\<exists>v. parse p (wire b ((MSG_TYPE, mt) # fs) @ rest) = Inr (v, length (wire b ((MSG_TYPE, mt) # fs))) \<and>
    field_pairs v = parsed_fields b ((MSG_TYPE, mt) # fs) \<and> mv_checksum_valid v \<and>
    (\<forall>tag. get_field v tag = Some (map_of (parsed_fields b ((MSG_TYPE, mt) # fs)) tag))"
  using parse_wire_helper [OF assms] by (metis get_field_map_of)

theorem parse_wire_witness:
  "\<exists>v. parse new_parser (wire (asc ''FIX.4.4'') [(MSG_TYPE, asc ''0''), (SENDER_COMP_ID, asc ''A'')] @ [56, 61]) =
      Inr (v, length (wire (asc ''FIX.4.4'') [(MSG_TYPE, asc ''0''), (SENDER_COMP_ID, asc ''A'')])) \<and>
    field_pairs v = parsed_fields (asc ''FIX.4.4'') [(MSG_TYPE, asc ''0''), (SENDER_COMP_ID, asc ''A'')] \<and>
    mv_checksum_valid v \<and>
    (\<forall>tag. get_field v tag = Some (map_of (parsed_fields (asc ''FIX.4.4'')
       [(MSG_TYPE, asc ''0''), (SENDER_COMP_ID, asc ''A'')]) tag))"
  by (rule parse_wire [of "asc ''FIX.4.4''" "asc ''0''" "[(SENDER_COMP_ID, asc ''A'')]" "[56, 61]" new_parser])
    (simp_all add: asc_def SOH_def good_field_def tag_defs MAX_FIELDS_def new_parser_def wire_def
      wire_pre_def field_bytes_def dec_step dec_small)

text \<open>
  Framing. On a stream that starts with a serialized message, the framer returns exactly the
  end of that message, whatever follows.
\<close>

theorem frame_wire:
  assumes "SOH \<notin> set b" "list_all good_field fs"
  shows "find_message_boundary (wire b fs @ rest) = Some (length (wire b fs))"
  using assms by (rule find_boundary_wire)

theorem frame_wire_witness:
  "find_message_boundary (wire (asc ''FIX.4.4'') [(MSG_TYPE, asc ''0''), (1, asc ''10=123'')] @ asc ''8=FIX'') =
     Some (length (wire (asc ''FIX.4.4'') [(MSG_TYPE, asc ''0''), (1, asc ''10=123'')]))"
  by (rule frame_wire) (simp_all add: asc_def SOH_def good_field_def tag_defs)

text \<open>
  The backward search finds the last trailer tag when no delimiter follows it in the range.
\<close>

lemma rfind_trailer_last:
  "\<forall>j < k. (49 # 48 # 61 # rest) ! j \<noteq> SOH \<Longrightarrow>
   rfind_trailer (pre @ SOH # 49 # 48 # 61 # rest) (Suc (length pre) + k) = Some (length pre)"
proof (induction k)
  case 0
  then show ?case by (simp add: nth_append)
next
  case (Suc k)
  have "(pre @ SOH # 49 # 48 # 61 # rest) ! (Suc (length pre) + k) = (49 # 48 # 61 # rest) ! k"
    by (simp add: nth_append)
  then show ?case using Suc by simp
qed

lemma raw_bytes_end: "rs \<noteq> [] \<Longrightarrow> \<exists>xs. concat (map raw_bytes rs) = xs @ [SOH]"
proof (induction rs)
  case Nil
  then show ?case by simp
next
  case (Cons r rs)
  show ?case
  proof (cases "rs = []")
    case True
    then show ?thesis by (simp add: raw_bytes_def)
  next
    case False
    with Cons.IH obtain xs where "concat (map raw_bytes rs) = xs @ [SOH]" by blast
    then show ?thesis by (intro exI [of _ "raw_bytes r @ xs"]) simp
  qed
qed

lemma checksum_start_raw:
  assumes "take n buffer = concat (map raw_bytes (rs @ [(asc ''10'', v)]))" "rs \<noteq> []" "SOH \<notin> set v"
    and "n \<le> length buffer" "7 \<le> n"
  shows "find_checksum_tag_start buffer n = length (concat (map raw_bytes rs))"
proof -
  obtain xs where xs: "concat (map raw_bytes rs) = xs @ [SOH]"
    using raw_bytes_end [OF assms(2)] by blast
  let ?rest = "v @ SOH # drop n buffer"
  have "take n buffer = xs @ SOH # 49 # 48 # 61 # v @ [SOH]"
    using assms(1) xs by (simp add: raw_bytes_def asc_def EQUALS_def)
  then have buf: "buffer = xs @ SOH # 49 # 48 # 61 # ?rest" and
    "length (take n buffer) = length xs + 5 + length v"
    using append_take_drop_id [of n buffer] by simp_all
  then have "n - 4 = Suc (length xs) + length v" using assms(4) by simp
  moreover have "\<forall>j < length v. (49 # 48 # 61 # ?rest) ! j \<noteq> SOH"
  proof (intro allI impI)
    fix j assume "j < length v"
    then have "(49 # 48 # 61 # ?rest) ! j = ([49, 48, 61] @ v) ! j"
      by (simp add: nth_Cons nth_append split: nat.splits)
    moreover have "([49, 48, 61] @ v) ! j \<in> set ([49, 48, 61] @ v)"
      using \<open>j < length v\<close> by (intro nth_mem) simp
    moreover have "SOH \<notin> set ([49, 48, 61] @ v)" using assms(3) by (simp add: SOH_def)
    ultimately show "(49 # 48 # 61 # ?rest) ! j \<noteq> SOH" by metis
  qed
  ultimately have "rfind_trailer buffer (n - 4) = Some (length xs)"
    using rfind_trailer_last [of "length v" ?rest xs] buf by simp
  then show ?thesis using assms(5) xs by (simp add: find_checksum_tag_start_def)
qed

text \<open>
  The number a BodyLength value stands for when its bytes are digits; the parser does not check
  that they are, reads each byte as its distance from \<open>0\<close> and adds up modulo \<open>2 ^ 64\<close>.
\<close>

definition numeral_of :: "bytes \<Rightarrow> nat" where
  "numeral_of bs = foldl (\<lambda>a b. a * 10 + unat (b - ch_0)) 0 bs"

lemma fold_digits_numeral: "fold_digits 0 bs = (of_nat (numeral_of bs) :: 'a::len word)"
  by (induction bs rule: rev_induct) (simp_all add: numeral_of_def)

lemma of_nat_eq_iff_mod: "m < 2 ^ 64 \<Longrightarrow> (of_nat n :: u64) = of_nat m \<longleftrightarrow> n mod 2 ^ 64 = m"
  by (simp add: word_unat_eq_iff unsigned_of_nat take_bit_eq_mod)

lemma body_length_sound:
  assumes "accepts buffer 0 (start_state buffer) n st (r0 # r1 # rs @ [(asc ''10'', v)])"
    and "\<not> body_length_error p buffer n st" "fp_validate_body_length p" "length buffer \<le> 65536"
  shows "numeral_of (snd r1) mod 2 ^ 64 = length (concat (map raw_bytes rs))"
proof -
  let ?all = "(r0 # r1 # rs)"
  have a: "take n buffer = concat (map raw_bytes (?all @ [(asc ''10'', v)]))" "n \<le> length buffer"
    using assms(1) by (simp_all add: accepts_def)
  have "length (take n buffer) = n" using a(2) by simp
  then have n: "7 \<le> n" "length (concat (map raw_bytes rs)) \<le> n"
    unfolding a(1) by (auto simp: raw_bytes_def asc_def)
  have "SOH \<notin> set v"
  proof -
    have "text_ok k (xs @ [(t, v)]) \<Longrightarrow> SOH \<notin> set v" for k xs t
      by (induction xs arbitrary: k) auto
    then show ?thesis using assms(1) by (metis accepts_def append_Cons)
  qed
  from checksum_start_raw [OF a(1) _ this a(2) n(1)]
  have cts: "find_checksum_tag_start buffer n = length (concat (map raw_bytes ?all))" by simp
  have "(ps_body_start st, ps_stated st) =
      (length (raw_bytes r0) + length (raw_bytes r1), fold_digits 0 (snd r1))"
    using assms(1) by (simp add: accepts_def body_info_later)
  moreover have "0 < length (raw_bytes r0)" by (simp add: raw_bytes_def)
  ultimately have "of_nat (numeral_of (snd r1)) = (of_nat (length (concat (map raw_bytes rs))) :: u64)"
    using assms(2,3) cts by (auto simp: body_length_error_def Let_def fold_digits_numeral)
  then show ?thesis using n(2) a(2) assms(4) by (simp add: of_nat_eq_iff_mod)
qed

text \<open>
  C3. Soundness of the parser on arbitrary input, for a configured message size of at most 65536
  bytes (the default). Whatever it accepts is a non-empty run of
  \<open>digits=value<SOH>\<close> fields that covers exactly the consumed bytes; the first three of them, as
  far as there are three, are BeginString, BodyLength and MsgType (tags read modulo \<open>2 ^ 32\<close>), a
  checksum field is the last field, and only behind it may bytes be left over. The view holds the
  first 512 of the fields and no lookup on it panics. With checksum validation on, the byte sum
  was verified, all three header fields are there and the text ends in a field written \<open>10=\<close>.
  With body length validation on, whenever the text ends in such a field the value of the second
  field, read as a decimal numeral modulo \<open>2 ^ 64\<close> with each byte taken as its distance from
  \<open>0\<close>, is the number of bytes between that field and the trailer.
\<close>

theorem parse_sound:
  assumes "parse p buffer = Inr (v, n)" "fp_max_message_size p \<le> 65536"
  shows "\<exists>rs. take n buffer = concat (map raw_bytes rs) \<and> n \<le> length buffer \<and> rs \<noteq> [] \<and> text_ok 0 rs \<and>
      field_pairs v = take MAX_FIELDS (map raw_pair rs) \<and> (\<forall>tag. get_field v tag \<noteq> None) \<and>
      (n < length buffer \<longrightarrow> raw_tag (last rs) = CHECKSUM) \<and>
      (fp_validate_checksum p \<longrightarrow> validate (take n buffer) \<and>
         (\<exists>r0 r1 r2 body c. rs = r0 # r1 # r2 # body @ [(asc ''10'', c)])) \<and>
      (fp_validate_body_length p \<longrightarrow> (\<forall>r0 r1 body c. rs = r0 # r1 # body @ [(asc ''10'', c)] \<longrightarrow>
         numeral_of (snd r1) mod 2 ^ 64 = length (concat (map raw_bytes body))))"
proof -
  obtain rs st where a: "accepts buffer 0 (start_state buffer) n st rs"
    "v = set_checksum_valid (ps_view st) True" "20 \<le> length buffer" "\<not> body_length_error p buffer n st"
    "length buffer \<le> fp_max_message_size p" "fp_validate_checksum p \<longrightarrow> validate (take n buffer)"
    using assms by (rule parse_accepts)
  have t: "take n buffer = concat (map raw_bytes rs)" "n \<le> length buffer" "text_ok 0 rs"
    "n < length buffer \<longrightarrow> rs \<noteq> [] \<and> raw_tag (last rs) = CHECKSUM"
    using a(1) by (simp_all add: accepts_def)
  have "\<forall>tag. get_field v tag \<noteq> None" using a by (simp add: get_field_map_of accepts_def)
  moreover have "numeral_of (snd r1) mod 2 ^ 64 = length (concat (map raw_bytes body))"
    if "fp_validate_body_length p" "rs = r0 # r1 # body @ [(asc ''10'', c)]" for r0 r1 body c
    using body_length_sound [of buffer n st r0 r1 body c p] a that assms(2) by simp
  moreover have "rs \<noteq> []" using t a(3) by (cases "n < length buffer") auto
  moreover have "field_pairs (new_view buffer) = []" by (simp add: field_pairs_def new_view_def)
  then have "field_pairs v = take MAX_FIELDS (map raw_pair rs)" using a(1,2) by (auto simp: accepts_def)
  ultimately show ?thesis using t a(6) checked_layout [of rs]
    by (intro exI [of _ rs]) (simp add: a(6))
qed

text \<open>
  What the theorem leaves open, the parser does accept: without checksum validation a single
  BeginString field is a message, and a BodyLength of \<open>2 ^ 64 + 5\<close> passes for 5.
\<close>

lemma unchecked_single_field:
  assumes "SOH \<notin> set v" "17 \<le> length v" "length v \<le> 65533"
  shows "\<exists>view. parse new_unchecked (field_bytes (BEGIN_STRING, v)) = Inr (view, length v + 3)"
proof -
  let ?b = "field_bytes (BEGIN_STRING, v)"
  have len: "length ?b = length v + 3" by (simp add: field_bytes_def tag_defs dec_small)
  have "\<exists>st'. field_loop ?b 0 st = Inr (length v + 3, st')" if "ps_field_num st = 0" for st
    using field_loop_step [OF assms(1), of ?b "[]" BEGIN_STRING "[]" st] that len
    by (simp add: structural_error_def tag_defs Let_def field_loop.simps [of _ "length v + 3"])
  then obtain st' where "field_loop ?b 0 (start_state ?b) = Inr (length v + 3, st')" by force
  then show ?thesis using assms(2,3) len
    by (simp add: parse_def new_unchecked_def body_length_error_def)
qed

lemma body_length_wraps: "numeral_of (asc ''18446744073709551621'') mod 2 ^ 64 = 5"
  by (simp add: numeral_of_def asc_def)

definition sample_fields :: "(u32 \<times> bytes) list" where
  "sample_fields = [(MSG_TYPE, asc ''0''), (SENDER_COMP_ID, asc ''A'')]"

definition sample_wire :: bytes where
  "sample_wire = wire (asc ''FIX.4.4'') sample_fields"

lemma parse_sample: "\<exists>v. parse new_parser sample_wire = Inr (v, length sample_wire)"
  using parse_wire_helper [of "asc ''FIX.4.4''" "asc ''0''" "[(SENDER_COMP_ID, asc ''A'')]" "[]" new_parser]
  by (auto simp: sample_wire_def sample_fields_def asc_def SOH_def good_field_def tag_defs MAX_FIELDS_def
      new_parser_def wire_def wire_pre_def field_bytes_def dec_step dec_small)

theorem parse_sound_witness:
  "\<exists>v n rs. parse new_parser sample_wire = Inr (v, n) \<and> take n sample_wire = concat (map raw_bytes rs) \<and>
     text_ok 0 rs \<and> validate (take n sample_wire) \<and> 4 \<le> length rs"
proof -
  obtain v where v: "parse new_parser sample_wire = Inr (v, length sample_wire)"
    using parse_sample by blast
  have "\<exists>rs. take (length sample_wire) sample_wire = concat (map raw_bytes rs) \<and> text_ok 0 rs \<and>
      validate (take (length sample_wire) sample_wire) \<and>
      (\<exists>r0 r1 r2 body c. rs = r0 # r1 # r2 # body @ [(asc ''10'', c)])"
    using parse_sound [OF v] unfolding new_parser_def FixParser.simps by blast
  then show ?thesis using v by fastforce
qed

text \<open>
  A byte before the last delimiter changes the sum. Without the last delimiter no field of the
  message is a trailer any more, unless the message has one of its own.
\<close>

lemma corrupted_sum:
  assumes "Suc i < length (wire_pre b fs)" "x \<noteq> wire b fs ! i"
  shows "\<not> validate ((wire b fs)[i := x])"
proof -
  obtain pre where pre: "wire_pre b fs = pre @ [SOH]" using wire_pre_soh by blast
  obtain d1 d2 d3 where t: "trailer (sum_list (wire_pre b fs)) = [49, 48, 61, d1, d2, d3, SOH]"
    "stated_checksum d1 d2 d3 = sum_list (wire_pre b fs)" by (rule trailer_bytes)
  have i: "i < length pre" using assms(1) pre by simp
  have w: "wire b fs = pre @ [SOH, 49, 48, 61, d1, d2, d3, SOH]"
    unfolding wire_def t(1) unfolding pre by simp
  have eq: "(wire b fs)[i := x] = pre[i := x] @ [SOH, 49, 48, 61, d1, d2, d3, SOH]" "wire b fs ! i = pre ! i"
    unfolding w using i by (simp_all add: list_update_append nth_append)
  have "pre = take i pre @ pre ! i # drop (Suc i) pre" using i by (rule id_take_nth_drop)
  then have "sum_list pre = sum_list (take i pre @ pre ! i # drop (Suc i) pre)" by (rule arg_cong)
  moreover have "pre[i := x] = take i pre @ x # drop (Suc i) pre" using i by (rule upd_conv_take_nth_drop)
  ultimately have "sum_list (pre[i := x]) = sum_list pre + x - pre ! i"
    by (simp add: algebra_simps del: append_take_drop_id)
  with assms(2) eq(2) have "sum_list (pre[i := x]) + SOH \<noteq> sum_list pre + SOH" by auto
  then show ?thesis using t(2) pre unfolding eq(1) validate_trailer by simp
qed

definition raw_of :: "u32 \<times> bytes \<Rightarrow> raw_field" where
  "raw_of f = (dec (unat (fst f)), snd f)"

lemma raw_of_bytes: "raw_bytes (raw_of f) = field_bytes f"
  by (simp add: raw_bytes_def raw_of_def field_bytes_def)

lemma raw_of_not_10: "good_field f \<Longrightarrow>
    list_all is_digit (fst (raw_of f)) \<and> SOH \<notin> set (snd (raw_of f)) \<and> fst (raw_of f) \<noteq> asc ''10''"
proof -
  have ten: "asc ''10'' = dec 10" by (simp add: asc_def dec_step dec_small digit_def)
  have "dec (unat t) = dec 10 \<longleftrightarrow> t = CHECKSUM" for t :: u32
    by (simp add: word_unat_eq_iff CHECKSUM_def)
  then show "good_field f \<Longrightarrow> ?thesis" unfolding ten
    by (simp add: good_field_def raw_of_def list_all_digits_dec)
qed

lemma corrupted_delimiter:
  assumes "SOH \<notin> set b" "list_all good_field fs" "x \<noteq> SOH"
  shows "\<not> validate ((wire b fs)[length (wire_pre b fs) - 1 := x])"
proof
  let ?t = "trailer (sum_list (wire_pre b fs))"
  let ?fs = "(BEGIN_STRING, b) # (BODY_LENGTH, padded 6 (length (fields_bytes fs))) # fs"
  have good: "list_all good_field ?fs"
    using assms digits_no_soh [OF padded_digits] by (simp add: good_field_def tag_defs)
  obtain gs g where gs: "?fs = gs @ [g]" by (metis rev_exhaust list.distinct(1))
  obtain d where d: "?t = d @ [SOH]" "SOH \<notin> set d"
    using digits_no_soh [OF format_digits, of "sum_list (wire_pre b fs)"]
    by (auto simp: trailer_def SOH_def intro: that)
  let ?g = "(fst (raw_of g), snd g @ x # d)"
  have pre: "wire_pre b fs = concat (map field_bytes gs) @ field_bytes g"
    using gs by (metis (no_types) append_Nil2 concat.simps(1,2) concat_append fields_bytes_def list.simps(8,9)
        map_append wire_pre_def append_assoc)
  have "(wire b fs)[length (wire_pre b fs) - 1 := x] = concat (map raw_bytes (map raw_of gs @ [?g]))"
    unfolding wire_def d(1) unfolding pre
    by (simp add: field_bytes_def raw_bytes_def raw_of_def list_update_append comp_def
        field_bytes_def [abs_def])
  moreover assume "validate ((wire b fs)[length (wire_pre b fs) - 1 := x])"
  moreover have "\<forall>r \<in> set (map raw_of gs @ [?g]).
      (list_all is_digit (fst r) \<and> SOH \<notin> set (snd r)) \<and> fst r \<noteq> asc ''10''"
    using good d(2) assms(3) raw_of_not_10 [of g] raw_of_not_10 unfolding gs
    by (auto simp: list_all_iff raw_of_def)
  ultimately show False using validate_has_trailer [of "map raw_of gs @ [?g]"] by auto
qed

text \<open>
  C26. Single-byte corruption. Changing the value of one byte in front of the trailer tag \<open>10=\<close>
  of a serialized message makes the checksum validation fail: any byte before the delimiter that
  stands in front of the trailer, whatever the message holds, and that delimiter itself for a
  message with a BeginString and values free of SOH and without a body field 10.
\<close>

theorem corruption_detected:
  assumes "i < length (wire_pre b fs)" "x \<noteq> wire b fs ! i"
    and "i = length (wire_pre b fs) - 1 \<longrightarrow> SOH \<notin> set b \<and> list_all good_field fs"
  shows "\<not> validate ((wire b fs)[i := x])"
proof (cases "Suc i < length (wire_pre b fs)")
  case True
  then show ?thesis using assms(2) by (rule corrupted_sum)
next
  case False
  then have i: "i = length (wire_pre b fs) - 1" using assms(1) by simp
  obtain pre where "wire_pre b fs = pre @ [SOH]" using wire_pre_soh by blast
  then have "wire b fs ! i = SOH" by (simp add: i wire_def nth_append)
  then show ?thesis using assms(2,3) i corrupted_delimiter by metis
qed

theorem corruption_detected_witness:
  "\<not> validate ((wire (asc ''FIX.4.4'') [(MSG_TYPE, asc ''0'')])[2 := 57]) \<and>
   \<not> validate ((wire (asc ''FIX.4.4'') [(MSG_TYPE, asc ''0'')])
      [length (wire_pre (asc ''FIX.4.4'') [(MSG_TYPE, asc ''0'')]) - 1 := 57])"
  by (intro conjI; rule corruption_detected)
    (simp_all add: wire_def wire_pre_def field_bytes_def asc_def nth_append dec_step dec_small tag_defs digit_def
      good_field_def SOH_def)

lemma emit_Some:
  "emit buf w = Some (buf', n) \<Longrightarrow> n = length w \<and> take n buf' = w \<and> length w \<le> length buf"
  by (auto simp: emit_def split: if_splits)

lemma int_text_no_soh: "SOH \<notin> set (int_text v)"
  using digits_no_soh [OF list_all_digits_dec] by (auto simp: int_text_def SOH_def)

lemma dec_no_soh: "SOH \<notin> set (dec n)"
  by (rule digits_no_soh [OF list_all_digits_dec])

text \<open>What a lookup returns on the parse of an emitted text.\<close>

lemma parse_emitted:
  assumes "emit buf (wire b ((MSG_TYPE, mt) # fs)) = Some (buf', n)" "n \<le> 65536"
    and "SOH \<notin> set b" "SOH \<notin> set mt" "list_all good_field fs" "length fs \<le> 508"
  shows "\<exists>v. parse new_parser (take n buf') = Inr (v, n) \<and> view_ok v \<and> idx_ok v \<and>
    field_pairs v = parsed_fields b ((MSG_TYPE, mt) # fs)"
  using parse_wire_helper [of b mt fs "[]" new_parser] emit_Some [OF assms(1)] assms(2-6)
  by (auto simp: new_parser_def MAX_FIELDS_def)

lemma msg_type_parsed:
  assumes "view_ok v" "idx_ok v" "field_pairs v = parsed_fields b ((MSG_TYPE, mt) # fs)"
    and "MSG_TYPE \<notin> fst ` set fs"
  shows "msg_type v = Some (Some mt)"
proof -
  have "map_of (rev fs) MSG_TYPE = None" using assms(4) by (simp add: map_of_eq_None_iff)
  then show ?thesis
    using msg_type_last [OF assms(1,2)] assms(3)
    by (simp add: parsed_fields_def map_add_def tag_defs)
qed

text \<open>
  C5. An execution report survives the wire. When the builder returns at most 65536 bytes
  (the parser's default limit) for SOH-free texts, the parser accepts those bytes and the readers of the view return the values that were
  passed to the builder: message type, sequence number, identifiers and the signed quantities at
  full width.
\<close>

theorem execution_report_roundtrip:
  assumes "build_execution_report buf b sender target n t oid eid cl symb side oqty lqty lpx leaves cum avg
      etype ostat = Some (buf', len)" "len \<le> 65536"
    and "list_all (\<lambda>x. SOH \<notin> set x)
      [b, sender, target, t, oid, eid, cl, symb, [side], lpx, avg, [etype], [ostat]]"
  shows "\<exists>v. parse new_parser (take len buf') = Inr (v, len) \<and>
    msg_type_enum v = Some (Some ExecutionReport) \<and> msg_seq_num v = Some (Some n) \<and>
    get_field v SENDER_COMP_ID = Some (Some sender) \<and> get_field v TARGET_COMP_ID = Some (Some target) \<and>
    get_field v ORDER_ID = Some (Some oid) \<and> get_field v EXEC_ID = Some (Some eid) \<and>
    get_field v CL_ORD_ID = Some (Some cl) \<and> get_field v SYMBOL = Some (Some symb) \<and>
    get_field v EXEC_TYPE = Some (Some [etype]) \<and> get_field v ORD_STATUS = Some (Some [ostat]) \<and>
    get_field_i64 v ORDER_QTY = Some (Some oqty) \<and> get_field_i64 v LAST_QTY = Some (Some lqty) \<and>
    get_field_i64 v LEAVES_QTY = Some (Some leaves) \<and> get_field_i64 v CUM_QTY = Some (Some cum)"
proof -
  let ?fs = "[(SENDER_COMP_ID, sender), (TARGET_COMP_ID, target),
       (MSG_SEQ_NUM, dec (unat n)), (SENDING_TIME, t), (ORDER_ID, oid), (EXEC_ID, eid), (CL_ORD_ID, cl),
       (EXEC_TYPE, [etype]), (ORD_STATUS, [ostat]), (SYMBOL, symb), (SIDE, [side]),
       (ORDER_QTY, int_text oqty), (LAST_QTY, int_text lqty), (LAST_PX, lpx),
       (LEAVES_QTY, int_text leaves), (CUM_QTY, int_text cum), (AVG_PX, avg), (TRANSACT_TIME, t)]"
  have mt: "SOH \<notin> set (asc ''8'')" by (simp add: asc_def SOH_def)
  have good: "list_all good_field ?fs"
    using assms(3) by (simp add: good_field_def tag_defs int_text_no_soh dec_no_soh)
  obtain v where v: "parse new_parser (take len buf') = Inr (v, len)" "view_ok v" "idx_ok v"
    "field_pairs v = parsed_fields b ((MSG_TYPE, asc ''8'') # ?fs)"
    using parse_emitted [OF assms(1) [unfolded build_execution_report_eq] assms(2) _ mt good] assms(3)
    by auto
  have g: "get_field v tag = Some (map_of (parsed_fields b ((MSG_TYPE, asc ''8'') # ?fs)) tag)" for tag
    using get_field_map_of [OF v(2)] v(4) by simp
  have "msg_type v = Some (Some (asc ''8''))"
    using v by (intro msg_type_parsed) (auto simp: tag_defs)
  then have "msg_type_enum v = Some (Some ExecutionReport)"
    by (simp add: msg_type_enum_def msg_type_from_bytes_def asc_def)
  then show ?thesis
    using v(1)
    by (simp add: g get_field_i64_def msg_seq_num_def get_field_u64_def parsed_fields_def tag_defs
        parse_i64_int_text parse_u64_dec)
qed

lemma emit_fits: "length w \<le> length buf \<Longrightarrow> emit buf w = Some (w @ drop (length w) buf, length w)"
  by (simp add: emit_def)

lemmas wire_eval = wire_def wire_pre_def field_bytes_def int_text_def asc_def dec_step dec_small tag_defs

theorem execution_report_roundtrip_witness:
  "\<exists>buf' len v. build_execution_report (replicate 256 0) [70] [83] [84] 7 [48] [79] [69] [67] [88] 49
      100 40 [57] 60 40 [57] 70 49 = Some (buf', len) \<and>
    parse new_parser (take len buf') = Inr (v, len) \<and> get_field_i64 v LEAVES_QTY = Some (Some 60)"
proof -
  obtain w where "build_execution_report (replicate 256 0) [70] [83] [84] 7 [48] [79] [69] [67] [88] 49
      100 40 [57] 60 40 [57] 70 49 = emit (replicate 256 0) w" "length w \<le> 256"
    unfolding build_execution_report_eq by (simp add: wire_eval)
  then have b: "build_execution_report (replicate 256 0) [70] [83] [84] 7 [48] [79] [69] [67] [88] 49
      100 40 [57] 60 40 [57] 70 49 = Some (w @ drop (length w) (replicate 256 0), length w)"
    "length w \<le> 65536" by (simp_all add: emit_fits)
  from execution_report_roundtrip [OF b] b show ?thesis by (fastforce simp: SOH_def)
qed

end
