(* ===== verification/Session.thy ===== *)
theory Session
  imports Prelude
begin

text \<open>
  \<open>src/src/session.rs\<close>: the session state machine. An operation that reads the clock takes the
  reading as its argument (one per call of \<open>Instant::now\<close>); instants and durations are naturals in
  nanoseconds, and \<open>duration_since\<close> saturates at zero, as subtraction on \<^typ>\<open>nat\<close> does.
\<close>

section \<open>States, configuration, actions\<close>

datatype SessionState = Disconnected | Connecting | LogonSent | Active | Resending | LogoutSent

datatype SessionRole = Initiator | Acceptor

datatype SequenceResetPolicy = Always | Daily | Weekly | Never

record SessionConfig =
  sc_session_id :: bytes
  sc_fix_version :: bytes
  sc_sender_comp_id :: bytes
  sc_target_comp_id :: bytes
  sc_role :: SessionRole
  sc_heartbeat_interval :: nat
  sc_reconnect_interval :: nat
  sc_max_reconnect_attempts :: u32
  sc_sequence_reset_policy :: SequenceResetPolicy
  sc_validate_comp_ids :: bool
  sc_max_msg_rate :: u32

definition secs :: "nat \<Rightarrow> nat" where
  "secs n = n * 1000000000"

definition default_config :: SessionConfig where
  "default_config =
     \<lparr>sc_session_id = [], sc_fix_version = asc ''FIX.4.4'', sc_sender_comp_id = [],
      sc_target_comp_id = [], sc_role = Initiator, sc_heartbeat_interval = secs 30,
      sc_reconnect_interval = secs 1, sc_max_reconnect_attempts = 0,
      sc_sequence_reset_policy = Daily, sc_validate_comp_ids = True, sc_max_msg_rate = 50000\<rparr>"

datatype SessionAction = Send bytes | Disconnect | NoAction

record Session =
  ss_config :: SessionConfig
  ss_state :: SessionState
  ss_outbound_seq_num :: u64
  ss_inbound_seq_num :: u64
  ss_last_sent_time :: nat
  ss_last_received_time :: nat
  ss_test_request_pending :: bool
  ss_test_request_sent_time :: "nat option"
  ss_reconnect_attempts :: u32
  ss_msg_count_window :: u32
  ss_window_start :: nat

section \<open>Operations\<close>

definition new_session :: "nat \<Rightarrow> SessionConfig \<Rightarrow> Session" where
  "new_session now config =
     \<lparr>ss_config = config, ss_state = Disconnected, ss_outbound_seq_num = 1, ss_inbound_seq_num = 1,
      ss_last_sent_time = now, ss_last_received_time = now, ss_test_request_pending = False,
      ss_test_request_sent_time = None, ss_reconnect_attempts = 0, ss_msg_count_window = 0,
      ss_window_start = now\<rparr>"

definition next_outbound_seq_num :: "Session \<Rightarrow> u64 \<times> Session" where
  "next_outbound_seq_num s = (ss_outbound_seq_num s, s\<lparr>ss_outbound_seq_num := ss_outbound_seq_num s + 1\<rparr>)"

definition on_connected :: "nat \<Rightarrow> nat \<Rightarrow> Session \<Rightarrow> Session" where
  "on_connected now now' s =
     (case ss_state s of
        Disconnected \<Rightarrow> s\<lparr>ss_state := (if sc_role (ss_config s) = Initiator then LogonSent else Connecting),
          ss_last_received_time := now, ss_last_sent_time := now', ss_reconnect_attempts := 0\<rparr>
      | Connecting \<Rightarrow> s\<lparr>ss_state := (if sc_role (ss_config s) = Initiator then LogonSent else Connecting),
          ss_last_received_time := now, ss_last_sent_time := now', ss_reconnect_attempts := 0\<rparr>
      | _ \<Rightarrow> s)"

definition on_logon :: "nat \<Rightarrow> Session \<Rightarrow> Session" where
  "on_logon now s =
     s\<lparr>ss_state := Active, ss_last_received_time := now, ss_test_request_pending := False\<rparr>"

text \<open>The result is the gap \<open>(start, end)\<close> on the error side.\<close>

definition validate_inbound_seq ::
  "nat \<Rightarrow> u64 \<Rightarrow> Session \<Rightarrow> ((u64 \<times> u64) + unit) \<times> Session" where
  "validate_inbound_seq now received_seq s =
     (if received_seq = ss_inbound_seq_num s then
        (Inr (), s\<lparr>ss_inbound_seq_num := ss_inbound_seq_num s + 1, ss_last_received_time := now\<rparr>)
      else if received_seq > ss_inbound_seq_num s then
        (Inl (ss_inbound_seq_num s, received_seq), s\<lparr>ss_state := Resending\<rparr>)
      else (Inr (), s))"

definition on_gap_filled :: "u64 \<Rightarrow> Session \<Rightarrow> Session" where
  "on_gap_filled new_seq s = s\<lparr>ss_inbound_seq_num := new_seq, ss_state := Active\<rparr>"

definition on_logout_sent :: "Session \<Rightarrow> Session" where
  "on_logout_sent s = s\<lparr>ss_state := LogoutSent\<rparr>"

definition on_disconnected :: "Session \<Rightarrow> Session" where
  "on_disconnected s = s\<lparr>ss_state := Disconnected, ss_test_request_pending := False\<rparr>"

text \<open>\<open>Duration + Duration\<close> panics when the seconds leave \<open>u64\<close>.\<close>

definition add_duration :: "nat \<Rightarrow> nat \<Rightarrow> nat run" where
  "add_duration a b = (if a + b < secs (2 ^ 64) then Some (a + b) else None)"

definition check_heartbeat :: "nat \<Rightarrow> Session \<Rightarrow> (SessionAction \<times> Session) run" where
  "check_heartbeat now s =
     (if ss_state s \<noteq> Active then Some (NoAction, s)
      else
        let since_sent = now - ss_last_sent_time s; since_received = now - ss_last_received_time s in
        if since_sent \<ge> sc_heartbeat_interval (ss_config s)
        then Some (Send [], s\<lparr>ss_last_sent_time := now\<rparr>)
        else
          Option.bind (add_duration (sc_heartbeat_interval (ss_config s)) (secs 5)) (\<lambda>timeout.
            if since_received \<ge> timeout then
              (if ss_test_request_pending s then Some (Disconnect, s)
               else Some (Send [], s\<lparr>ss_test_request_pending := True,
                      ss_test_request_sent_time := Some now\<rparr>))
            else Some (NoAction, s)))"

definition on_message_sent :: "nat \<Rightarrow> Session \<Rightarrow> Session" where
  "on_message_sent now s = s\<lparr>ss_last_sent_time := now\<rparr>"

definition on_message_received :: "nat \<Rightarrow> Session \<Rightarrow> Session" where
  "on_message_received now s = s\<lparr>ss_last_received_time := now, ss_test_request_pending := False\<rparr>"

definition should_reconnect :: "Session \<Rightarrow> bool" where
  "should_reconnect s =
     (if ss_state s \<noteq> Disconnected then False
      else if sc_role (ss_config s) \<noteq> Initiator then False
      else if sc_max_reconnect_attempts (ss_config s) > 0 \<and>
              ss_reconnect_attempts s \<ge> sc_max_reconnect_attempts (ss_config s) then False
      else True)"

definition on_reconnect_attempt :: "Session \<Rightarrow> Session" where
  "on_reconnect_attempt s =
     s\<lparr>ss_reconnect_attempts := ss_reconnect_attempts s + 1, ss_state := Connecting\<rparr>"

definition reset_sequences :: "Session \<Rightarrow> Session" where
  "reset_sequences s = s\<lparr>ss_outbound_seq_num := 1, ss_inbound_seq_num := 1\<rparr>"

definition check_rate_limit :: "nat \<Rightarrow> Session \<Rightarrow> bool \<times> Session" where
  "check_rate_limit now s =
     (let elapsed = now - ss_window_start s;
          s = (if elapsed \<ge> secs 1 then s\<lparr>ss_msg_count_window := 0, ss_window_start := now\<rparr> else s);
          s = s\<lparr>ss_msg_count_window := ss_msg_count_window s + 1\<rparr> in
      (ss_msg_count_window s \<le> sc_max_msg_rate (ss_config s), s))"

section \<open>Events\<close>

text \<open>
  The operations as events of one machine, each with the clock readings it makes. (A poll that
  panics, because the heartbeat interval is within five seconds of the largest \<open>Duration\<close>, is not
  a step of the machine and leaves the session as it was; the runs that matter exclude it.)
\<close>

datatype SessionEvent =
  Connected nat nat | LoggedOn nat | Received nat u64 | GapFilled u64 | LogoutSentEv | DisconnectedEv
| Tick nat | Sent nat | GotMessage nat | ReconnectAttempt | ResetSequences | RateCheck nat | TakeSeq

fun session_step :: "Session \<Rightarrow> SessionEvent \<Rightarrow> Session" where
  "session_step s (Connected n m) = on_connected n m s"
| "session_step s (LoggedOn n) = on_logon n s"
| "session_step s (Received n q) = snd (validate_inbound_seq n q s)"
| "session_step s (GapFilled q) = on_gap_filled q s"
| "session_step s LogoutSentEv = on_logout_sent s"
| "session_step s DisconnectedEv = on_disconnected s"
| "session_step s (Tick n) = (case check_heartbeat n s of Some (_, s') \<Rightarrow> s' | None \<Rightarrow> s)"
| "session_step s (Sent n) = on_message_sent n s"
| "session_step s (GotMessage n) = on_message_received n s"
| "session_step s ReconnectAttempt = on_reconnect_attempt s"
| "session_step s ResetSequences = reset_sequences s"
| "session_step s (RateCheck n) = snd (check_rate_limit n s)"
| "session_step s TakeSeq = snd (next_outbound_seq_num s)"

lemmas session_ops = on_connected_def on_logon_def validate_inbound_seq_def on_gap_filled_def
  on_logout_sent_def on_disconnected_def check_heartbeat_def on_message_sent_def
  on_message_received_def on_reconnect_attempt_def reset_sequences_def check_rate_limit_def
  next_outbound_seq_num_def

text \<open>
  The invariant: a pending test request has its time recorded, and a session whose role is
  Acceptor is never waiting for a logon reply.
\<close>

definition session_inv :: "Session \<Rightarrow> bool" where
  "session_inv s \<longleftrightarrow>
     (ss_test_request_pending s \<longrightarrow> ss_test_request_sent_time s \<noteq> None) \<and>
     (ss_state s = LogonSent \<longrightarrow> sc_role (ss_config s) = Initiator)"

lemma session_step_config: "ss_config (session_step s e) = ss_config s"
  by (cases e) (auto simp: session_ops Let_def Option.bind_eq_Some_conv
      split: SessionState.splits option.splits if_splits)

lemma session_step_inv: "session_inv s \<Longrightarrow> session_inv (session_step s e)"
  by (cases e) (auto simp: session_inv_def session_ops Let_def Option.bind_eq_Some_conv
      split: SessionState.splits option.splits if_splits)

interpretation session_machine: machine session_step session_inv
  by unfold_locales (rule session_step_inv)

lemma new_session_inv: "session_inv (new_session now c)"
  by (simp add: session_inv_def new_session_def)

section \<open>Properties of the session\<close>

subsection \<open>Inbound sequence numbers\<close>

text \<open>The received numbers that are accepted: those equal to the expected one.\<close>

fun accepted :: "Session \<Rightarrow> (nat \<times> u64) list \<Rightarrow> u64 list" where
  "accepted s [] = []"
| "accepted s ((now, q) # rs) =
     (let (r, s') = validate_inbound_seq now q s in
      if ss_inbound_seq_num s' \<noteq> ss_inbound_seq_num s then q # accepted s' rs else accepted s' rs)"

fun receive_all :: "Session \<Rightarrow> (nat \<times> u64) list \<Rightarrow> Session" where
  "receive_all s [] = s"
| "receive_all s ((now, q) # rs) = receive_all (snd (validate_inbound_seq now q s)) rs"

lemma validate_cases:
  obtains (next_seq) "q = ss_inbound_seq_num s"
      "validate_inbound_seq now q s =
         (Inr (), s\<lparr>ss_inbound_seq_num := ss_inbound_seq_num s + 1, ss_last_received_time := now\<rparr>)"
  | (gap) "q > ss_inbound_seq_num s"
      "validate_inbound_seq now q s = (Inl (ss_inbound_seq_num s, q), s\<lparr>ss_state := Resending\<rparr>)"
  | (dup) "q < ss_inbound_seq_num s" "validate_inbound_seq now q s = (Inr (), s)"
proof -
  consider "q = ss_inbound_seq_num s" | "q > ss_inbound_seq_num s" | "q < ss_inbound_seq_num s"
    by (rule linorder_cases)
  then show ?thesis
  proof cases
    case 1
    then show ?thesis by (intro next_seq) (simp_all add: validate_inbound_seq_def)
  next
    case 2
    then show ?thesis by (intro gap) (auto simp: validate_inbound_seq_def)
  next
    case 3
    then have "q \<noteq> ss_inbound_seq_num s" "\<not> q > ss_inbound_seq_num s" by auto
    with 3 show ?thesis by (intro dup) (simp_all add: validate_inbound_seq_def)
  qed
qed

lemma unat_Suc_word: "unat (x :: u64) + 1 < 2 ^ 64 \<Longrightarrow> unat (x + 1) = unat x + 1"
  by (simp add: unat_word_ariths)

lemma accepted_consecutive:
  "unat (ss_inbound_seq_num s) + length rs < 2 ^ 64 \<Longrightarrow>
   map unat (accepted s rs) = [unat (ss_inbound_seq_num s) ..< unat (ss_inbound_seq_num (receive_all s rs))] \<and>
   unat (ss_inbound_seq_num s) \<le> unat (ss_inbound_seq_num (receive_all s rs))"
proof (induction s rs rule: accepted.induct)
  case (1 s)
  then show ?case by simp
next
  case (2 s now q rs)
  show ?case
  proof (cases rule: validate_cases [where s = s and q = q and now = now])
    case next_seq
    let ?s = "s\<lparr>ss_inbound_seq_num := ss_inbound_seq_num s + 1, ss_last_received_time := now\<rparr>"
    have n: "unat (ss_inbound_seq_num s + 1) = unat (ss_inbound_seq_num s) + 1"
      using "2.prems" by (intro unat_Suc_word) simp
    then have "unat (ss_inbound_seq_num ?s) + length rs < 2 ^ 64" using "2.prems" by simp
    then have "map unat (accepted ?s rs) =
        [unat (ss_inbound_seq_num s) + 1 ..< unat (ss_inbound_seq_num (receive_all ?s rs))]"
      "unat (ss_inbound_seq_num s) + 1 \<le> unat (ss_inbound_seq_num (receive_all ?s rs))"
      using "2.IH" [OF next_seq(2) [symmetric] refl] next_seq n by auto
    then show ?thesis using next_seq by (auto simp: Let_def upt_conv_Cons)
  qed (use 2 in \<open>auto simp: Let_def\<close>)
qed

text \<open>
  C6. In-order, exactly-once acceptance. Whatever numbers arrive (duplicates, gaps, replays), the
  ones that advance the session are the consecutive numbers from the expected one, each once, and
  the new expected number is the one after them. (Fewer than \<open>2^64\<close> messages, so that the counter
  does not wrap.)
\<close>

theorem inbound_in_order:
  assumes "unat (ss_inbound_seq_num s) + length rs < 2 ^ 64"
  shows "map unat (accepted s rs) = [unat (ss_inbound_seq_num s) ..< unat (ss_inbound_seq_num (receive_all s rs))]"
  using accepted_consecutive [OF assms] by blast

theorem inbound_in_order_witness:
  "map unat (accepted (new_session 0 default_config) [(1, 1), (2, 3), (3, 1), (4, 2), (5, 3)]) =
     [unat (1 :: u64) ..< unat (4 :: u64)]"
proof -
  have "receive_all (new_session 0 default_config) [(1, 1), (2, 3), (3, 1), (4, 2), (5, 3)]
      = (new_session 0 default_config)\<lparr>ss_inbound_seq_num := 4, ss_last_received_time := 5, ss_state := Resending\<rparr>"
    by (simp add: new_session_def validate_inbound_seq_def)
  then show ?thesis
    using inbound_in_order [of "new_session 0 default_config" "[(1, 1), (2, 3), (3, 1), (4, 2), (5, 3)]"]
    by (simp add: new_session_def)
qed

text \<open>
  Gap detection. A number is reported as a gap exactly when it is above the expected one; the
  reported range starts at the expected number, which does not move, and the session is Resending.
\<close>

theorem gap_detected:
  "(fst (validate_inbound_seq now q s) = Inl (a, b) \<longleftrightarrow> a = ss_inbound_seq_num s \<and> b = q \<and> a < q) \<and>
   (fst (validate_inbound_seq now q s) = Inr () \<or>
    snd (validate_inbound_seq now q s) = s\<lparr>ss_state := Resending\<rparr>)"
  by (cases rule: validate_cases [where s = s and q = q and now = now]) auto

subsection \<open>Heartbeats\<close>

text \<open>
  Outbound silence is bounded. A poll of an active session either reports the peer dead or
  leaves the time since the last sent message below the heartbeat interval, and it asks for a
  message exactly when a heartbeat is due or the first test request is.
\<close>

theorem heartbeat_keeps_alive:
  assumes "check_heartbeat now s = Some (a, s')" "ss_state s = Active" "a \<noteq> Disconnect"
    and "0 < sc_heartbeat_interval (ss_config s)"
  shows "now - ss_last_sent_time s' < sc_heartbeat_interval (ss_config s) \<and>
    (a = Send [] \<longleftrightarrow>
       now - ss_last_sent_time s \<ge> sc_heartbeat_interval (ss_config s) \<or>
       now - ss_last_received_time s \<ge> sc_heartbeat_interval (ss_config s) + secs 5)"
  using assms by (auto simp: check_heartbeat_def Let_def add_duration_def split: if_splits)

theorem heartbeat_keeps_alive_witness:
  "secs 30 - ss_last_sent_time (snd (the (check_heartbeat (secs 30) (on_logon 0 (new_session 0 default_config)))))
     < secs 30"
  using heartbeat_keeps_alive [of "secs 30" "on_logon 0 (new_session 0 default_config)" "Send []"
      "(on_logon 0 (new_session 0 default_config))\<lparr>ss_last_sent_time := secs 30\<rparr>"]
  by (simp add: check_heartbeat_def on_logon_def new_session_def default_config_def secs_def)

text \<open>
  A test request leaves the peer no time to answer. When a poll sends a test request, a second
  poll disconnects, however soon it comes, unless a message arrived or a heartbeat is due in
  between: the timeout that triggered the request is not restarted by it.
\<close>

theorem test_request_no_grace:
  assumes "check_heartbeat now s = Some (Send [], s1)" "\<not> ss_test_request_pending s"
    and "ss_test_request_pending s1" "now \<le> now'"
    and "now' - ss_last_sent_time s1 < sc_heartbeat_interval (ss_config s1)"
  shows "check_heartbeat now' s1 = Some (Disconnect, s1)"
proof -
  from assms(1-3) have "ss_state s = Active" "s1 = s\<lparr>ss_test_request_pending := True, ss_test_request_sent_time := Some now\<rparr>"
    "now - ss_last_received_time s \<ge> sc_heartbeat_interval (ss_config s) + secs 5"
    "add_duration (sc_heartbeat_interval (ss_config s)) (secs 5) = Some (sc_heartbeat_interval (ss_config s) + secs 5)"
    by (auto simp: check_heartbeat_def Let_def add_duration_def split: if_splits)
  with assms(4,5) show ?thesis by (auto simp: check_heartbeat_def Let_def)
qed

theorem test_request_no_grace_witness:
  "let s = (on_logon 0 (new_session 0 default_config))\<lparr>ss_last_sent_time := secs 20\<rparr>;
       s1 = s\<lparr>ss_test_request_pending := True, ss_test_request_sent_time := Some (secs 35)\<rparr> in
   check_heartbeat (secs 35) s = Some (Send [], s1) \<and>
   check_heartbeat (secs 35 + 1) s1 = Some (Disconnect, s1)"
proof -
  let ?s = "(on_logon 0 (new_session 0 default_config))\<lparr>ss_last_sent_time := secs 20\<rparr>"
  let ?s1 = "?s\<lparr>ss_test_request_pending := True, ss_test_request_sent_time := Some (secs 35)\<rparr>"
  have "check_heartbeat (secs 35) ?s = Some (Send [], ?s1)"
    by (simp add: check_heartbeat_def on_logon_def new_session_def default_config_def secs_def add_duration_def)
  with test_request_no_grace [OF this, of "secs 35 + 1"] show ?thesis
    by (simp add: Let_def on_logon_def new_session_def default_config_def secs_def)
qed

text \<open>
  The polls of an Active session whose peer is silent, each at a time \<open>t\<close>; what a poll asks to send is
  sent by \<open>u\<close>, as the engine's loop does. Polling ends with a Disconnect.
\<close>

fun poll_all :: "(nat \<times> nat) list \<Rightarrow> Session \<Rightarrow> SessionAction list run" where
  "poll_all [] s = Some []"
| "poll_all ((t, u) # ps) s =
     Option.bind (check_heartbeat t s) (\<lambda>(action, s).
       case action of
         Disconnect \<Rightarrow> Some [Disconnect]
       | Send m \<Rightarrow> map_option ((#) (Send m)) (poll_all ps (on_message_sent u s))
       | NoAction \<Rightarrow> map_option ((#) NoAction) (poll_all ps s))"

text \<open>Polls that follow one another within less than \<open>h\<close>.\<close>

fun paced :: "nat \<Rightarrow> (nat \<times> nat) list \<Rightarrow> bool" where
  "paced h ((t, u) # (t', u') # ps) \<longleftrightarrow> t \<le> u \<and> u \<le> t' \<and> t' - u < h \<and> paced h ((t', u') # ps)"
| "paced h ps \<longleftrightarrow> True"

lemma paced_tail: "paced h (p # ps) \<Longrightarrow> paced h ps"
  by (cases p; cases ps) auto

text \<open>The three things a poll of an Active session can find.\<close>

lemma poll_due:
  assumes "ss_state s = Active" "sc_heartbeat_interval (ss_config s) \<le> t - ss_last_sent_time s"
  shows "poll_all ((t, u) # ps) s = map_option ((#) (Send [])) (poll_all ps (s\<lparr>ss_last_sent_time := u\<rparr>))"
  using assms by (simp add: check_heartbeat_def on_message_sent_def)

lemma poll_quiet:
  assumes "ss_state s = Active" "t - ss_last_sent_time s < sc_heartbeat_interval (ss_config s)"
    and "sc_heartbeat_interval (ss_config s) + secs 5 < secs (2 ^ 64)"
    and "t < ss_last_received_time s + sc_heartbeat_interval (ss_config s) + secs 5"
  shows "poll_all ((t, u) # ps) s = map_option ((#) NoAction) (poll_all ps s)"
proof -
  have "0 < secs 5" by (simp add: secs_def)
  then have "\<not> sc_heartbeat_interval (ss_config s) + secs 5 \<le> t - ss_last_received_time s" using assms(4) by arith
  then show ?thesis using assms(1-3) by (simp add: check_heartbeat_def add_duration_def Let_def)
qed

lemma poll_silent:
  assumes "ss_state s = Active" "t - ss_last_sent_time s < sc_heartbeat_interval (ss_config s)"
    and "sc_heartbeat_interval (ss_config s) + secs 5 < secs (2 ^ 64)"
    and "ss_last_received_time s + sc_heartbeat_interval (ss_config s) + secs 5 \<le> t"
  shows "poll_all ((t, u) # ps) s =
    (if ss_test_request_pending s then Some [Disconnect]
     else map_option ((#) (Send [])) (poll_all ps (s\<lparr>ss_test_request_pending := True,
        ss_test_request_sent_time := Some t, ss_last_sent_time := u\<rparr>)))"
  using assms by (simp add: check_heartbeat_def add_duration_def on_message_sent_def Let_def le_diff_conv2)

text \<open>Before the timeout nothing is concluded from the silence; after it at most three polls are made.\<close>

lemma early_polls:
  assumes "\<forall>p \<in> set early. fst p < ss_last_received_time s + sc_heartbeat_interval (ss_config s) + secs 5"
    and "ss_state s = Active" "sc_heartbeat_interval (ss_config s) + secs 5 < secs (2 ^ 64)"
  shows "\<exists>acts l. poll_all (early @ late) s = map_option ((@) acts) (poll_all late (s\<lparr>ss_last_sent_time := l\<rparr>)) \<and>
    length acts = length early \<and> Disconnect \<notin> set acts"
  using assms
proof (induction early arbitrary: s)
  case Nil
  show ?case by (intro exI [of _ "[]"] exI [of _ "ss_last_sent_time s"]) (simp add: option.map_ident)
next
  case (Cons p early)
  obtain t u where p: "p = (t, u)" by (cases p)
  let ?h = "sc_heartbeat_interval (ss_config s)"
  have "\<exists>act l. act \<noteq> Disconnect \<and>
      poll_all (p # early @ late) s = map_option ((#) act) (poll_all (early @ late) (s\<lparr>ss_last_sent_time := l\<rparr>))"
  proof (cases "?h \<le> t - ss_last_sent_time s")
    case True
    then show ?thesis using poll_due [OF Cons.prems(2)] unfolding p by blast
  next
    case False
    then have "poll_all ((t, u) # early @ late) s = map_option ((#) NoAction) (poll_all (early @ late) s)"
      using Cons.prems p by (intro poll_quiet) auto
    then show ?thesis unfolding p
      by (intro exI [of _ NoAction] exI [of _ "ss_last_sent_time s"]) simp
  qed
  then obtain act l where step: "act \<noteq> Disconnect"
    "poll_all (p # early @ late) s = map_option ((#) act) (poll_all (early @ late) (s\<lparr>ss_last_sent_time := l\<rparr>))"
    by blast
  obtain acts l' where "poll_all (early @ late) (s\<lparr>ss_last_sent_time := l\<rparr>) =
      map_option ((@) acts) (poll_all late (s\<lparr>ss_last_sent_time := l\<rparr>\<lparr>ss_last_sent_time := l'\<rparr>))"
    "length acts = length early" "Disconnect \<notin> set acts"
    using Cons.IH [of "s\<lparr>ss_last_sent_time := l\<rparr>"] Cons.prems by auto
  then show ?case using step
    by (intro exI [of _ "act # acts"] exI [of _ l']) (simp add: option.map_comp comp_def)
qed

lemma late_polls:
  assumes "\<forall>p \<in> set late. ss_last_received_time s + sc_heartbeat_interval (ss_config s) + secs 5 \<le> fst p"
    and "ss_state s = Active" "\<not> ss_test_request_pending s" "sc_heartbeat_interval (ss_config s) + secs 5 < secs (2 ^ 64)"
    and "paced (sc_heartbeat_interval (ss_config s)) late" "3 \<le> length late"
  shows "poll_all late s = Some [Send [], Disconnect] \<or> poll_all late s = Some [Send [], Send [], Disconnect]"
proof -
  obtain t1 u1 t2 u2 t3 u3 ps where l: "late = (t1, u1) # (t2, u2) # (t3, u3) # ps"
    using assms(6) by (metis Suc_le_length_iff numeral_3_eq_3 prod.collapse)
  have p: "t2 - u1 < sc_heartbeat_interval (ss_config s)" "t3 - u2 < sc_heartbeat_interval (ss_config s)"
    using assms(5) by (simp_all add: l)
  show ?thesis
  proof (cases "sc_heartbeat_interval (ss_config s) \<le> t1 - ss_last_sent_time s")
    case True
    then show ?thesis using assms p by (simp add: l poll_due poll_silent del: poll_all.simps)
  next
    case False
    then show ?thesis using assms p by (simp add: l poll_silent del: poll_all.simps)
  qed
qed

text \<open>
  C20. A silent peer is disconnected. Let an Active session without a pending test request be polled at
  intervals shorter than its heartbeat interval while nothing is received, what a poll asks for being sent before the
  next poll. No poll disconnects before the heartbeat interval and five seconds have passed since the last
  message from the peer; and of the polls after that, the second or the third does. (The interval plus five
  seconds is below \<open>2 ^ 64\<close> seconds, the largest \<open>Duration\<close>.)
\<close>

theorem silent_peer_dropped:
  assumes "ss_state s = Active" "\<not> ss_test_request_pending s"
    and "sc_heartbeat_interval (ss_config s) + secs 5 < secs (2 ^ 64)"
    and "\<forall>p \<in> set early. fst p < ss_last_received_time s + sc_heartbeat_interval (ss_config s) + secs 5"
    and "\<forall>p \<in> set late. ss_last_received_time s + sc_heartbeat_interval (ss_config s) + secs 5 \<le> fst p"
    and "paced (sc_heartbeat_interval (ss_config s)) (early @ late)" "3 \<le> length late"
  shows "\<exists>acts. poll_all (early @ late) s = Some (acts @ [Disconnect]) \<and> Disconnect \<notin> set acts \<and>
    length early + 1 \<le> length acts \<and> length acts \<le> length early + 2"
proof -
  obtain acts l where e: "poll_all (early @ late) s = map_option ((@) acts) (poll_all late (s\<lparr>ss_last_sent_time := l\<rparr>))"
    "length acts = length early" "Disconnect \<notin> set acts"
    using early_polls [OF assms(4,1,3)] by blast
  have "paced h (xs @ ys) \<Longrightarrow> paced h ys" for h xs ys by (induction xs) (auto dest: paced_tail)
  then have "poll_all late (s\<lparr>ss_last_sent_time := l\<rparr>) = Some [Send [], Disconnect] \<or>
      poll_all late (s\<lparr>ss_last_sent_time := l\<rparr>) = Some [Send [], Send [], Disconnect]"
    using assms by (intro late_polls) auto
  then show ?thesis
  proof
    assume "poll_all late (s\<lparr>ss_last_sent_time := l\<rparr>) = Some [Send [], Disconnect]"
    then show ?thesis using e by (intro exI [of _ "acts @ [Send []]"]) simp
  next
    assume "poll_all late (s\<lparr>ss_last_sent_time := l\<rparr>) = Some [Send [], Send [], Disconnect]"
    then show ?thesis using e by (intro exI [of _ "acts @ [Send [], Send []]"]) simp
  qed
qed

theorem silent_peer_dropped_witness:
  "\<exists>acts. poll_all ([(secs 10, secs 10), (secs 30, secs 31)] @ [(secs 36, secs 36), (secs 40, secs 40), (secs 41, secs 41)])
      (on_logon 0 (new_session 0 default_config)) = Some (acts @ [Disconnect]) \<and> Disconnect \<notin> set acts \<and>
    length [(secs 10, secs 10), (secs 30, secs 31)] + 1 \<le> length acts \<and>
    length acts \<le> length [(secs 10, secs 10), (secs 30, secs 31)] + 2"
  by (rule silent_peer_dropped) (simp_all add: on_logon_def new_session_def default_config_def secs_def)

subsection \<open>Rate limit\<close>

text \<open>The number of calls at the times \<open>ts\<close> that are allowed.\<close>

fun count_allowed :: "Session \<Rightarrow> nat list \<Rightarrow> nat" where
  "count_allowed s [] = 0"
| "count_allowed s (t # ts) =
     (let (ok, s') = check_rate_limit t s in (if ok then 1 else 0) + count_allowed s' ts)"

text \<open>Calls that open no new window are allowed while the counter is below the limit.\<close>

lemma check_rate_same_window:
  assumes "now < ss_window_start s + secs 1" "unat (ss_msg_count_window s) + 1 < 2 ^ 32"
  shows "check_rate_limit now s =
    (unat (ss_msg_count_window s) < unat (sc_max_msg_rate (ss_config s)),
     s\<lparr>ss_msg_count_window := ss_msg_count_window s + 1\<rparr>)"
    "unat (ss_msg_count_window s + 1) = unat (ss_msg_count_window s) + 1"
proof -
  have "now - ss_window_start s < secs 1" using assms(1) by (simp add: secs_def) 
  moreover show "unat (ss_msg_count_window s + 1) = unat (ss_msg_count_window s) + 1"
    using assms(2) by (simp add: unat_word_ariths)
  ultimately show "check_rate_limit now s =
    (unat (ss_msg_count_window s) < unat (sc_max_msg_rate (ss_config s)),
     s\<lparr>ss_msg_count_window := ss_msg_count_window s + 1\<rparr>)"
    by (simp add: check_rate_limit_def Let_def word_le_nat_alt Suc_le_eq)
qed

lemma count_one_window:
  "\<forall>t \<in> set ts. t < ss_window_start s + secs 1 \<Longrightarrow> unat (ss_msg_count_window s) + length ts < 2 ^ 32 \<Longrightarrow>
   count_allowed s ts = min (length ts) (unat (sc_max_msg_rate (ss_config s)) - unat (ss_msg_count_window s))"
proof (induction ts arbitrary: s)
  case Nil
  then show ?case by simp
next
  case (Cons t ts)
  then have "t < ss_window_start s + secs 1" "unat (ss_msg_count_window s) + 1 < 2 ^ 32" by auto
  note c = check_rate_same_window [OF this]
  have "count_allowed (s\<lparr>ss_msg_count_window := ss_msg_count_window s + 1\<rparr>) ts =
      min (length ts) (unat (sc_max_msg_rate (ss_config s)) - (unat (ss_msg_count_window s) + 1))"
    using Cons c(2) by simp
  then show ?case using c(1) by auto
qed

lemma check_rate_new_window:
  assumes "ss_window_start s + secs 1 \<le> t"
  shows "check_rate_limit t s =
    (0 < sc_max_msg_rate (ss_config s), s\<lparr>ss_msg_count_window := 1, ss_window_start := t\<rparr>)"
  using assms by (simp add: check_rate_limit_def Let_def le_diff_conv2 secs_def word_le_nat_alt word_less_nat_alt Suc_le_eq)

text \<open>At most one new window opens within a second.\<close>

lemma count_le_two_windows:
  "sorted ts \<Longrightarrow> \<forall>t \<in> set ts. T \<le> t \<and> t < T + secs 1 \<Longrightarrow>
   unat (ss_msg_count_window s) + length ts < 2 ^ 32 \<Longrightarrow>
   count_allowed s ts \<le> (unat (sc_max_msg_rate (ss_config s)) - unat (ss_msg_count_window s)) +
     unat (sc_max_msg_rate (ss_config s))"
proof (induction ts arbitrary: s)
  case Nil
  then show ?case by simp
next
  case (Cons t ts)
  show ?case
  proof (cases "t < ss_window_start s + secs 1")
    case True
    have "unat (ss_msg_count_window s) + 1 < 2 ^ 32" using Cons.prems(3) by simp
    note c = check_rate_same_window [OF True this]
    have "count_allowed (s\<lparr>ss_msg_count_window := ss_msg_count_window s + 1\<rparr>) ts \<le>
        (unat (sc_max_msg_rate (ss_config s)) - (unat (ss_msg_count_window s) + 1)) +
        unat (sc_max_msg_rate (ss_config s))"
      using Cons.IH [of "s\<lparr>ss_msg_count_window := ss_msg_count_window s + 1\<rparr>"] Cons.prems c(2) by auto
    then show ?thesis using c(1) by auto
  next
    case False
    let ?s = "s\<lparr>ss_msg_count_window := 1, ss_window_start := t\<rparr>"
    have "\<forall>u \<in> set ts. u < ss_window_start ?s + secs 1" using Cons.prems(2) by auto
    then have "count_allowed ?s ts = min (length ts) (unat (sc_max_msg_rate (ss_config s)) - 1)"
      using Cons.prems(3) count_one_window [of ts ?s] by auto
    then show ?thesis using False check_rate_new_window [of s t] by (auto simp: word_less_nat_alt)
  qed
qed

text \<open>
  C27. Any second carries at most twice the configured rate. For calls at non-decreasing times
  within one second of each other, from any state of the limiter, no more than two windows'
  allowance is granted (fewer than \<open>2^32\<close> calls, so that the counter does not wrap).
\<close>

theorem rate_limit_bound:
  assumes "sorted ts" "\<forall>t \<in> set ts. T \<le> t \<and> t < T + secs 1"
    and "unat (ss_msg_count_window s) + length ts < 2 ^ 32"
  shows "count_allowed s ts \<le> 2 * unat (sc_max_msg_rate (ss_config s))"
  using count_le_two_windows [OF assms] by simp

theorem rate_limit_bound_witness:
  "count_allowed (new_session 0 (default_config\<lparr>sc_max_msg_rate := 1\<rparr>))
     [secs 1 - 2, secs 1 - 1, secs 1, secs 1 + 1] = 2 \<and>
   count_allowed (new_session 0 (default_config\<lparr>sc_max_msg_rate := 1\<rparr>))
     [secs 1 - 2, secs 1 - 1, secs 1, secs 1 + 1] \<le> 2 * 1"
  using rate_limit_bound [of "[secs 1 - 2, secs 1 - 1, secs 1, secs 1 + 1]" "secs 1 - 2"
      "new_session 0 (default_config\<lparr>sc_max_msg_rate := 1\<rparr>)"]
  by (simp add: new_session_def secs_def check_rate_limit_def Let_def)

subsection \<open>Reconnection\<close>

definition failed_attempt :: "Session \<Rightarrow> Session" where
  "failed_attempt s = on_disconnected (on_reconnect_attempt s)"

lemma failed_attempts_state:
  "ss_config ((failed_attempt ^^ n) s) = ss_config s"
  "ss_reconnect_attempts ((failed_attempt ^^ n) s) = ss_reconnect_attempts s + of_nat n"
  "ss_state s = Disconnected \<Longrightarrow> ss_state ((failed_attempt ^^ n) s) = Disconnected"
  by (induction n) (simp_all add: failed_attempt_def on_disconnected_def on_reconnect_attempt_def)

text \<open>
  C31. Reconnection stops. From a disconnected initiator with no attempts counted and a limit
  \<open>m > 0\<close>, after \<open>n\<close> failed attempts another one is due exactly while \<open>n < m\<close>; one that connects
  starts the count again, and an acceptor never reconnects.
\<close>

theorem reconnect_limit:
  assumes "ss_state s = Disconnected" "ss_reconnect_attempts s = 0"
    and "0 < sc_max_reconnect_attempts (ss_config s)" "n < 2 ^ 32"
  shows "(should_reconnect ((failed_attempt ^^ n) s) \<longleftrightarrow>
      sc_role (ss_config s) = Initiator \<and> n < unat (sc_max_reconnect_attempts (ss_config s))) \<and>
    ss_reconnect_attempts (on_connected t t' (on_reconnect_attempt ((failed_attempt ^^ n) s))) = 0"
  using assms
  by (simp add: should_reconnect_def failed_attempts_state word_le_nat_alt not_le word_norm
      on_connected_def on_reconnect_attempt_def)

theorem reconnect_limit_witness:
  "should_reconnect ((failed_attempt ^^ 4) (new_session 0 (default_config\<lparr>sc_max_reconnect_attempts := 5\<rparr>))) \<and>
   \<not> should_reconnect ((failed_attempt ^^ 5) (new_session 0 (default_config\<lparr>sc_max_reconnect_attempts := 5\<rparr>)))"
  using reconnect_limit [of "new_session 0 (default_config\<lparr>sc_max_reconnect_attempts := 5\<rparr>)" 4]
    reconnect_limit [of "new_session 0 (default_config\<lparr>sc_max_reconnect_attempts := 5\<rparr>)" 5]
  by (simp add: new_session_def default_config_def)

end
