(* ===== verification/Timestamp.thy ===== *)
theory Timestamp
  imports Serializer "HOL-Library.Signed_Division"
begin

text \<open>
  \<open>src/src/timestamp.rs\<close>: timestamps, the TSC clock, the civil calendar and the FIX timestamp
  texts. Readings of the system clock and of the CPU counter are arguments. The calendar arithmetic
  is on integers (Rust's \<open>/\<close> truncates, \<^const>\<open>signed_divide\<close>); the theorem below shows that for every
  \<open>u64\<close> number of nanoseconds all its values are far inside their machine types.
\<close>

section \<open>Timestamps and clocks\<close>

datatype TimestampSource = System | Tsc | Hardware | Ptp

record HrTimestamp =
  hr_nanos :: u64
  hr_source :: TimestampSource

text \<open>\<open>wall\<close> is the system time since the epoch in nanoseconds (zero before it), \<open>tsc\<close> the counter.\<close>

definition hr_now :: "nat \<Rightarrow> u64 \<Rightarrow> TimestampSource \<Rightarrow> HrTimestamp" where
  "hr_now wall tsc source =
     \<lparr>hr_nanos = (case source of System \<Rightarrow> of_nat wall | Tsc \<Rightarrow> tsc
                  | Hardware \<Rightarrow> of_nat wall | Ptp \<Rightarrow> of_nat wall),
      hr_source = source\<rparr>"

definition elapsed_ns :: "HrTimestamp \<Rightarrow> HrTimestamp \<Rightarrow> u64" where
  "elapsed_ns t since = (if hr_nanos since \<le> hr_nanos t then hr_nanos t - hr_nanos since else 0)"

text \<open>The product is in 128 bits, the result is truncated to 64.\<close>

definition tsc_to_nanos :: "u64 \<Rightarrow> u64 \<Rightarrow> u64" where
  "tsc_to_nanos ticks freq_hz =
     (if freq_hz = 0 then 0 else of_nat (unat ticks * 1000000000 div unat freq_hz))"

definition calibrated_freq :: "u64 \<Rightarrow> u64 \<Rightarrow> u64 \<Rightarrow> u64" where
  "calibrated_freq tsc0 tsc1 elapsed =
     (if elapsed = 0 then 1000000000
      else of_nat (unat (tsc1 - tsc0) * 1000000000 div unat elapsed))"

record HrClock =
  hc_source :: TimestampSource
  hc_tsc_frequency_hz :: u64
  hc_tsc_offset :: u64

text \<open>\<open>freq\<close> is the outcome of the calibration, which the source runs here (\<open>calibrated_freq\<close> above).\<close>

definition new_clock :: "TimestampSource \<Rightarrow> u64 \<Rightarrow> u64 \<Rightarrow> nat \<Rightarrow> HrClock" where
  "new_clock source freq tsc_now wall =
     (if source = Tsc
      then \<lparr>hc_source = source, hc_tsc_frequency_hz = freq,
            hc_tsc_offset = of_nat wall - tsc_to_nanos tsc_now freq\<rparr>
      else \<lparr>hc_source = source, hc_tsc_frequency_hz = 0, hc_tsc_offset = 0\<rparr>)"

definition clock_now :: "HrClock \<Rightarrow> u64 \<Rightarrow> nat \<Rightarrow> HrTimestamp" where
  "clock_now c tsc wall =
     (case hc_source c of
        Tsc \<Rightarrow> \<lparr>hr_nanos = tsc_to_nanos tsc (hc_tsc_frequency_hz c) + hc_tsc_offset c, hr_source = Tsc\<rparr>
      | other \<Rightarrow> hr_now wall tsc other)"

text \<open>The order the source derives: sources in the order of their declaration, timestamps by their nanoseconds first.\<close>

fun source_rank :: "TimestampSource \<Rightarrow> nat" where
  "source_rank System = 0"
| "source_rank Tsc = 1"
| "source_rank Hardware = 2"
| "source_rank Ptp = 3"

lemma source_rank_inj: "source_rank a = source_rank b \<longleftrightarrow> a = b"
  by (cases a; cases b) simp_all

instantiation TimestampSource :: linorder
begin

definition less_eq_TimestampSource :: "TimestampSource \<Rightarrow> TimestampSource \<Rightarrow> bool" where
  "less_eq_TimestampSource a b \<longleftrightarrow> source_rank a \<le> source_rank b"

definition less_TimestampSource :: "TimestampSource \<Rightarrow> TimestampSource \<Rightarrow> bool" where
  "less_TimestampSource a b \<longleftrightarrow> source_rank a < source_rank b"

instance
  by standard (auto simp: less_eq_TimestampSource_def less_TimestampSource_def source_rank_inj)

end

definition hr_le :: "HrTimestamp \<Rightarrow> HrTimestamp \<Rightarrow> bool" where
  "hr_le a b \<longleftrightarrow> hr_nanos a < hr_nanos b \<or> hr_nanos a = hr_nanos b \<and> hr_source a \<le> hr_source b"

lemma hr_le_order:
  "hr_le a a" "hr_le a b \<Longrightarrow> hr_le b c \<Longrightarrow> hr_le a c" "hr_le a b \<or> hr_le b a"
  "hr_le a b \<Longrightarrow> hr_le b a \<Longrightarrow> a = b"
  by (auto simp: hr_le_def)

lemma elapsed_le: "hr_le a b \<Longrightarrow> elapsed_ns a b = 0"
  by (auto simp: hr_le_def elapsed_ns_def)

text \<open>
  The spin loop of the calibration reads the clock until two milliseconds have passed; \<open>readings\<close> are
  the values it reads, and \<^const>\<open>None\<close> is a loop that is still waiting when they end.
\<close>

fun spin_wait :: "nat \<Rightarrow> nat list \<Rightarrow> nat list option" where
  "spin_wait t0 [] = None"
| "spin_wait t0 (t # ts) = (if t - t0 < 2000000 then spin_wait t0 ts else Some ts)"

definition calibrate_tsc :: "nat \<Rightarrow> u64 \<Rightarrow> nat list \<Rightarrow> u64 \<Rightarrow> u64 option" where
  "calibrate_tsc t0 tsc0 readings tsc1 =
     (case spin_wait t0 readings of Some (t # _) \<Rightarrow> Some (calibrated_freq tsc0 tsc1 (of_nat (t - t0))) | _ \<Rightarrow> None)"

record LatencyTracker =
  lt_start :: HrTimestamp
  lt_clock :: HrClock

definition latency_start :: "HrClock \<Rightarrow> u64 \<Rightarrow> nat \<Rightarrow> LatencyTracker" where
  "latency_start c tsc wall = \<lparr>lt_start = clock_now c tsc wall, lt_clock = c\<rparr>"

definition latency_stop :: "LatencyTracker \<Rightarrow> u64 \<Rightarrow> nat \<Rightarrow> u64" where
  "latency_stop lt tsc wall = elapsed_ns (clock_now (lt_clock lt) tsc wall) (lt_start lt)"

section \<open>The civil calendar\<close>

text \<open>
  In unbounded integers; the source computes in \<open>i64\<close>. Nanoseconds in 64 bits reach day 213503, for
  which every intermediate value is below \<open>2^32\<close>, so that nothing overflows.
\<close>

definition civil_from_days :: "int \<Rightarrow> int \<times> int \<times> int" where
  "civil_from_days days =
     (let z = days + 719468;
          era = (if z \<ge> 0 then z else z - 146096) sdiv 146097;
          doe = z - era * 146097;
          yoe = (doe - doe div 1460 + doe div 36524 - doe div 146096) div 365;
          y = yoe + era * 400;
          doy = doe - (365 * yoe + yoe div 4 - yoe div 100);
          mp = (5 * doy + 2) div 153;
          d = doy - (153 * mp + 2) div 5 + 1;
          m = (if mp < 10 then mp + 3 else mp - 9);
          y = (if m \<le> 2 then y + 1 else y) in
      (y, m, d))"

text \<open>Year, month, day, hour, minute, second, nanoseconds.\<close>

definition to_utc_components :: "u64 \<Rightarrow> nat \<times> nat \<times> nat \<times> nat \<times> nat \<times> nat \<times> nat" where
  "to_utc_components nanos =
     (let total_secs = unat nanos div 1000000000; nanos_frac = unat nanos mod 1000000000;
          days = total_secs div 86400; day_secs = total_secs mod 86400;
          (y, mo, d) = civil_from_days (int days) in
      (nat y, nat mo, nat d, day_secs div 3600, day_secs mod 3600 div 60, day_secs mod 60, nanos_frac))"

section \<open>Formatting\<close>

definition write_digits2 :: "nat \<Rightarrow> bytes" where
  "write_digits2 val = [digit (val div 10), digit (val mod 10)]"

definition write_digits3 :: "nat \<Rightarrow> bytes" where
  "write_digits3 val = [digit (val div 100), digit (val div 10 mod 10), digit (val mod 10)]"

definition write_digits4 :: "nat \<Rightarrow> bytes" where
  "write_digits4 val =
     [digit (val div 1000), digit (val div 100 mod 10), digit (val div 10 mod 10), digit (val mod 10)]"

definition write_digits6 :: "nat \<Rightarrow> bytes" where
  "write_digits6 val =
     [digit (val div 100000), digit (val div 10000 mod 10), digit (val div 1000 mod 10),
      digit (val div 100 mod 10), digit (val div 10 mod 10), digit (val mod 10)]"

definition write_digits9 :: "nat \<Rightarrow> bytes" where
  "write_digits9 val =
     [digit (val div 100000000), digit (val div 10000000 mod 10), digit (val div 1000000 mod 10),
      digit (val div 100000 mod 10), digit (val div 10000 mod 10), digit (val div 1000 mod 10),
      digit (val div 100 mod 10), digit (val div 10 mod 10), digit (val mod 10)]"

definition write_date :: "nat \<Rightarrow> nat \<Rightarrow> nat \<Rightarrow> bytes" where
  "write_date y m d = write_digits4 y @ write_digits2 m @ write_digits2 d"

definition write_time :: "nat \<Rightarrow> nat \<Rightarrow> nat \<Rightarrow> bytes" where
  "write_time h m s = write_digits2 h @ [58] @ write_digits2 m @ [58] @ write_digits2 s"

definition to_fix_timestamp :: "u64 \<Rightarrow> bytes" where
  "to_fix_timestamp nanos =
     (let (y, mo, d, h, mi, s, nanos_frac) = to_utc_components nanos in
      write_date y mo d @ [45] @ write_time h mi s @ [46] @ write_digits3 (nanos_frac div 1000000))"

definition to_fix_timestamp_us :: "u64 \<Rightarrow> bytes" where
  "to_fix_timestamp_us nanos =
     (let (y, mo, d, h, mi, s, nanos_frac) = to_utc_components nanos in
      write_date y mo d @ [45] @ write_time h mi s @ [46] @ write_digits6 (nanos_frac div 1000))"

definition to_fix_timestamp_ns :: "u64 \<Rightarrow> bytes" where
  "to_fix_timestamp_ns nanos =
     (let (y, mo, d, h, mi, s, nanos_frac) = to_utc_components nanos in
      write_date y mo d @ [45] @ write_time h mi s @ [46] @ write_digits9 nanos_frac)"

section \<open>The reference calendar\<close>

definition leap :: "int \<Rightarrow> bool" where
  "leap y \<longleftrightarrow> y mod 4 = 0 \<and> (y mod 100 \<noteq> 0 \<or> y mod 400 = 0)"

definition month_days :: "int \<Rightarrow> int \<Rightarrow> int" where
  "month_days y m = (if m = 2 then (if leap y then 29 else 28) else if m \<in> {4, 6, 9, 11} then 30 else 31)"

fun next_date :: "int \<times> int \<times> int \<Rightarrow> int \<times> int \<times> int" where
  "next_date (y, m, d) =
     (if d < month_days y m then (y, m, d + 1)
      else if m < 12 then (y, m + 1, 1) else (y + 1, 1, 1))"

text \<open>
  A day number \<open>z\<close> counted from 1 March of year 0 as the \<open>k\<close>-th day of the year that begins on
  1 March of year \<open>y\<close>: the year is split into era, century, four-year group and year of the group.
\<close>

definition rep_at :: "int \<Rightarrow> int \<Rightarrow> int \<Rightarrow> int \<Rightarrow> int \<Rightarrow> int \<Rightarrow> int \<Rightarrow> bool" where
  "rep_at z y k e b q r \<longleftrightarrow>
     z = 146097 * e + 36524 * b + 1461 * q + 365 * r + k \<and> y = 400 * e + 100 * b + 4 * q + r \<and>
     0 \<le> e \<and> 0 \<le> b \<and> b \<le> 3 \<and> 0 \<le> q \<and> q \<le> 24 \<and> 0 \<le> r \<and> r \<le> 3 \<and> 0 \<le> k \<and>
     (k \<le> 364 \<or> k = 365 \<and> r = 3 \<and> (q < 24 \<or> b = 3))"

definition rep :: "int \<Rightarrow> int \<Rightarrow> int \<Rightarrow> bool" where
  "rep z y k \<longleftrightarrow> (\<exists>e b q r. rep_at z y k e b q r)"

lemma leap_group:
  assumes "0 \<le> b" "b \<le> 3" "0 \<le> q" "q \<le> 24" "0 \<le> r" "r \<le> (3 :: int)"
  shows "leap (400 * e + 100 * b + 4 * q + r + 1) \<longleftrightarrow> r = 3 \<and> (q < 24 \<or> b = 3)"
proof -
  let ?y = "400 * e + 100 * b + 4 * q + r + 1"
  have "?y = (r + 1) + (100 * e + 25 * b + q) * 4" by simp
  then have "?y mod 4 = (r + 1) mod 4" by (simp only: mod_mult_self1)
  then have 4: "?y mod 4 = 0 \<longleftrightarrow> r = 3" using assms by presburger
  have "?y = (4 * q + r + 1) + (4 * e + b) * 100" by simp
  then have 100: "?y mod 100 = (4 * q + r + 1) mod 100" by (simp only: mod_mult_self1)
  have "?y = (100 * b + 4 * q + r + 1) + e * 400" by simp
  then have 400: "?y mod 400 = (100 * b + 4 * q + r + 1) mod 400" by (simp only: mod_mult_self1)
  show ?thesis
  proof (cases "r = 3")
    case True
    have c: "?y mod 100 \<noteq> 0" if "q < 24"
      using that assms True unfolding 100 by (subst mod_pos_pos_trivial) auto
    have d: "?y mod 100 = 0" if "q = 24" unfolding 100 using that True by simp
    have f: "?y mod 400 = 0 \<longleftrightarrow> b = 3" if "q = 24"
    proof (cases "b = 3")
      case b: True
      show ?thesis unfolding 400 using b that True by simp
    next
      case False
      then have "0 < 100 * b + 4 * q + r + 1" "100 * b + 4 * q + r + 1 < 400" using assms that True by auto
      then show ?thesis unfolding 400 using False by simp
    qed
    show ?thesis using 4 c d f assms True unfolding leap_def by (cases "q < 24") auto
  qed (simp add: leap_def 4)
qed

lemma rep_Suc:
  assumes "rep z y k"
  shows "if k < 364 \<or> k = 364 \<and> leap (y + 1) then rep (z + 1) y (k + 1) else rep (z + 1) (y + 1) 0"
proof -
  obtain e b q r where "rep_at z y k e b q r" using assms by (auto simp: rep_def)
  then have r: "z = 146097 * e + 36524 * b + 1461 * q + 365 * r + k"
    "y = 400 * e + 100 * b + 4 * q + r" "0 \<le> e" "0 \<le> b" "b \<le> 3" "0 \<le> q" "q \<le> 24" "0 \<le> r" "r \<le> 3" "0 \<le> k"
    "k \<le> 364 \<or> k = 365 \<and> r = 3 \<and> (q < 24 \<or> b = 3)"
    by (auto simp: rep_at_def)
  have leap: "leap (y + 1) \<longleftrightarrow> r = 3 \<and> (q < 24 \<or> b = 3)" using leap_group r by simp
  show ?thesis
  proof (cases "k < 364 \<or> k = 364 \<and> leap (y + 1)")
    case True
    then have "rep_at (z + 1) y (k + 1) e b q r"
      using r(1-10) leap by (simp add: rep_at_def) linarith
    then show ?thesis using True unfolding rep_def by auto
  next
    case False
    then have k: "k = 364 \<and> \<not> (r = 3 \<and> (q < 24 \<or> b = 3)) \<or> k = 365 \<and> r = 3 \<and> (q < 24 \<or> b = 3)"
      using r(10,11) leap by linarith
    have "rep (z + 1) (y + 1) 0"
    proof (cases "k = 365")
      case True
      then have "rep_at (z + 1) (y + 1) 0 e b (q + 1) 0 \<or> rep_at (z + 1) (y + 1) 0 (e + 1) 0 0 0"
        using r(1-9) k by (cases "q < 24") (simp_all add: rep_at_def)
      then show ?thesis unfolding rep_def by auto
    next
      case False
      then have "rep_at (z + 1) (y + 1) 0 e b q (r + 1) \<or> rep_at (z + 1) (y + 1) 0 e (b + 1) 0 0"
        using r(1-9) k by (cases "r < 3") (simp_all add: rep_at_def)
      then show ?thesis unfolding rep_def by auto
    qed
    then show ?thesis by (simp only: False if_False)
  qed
qed

text \<open>Month, day and year carry of the \<open>k\<close>-th day of a year that begins in March.\<close>

definition date_of :: "int \<Rightarrow> int \<Rightarrow> int \<times> int \<times> int" where
  "date_of y k =
     (let mp = (5 * k + 2) div 153; d = k - (153 * mp + 2) div 5 + 1;
          m = (if mp < 10 then mp + 3 else mp - 9) in (if m \<le> 2 then y + 1 else y, m, d))"

lemma div_unique_int: "n * q \<le> x \<Longrightarrow> x < n * q + n \<Longrightarrow> x div n = (q :: int)"
  by (rule int_div_pos_eq [of x n q "x - n * q"]) simp_all

lemma year_of_era:
  assumes "rep_at z y k e b q r"
  defines "doe \<equiv> 36524 * b + 1461 * q + 365 * r + k"
  shows "z div 146097 = e" "z - e * 146097 = doe"
    "(doe - doe div 1460 + doe div 36524 - doe div 146096) div 365 = 100 * b + 4 * q + r"
    "doe - (365 * (100 * b + 4 * q + r) + (100 * b + 4 * q + r) div 4 - (100 * b + 4 * q + r) div 100) = k"
proof -
  have r: "z = 146097 * e + doe" "0 \<le> e" "0 \<le> b" "b \<le> 3" "0 \<le> q" "q \<le> 24" "0 \<le> r" "r \<le> 3" "0 \<le> k"
    "k \<le> 364 \<or> k = 365 \<and> r = 3 \<and> (q < 24 \<or> b = 3)"
    using assms(1) by (auto simp: rep_at_def doe_def)
  have doe: "0 \<le> doe" "doe < 146097" using r unfolding doe_def by linarith+
  show "z div 146097 = e" using r(1) doe by (intro div_unique_int) linarith+
  show "z - e * 146097 = doe" using r(1) by simp
  have "(100 * b + 4 * q + r) div 4 = 25 * b + q" by (rule div_unique_int) (use r(2-9) in simp_all)
  moreover have "(100 * b + 4 * q + r) div 100 = b" by (rule div_unique_int) (use r(2-9) in simp_all)
  ultimately show "doe - (365 * (100 * b + 4 * q + r) + (100 * b + 4 * q + r) div 4 - (100 * b + 4 * q + r) div 100) = k"
    unfolding doe_def by simp
  define t where "t = 24 * b + q + 365 * r + k"
  have a: "doe div 1460 = 25 * b + q + (if t < 1460 then 0 else 1)"
    using r unfolding doe_def t_def by (intro div_unique_int; cases "24 * b + q + 365 * r + k < 1460"; simp; linarith)
  have bc: "doe div 36524 - doe div 146096 = b"
  proof (cases "doe = 146096")
    case True
    then show ?thesis using r unfolding doe_def by simp
  next
    case False
    then have "doe div 36524 = b" using r unfolding doe_def by (intro div_unique_int; linarith)
    moreover have "doe div 146096 = 0" using False doe by simp
    ultimately show ?thesis by simp
  qed
  have "(doe - doe div 1460 + (doe div 36524 - doe div 146096)) div 365 = 100 * b + 4 * q + r"
    unfolding a bc
  proof (intro div_unique_int)
    show "365 * (100 * b + 4 * q + r) \<le> doe - (25 * b + q + (if t < 1460 then 0 else 1)) + b"
      using r unfolding doe_def t_def by (cases "24 * b + q + 365 * r + k < 1460"; simp; linarith)
    show "doe - (25 * b + q + (if t < 1460 then 0 else 1)) + b < 365 * (100 * b + 4 * q + r) + 365"
      using r unfolding doe_def t_def by (cases "24 * b + q + 365 * r + k < 1460"; simp; linarith)
  qed
  then show "(doe - doe div 1460 + doe div 36524 - doe div 146096) div 365 = 100 * b + 4 * q + r"
    by (simp add: algebra_simps)
qed

lemma civil_rep:
  assumes "rep z y k"
  shows "civil_from_days (z - 719468) = date_of y k"
proof -
  obtain e b q r where ra: "rep_at z y k e b q r" using assms by (auto simp: rep_def)
  note f = year_of_era [OF ra]
  have z: "0 \<le> z" "y = 100 * b + 4 * q + r + e * 400" using ra by (auto simp: rep_at_def)
  then have "z sdiv 146097 = e" using f(1) by (cases "z = 0") (simp_all add: signed_divide_int_def)
  moreover have "(if z \<ge> 0 then z else z - 146096) = z" using z(1) by simp
  ultimately show ?thesis
    by (simp only: civil_from_days_def Let_def diff_add_cancel f(2-4) date_of_def z(2))
qed

lemma date_of_eq:
  assumes "153 * mp \<le> 5 * k + 2" "5 * k + 2 < 153 * mp + 153"
  shows "date_of y k =
    (let m = (if mp < 10 then mp + 3 else mp - 9) in
     (if m \<le> 2 then y + 1 else y, m, k - (153 * mp + 2) div 5 + 1))"
proof -
  have "(5 * k + 2) div 153 = mp" by (rule div_unique_int) (use assms in auto)
  then show ?thesis by (simp add: date_of_def Let_def)
qed

text \<open>The table of months.\<close>

lemma date_of_month:
  "0 \<le> k \<Longrightarrow> k < 31 \<Longrightarrow> date_of y k = (y, 3, k - 0 + 1)"
  "31 \<le> k \<Longrightarrow> k < 61 \<Longrightarrow> date_of y k = (y, 4, k - 31 + 1)"
  "61 \<le> k \<Longrightarrow> k < 92 \<Longrightarrow> date_of y k = (y, 5, k - 61 + 1)"
  "92 \<le> k \<Longrightarrow> k < 122 \<Longrightarrow> date_of y k = (y, 6, k - 92 + 1)"
  "122 \<le> k \<Longrightarrow> k < 153 \<Longrightarrow> date_of y k = (y, 7, k - 122 + 1)"
  "153 \<le> k \<Longrightarrow> k < 184 \<Longrightarrow> date_of y k = (y, 8, k - 153 + 1)"
  "184 \<le> k \<Longrightarrow> k < 214 \<Longrightarrow> date_of y k = (y, 9, k - 184 + 1)"
  "214 \<le> k \<Longrightarrow> k < 245 \<Longrightarrow> date_of y k = (y, 10, k - 214 + 1)"
  "245 \<le> k \<Longrightarrow> k < 275 \<Longrightarrow> date_of y k = (y, 11, k - 245 + 1)"
  "275 \<le> k \<Longrightarrow> k < 306 \<Longrightarrow> date_of y k = (y, 12, k - 275 + 1)"
  "306 \<le> k \<Longrightarrow> k < 337 \<Longrightarrow> date_of y k = (y + 1, 1, k - 306 + 1)"
  "337 \<le> k \<Longrightarrow> k < 366 \<Longrightarrow> date_of y k = (y + 1, 2, k - 337 + 1)"
  subgoal by (subst date_of_eq [of 0]) (simp_all add: Let_def)
  subgoal by (subst date_of_eq [of 1]) (simp_all add: Let_def)
  subgoal by (subst date_of_eq [of 2]) (simp_all add: Let_def)
  subgoal by (subst date_of_eq [of 3]) (simp_all add: Let_def)
  subgoal by (subst date_of_eq [of 4]) (simp_all add: Let_def)
  subgoal by (subst date_of_eq [of 5]) (simp_all add: Let_def)
  subgoal by (subst date_of_eq [of 6]) (simp_all add: Let_def)
  subgoal by (subst date_of_eq [of 7]) (simp_all add: Let_def)
  subgoal by (subst date_of_eq [of 8]) (simp_all add: Let_def)
  subgoal by (subst date_of_eq [of 9]) (simp_all add: Let_def)
  subgoal by (subst date_of_eq [of 10]) (simp_all add: Let_def)
  subgoal by (subst date_of_eq [of 11]) (simp_all add: Let_def)
  done

text \<open>Within a month, and from the last day of a month to the first of the next.\<close>

lemma date_of_next_month:
  "0 \<le> k \<Longrightarrow> k < 31 \<Longrightarrow> next_date (date_of y k) = date_of y (k + 1)"
  "31 \<le> k \<Longrightarrow> k < 61 \<Longrightarrow> next_date (date_of y k) = date_of y (k + 1)"
  "61 \<le> k \<Longrightarrow> k < 92 \<Longrightarrow> next_date (date_of y k) = date_of y (k + 1)"
  "92 \<le> k \<Longrightarrow> k < 122 \<Longrightarrow> next_date (date_of y k) = date_of y (k + 1)"
  "122 \<le> k \<Longrightarrow> k < 153 \<Longrightarrow> next_date (date_of y k) = date_of y (k + 1)"
  "153 \<le> k \<Longrightarrow> k < 184 \<Longrightarrow> next_date (date_of y k) = date_of y (k + 1)"
  "184 \<le> k \<Longrightarrow> k < 214 \<Longrightarrow> next_date (date_of y k) = date_of y (k + 1)"
  "214 \<le> k \<Longrightarrow> k < 245 \<Longrightarrow> next_date (date_of y k) = date_of y (k + 1)"
  "245 \<le> k \<Longrightarrow> k < 275 \<Longrightarrow> next_date (date_of y k) = date_of y (k + 1)"
  "275 \<le> k \<Longrightarrow> k < 306 \<Longrightarrow> next_date (date_of y k) = date_of y (k + 1)"
  "306 \<le> k \<Longrightarrow> k < 337 \<Longrightarrow> next_date (date_of y k) = date_of y (k + 1)"
  subgoal using date_of_month(1) [of k y] date_of_month(1) [of "k + 1" y] date_of_month(2) [of 31 y]
    by (cases "k = 30") (simp_all add: month_days_def)
  subgoal using date_of_month(2) [of k y] date_of_month(2) [of "k + 1" y] date_of_month(3) [of 61 y]
    by (cases "k = 60") (simp_all add: month_days_def)
  subgoal using date_of_month(3) [of k y] date_of_month(3) [of "k + 1" y] date_of_month(4) [of 92 y]
    by (cases "k = 91") (simp_all add: month_days_def)
  subgoal using date_of_month(4) [of k y] date_of_month(4) [of "k + 1" y] date_of_month(5) [of 122 y]
    by (cases "k = 121") (simp_all add: month_days_def)
  subgoal using date_of_month(5) [of k y] date_of_month(5) [of "k + 1" y] date_of_month(6) [of 153 y]
    by (cases "k = 152") (simp_all add: month_days_def)
  subgoal using date_of_month(6) [of k y] date_of_month(6) [of "k + 1" y] date_of_month(7) [of 184 y]
    by (cases "k = 183") (simp_all add: month_days_def)
  subgoal using date_of_month(7) [of k y] date_of_month(7) [of "k + 1" y] date_of_month(8) [of 214 y]
    by (cases "k = 213") (simp_all add: month_days_def)
  subgoal using date_of_month(8) [of k y] date_of_month(8) [of "k + 1" y] date_of_month(9) [of 245 y]
    by (cases "k = 244") (simp_all add: month_days_def)
  subgoal using date_of_month(9) [of k y] date_of_month(9) [of "k + 1" y] date_of_month(10) [of 275 y]
    by (cases "k = 274") (simp_all add: month_days_def)
  subgoal using date_of_month(10) [of k y] date_of_month(10) [of "k + 1" y] date_of_month(11) [of 306 y]
    by (cases "k = 305") (simp_all add: month_days_def)
  subgoal using date_of_month(11) [of k y] date_of_month(11) [of "k + 1" y] date_of_month(12) [of 337 y]
    by (cases "k = 336") (simp_all add: month_days_def)
  done

lemma date_of_Suc:
  assumes "0 \<le> k" "k \<le> 364 \<or> k = 365 \<and> leap (y + 1)"
  shows "next_date (date_of y k) =
    (if k < 364 \<or> k = 364 \<and> leap (y + 1) then date_of y (k + 1) else date_of (y + 1) 0)"
proof -
  consider "k < 337" | "337 \<le> k" "k < 364" | "k = 364" | "k = 365" using assms(2) by linarith
  then show ?thesis
  proof cases
    case 1
    then have "next_date (date_of y k) = date_of y (k + 1)"
      using date_of_next_month [of k y] assms(1) by (metis not_le)
    then show ?thesis using 1 by simp
  next
    case 2
    then show ?thesis using date_of_month(12) [of k y] date_of_month(12) [of "k + 1" y]
      by (simp add: month_days_def)
  next
    case 3
    then show ?thesis using date_of_month(12) [of 364 y] date_of_month(12) [of 365 y] date_of_month(1) [of 0 "y + 1"]
      by (simp add: month_days_def)
  next
    case 4
    then show ?thesis using assms date_of_month(12) [of 365 y] date_of_month(1) [of 0 "y + 1"]
      by (simp add: month_days_def)
  qed
qed

lemma civil_rep_next:
  assumes "rep z y k"
  shows "\<exists>y' k'. rep (z + 1) y' k' \<and> date_of y' k' = next_date (date_of y k)"
proof -
  obtain e b q r where ra: "rep_at z y k e b q r" using assms by (auto simp: rep_def)
  then have "leap (y + 1) \<longleftrightarrow> r = 3 \<and> (q < 24 \<or> b = 3)" "0 \<le> k"
    using leap_group [of b q r e] by (auto simp: rep_at_def)
  then have "k \<le> 364 \<or> k = 365 \<and> leap (y + 1)" using ra by (auto simp: rep_at_def)
  from date_of_Suc [OF \<open>0 \<le> k\<close> this] rep_Suc [OF assms] show ?thesis
    by (metis (full_types))
qed

lemma civil_run: "\<exists>y k. rep (int n + 719468) y k \<and> date_of y k = (next_date ^^ n) (1970, 1, 1)"
proof (induction n)
  case 0
  have "rep_at 719468 1969 306 4 3 17 1" by (simp add: rep_at_def)
  moreover have "date_of 1969 306 = (1970, 1, 1)" by (simp add: date_of_def)
  ultimately show ?case unfolding rep_def by (intro exI [of _ 1969] exI [of _ 306]) auto
next
  case (Suc n)
  then obtain y k where "rep (int n + 719468) y k" "date_of y k = (next_date ^^ n) (1970, 1, 1)" by blast
  with civil_rep_next [OF this(1)] show ?case by (auto simp: ac_simps)
qed

lemma civil_days: "civil_from_days (int n) = (next_date ^^ n) (1970, 1, 1)"
  using civil_run [of n] civil_rep by fastforce

text \<open>The components are small: the year has four digits for every \<open>u64\<close> of nanoseconds.\<close>

lemma date_of_range:
  assumes "0 \<le> k" "k < 366" "date_of y k = (y', m, d)"
  shows "y \<le> y'" "y' \<le> y + 1" "1 \<le> m" "m \<le> 12" "1 \<le> d" "d \<le> 31"
proof -
  define mp where "mp = (5 * k + 2) div 153"
  have mp: "0 \<le> mp" "mp < 12" "153 * mp \<le> 5 * k + 2" "5 * k + 2 < 153 * mp + 153"
    using assms(1,2) unfolding mp_def by linarith+
  have e: "date_of y k = (let m = (if mp < 10 then mp + 3 else mp - 9) in
      (if m \<le> 2 then y + 1 else y, m, k - (153 * mp + 2) div 5 + 1))"
    by (rule date_of_eq [OF mp(3,4)])
  have d: "(153 * mp + 2) div 5 \<le> k" "k - (153 * mp + 2) div 5 < 31" using mp by linarith+
  show "y \<le> y'" "y' \<le> y + 1" "1 \<le> m" "m \<le> 12" "1 \<le> d" "d \<le> 31"
    using assms(3) e mp d by (auto simp: Let_def split: if_splits)
qed

lemma rep_year_bound: "rep z y k \<Longrightarrow> 365 * y \<le> z \<and> 0 \<le> y \<and> 0 \<le> k \<and> k < 366"
  by (auto simp: rep_def rep_at_def)

lemma civil_range:
  assumes "n < 213505" "civil_from_days (int n) = (y, m, d)"
  shows "0 \<le> y \<and> y < 10000 \<and> 1 \<le> m \<and> m \<le> 12 \<and> 1 \<le> d \<and> d \<le> 31"
proof -
  obtain y0 k where r: "rep (int n + 719468) y0 k" using civil_run by blast
  then have "date_of y0 k = (y, m, d)" using civil_rep [OF r] assms(2) by simp
  with rep_year_bound [OF r] date_of_range [of k y0 y m d] assms(1) show ?thesis by linarith
qed

lemma padded_numeral:
  "padded (numeral n) v = padded (pred_numeral n) (v div 10) @ [digit (v mod 10)]"
  by (simp only: numeral_eq_Suc [of n] padded.simps)

lemma padded_digits_eq:
  "v < 100 \<Longrightarrow> write_digits2 v = padded 2 v"
  "v < 1000 \<Longrightarrow> write_digits3 v = padded 3 v"
  "v < 10000 \<Longrightarrow> write_digits4 v = padded 4 v"
  "v < 1000000 \<Longrightarrow> write_digits6 v = padded 6 v"
  "v < 1000000000 \<Longrightarrow> write_digits9 v = padded 9 v"
proof -
  have pad: "padded 0 v = []" "padded 1 v = [digit (v mod 10)]" for v by simp_all
  have lead: "v < c * 10 \<Longrightarrow> v div c mod 10 = v div c" for c by (simp add: less_mult_imp_div_less mult.commute)
  note un = padded_numeral pred_numeral_simps BitM.simps pad div_mult2_eq [symmetric] append_Nil append_Cons
    arith_simps
  show "v < 100 \<Longrightarrow> write_digits2 v = padded 2 v"
    unfolding un write_digits2_def using lead [of 10] by simp
  show "v < 1000 \<Longrightarrow> write_digits3 v = padded 3 v"
    unfolding un write_digits3_def using lead [of 100] by simp
  show "v < 10000 \<Longrightarrow> write_digits4 v = padded 4 v"
    unfolding un write_digits4_def using lead [of 1000] by simp
  show "v < 1000000 \<Longrightarrow> write_digits6 v = padded 6 v"
    unfolding un write_digits6_def using lead [of 100000] by simp
  show "v < 1000000000 \<Longrightarrow> write_digits9 v = padded 9 v"
    unfolding un write_digits9_def using lead [of 100000000] by simp
qed

lemma take_padded: "take k (padded (k + m) v) = padded k (v div 10 ^ m)"
proof (induction m arbitrary: v)
  case 0
  then show ?case using length_padded [of k v] by simp
next
  case (Suc m)
  have "take k (padded (k + Suc m) v) = take k (padded (k + m) (v div 10))" by simp
  also have "\<dots> = padded k (v div 10 div 10 ^ m)" by (rule Suc)
  finally show ?case by (simp add: div_mult2_eq)
qed

text \<open>The reference text of an instant: the calendar date, the time of day and \<open>p\<close> fraction digits.\<close>

definition fix_text :: "nat \<Rightarrow> u64 \<Rightarrow> bytes" where
  "fix_text p nanos =
     (let secs = unat nanos div 1000000000;
          (y, m, d) = (next_date ^^ (secs div 86400)) (1970, 1, 1) in
      padded 4 (nat y) @ padded 2 (nat m) @ padded 2 (nat d) @ [45] @
      padded 2 (secs mod 86400 div 3600) @ [58] @ padded 2 (secs mod 86400 mod 3600 div 60) @ [58] @
      padded 2 (secs mod 86400 mod 60) @ [46] @ take p (padded 9 (unat nanos mod 1000000000)))"

lemma days_bound: "unat (nanos :: u64) div 1000000000 div 86400 < 213505"
proof -
  have "unat nanos < 2 ^ 64" using unsigned_less [of nanos] by simp
  then show ?thesis by (simp add: div_less_iff_less_mult)
qed

lemma fix_text_run:
  "to_fix_timestamp nanos = fix_text 3 nanos \<and> to_fix_timestamp_us nanos = fix_text 6 nanos \<and>
   to_fix_timestamp_ns nanos = fix_text 9 nanos"
proof -
  let ?secs = "unat nanos div 1000000000" and ?frac = "unat nanos mod 1000000000"
  obtain y m d where c: "civil_from_days (int (?secs div 86400)) = (y, m, d)" by (metis prod_cases3)
  then have n: "(next_date ^^ (?secs div 86400)) (1970, 1, 1) = (y, m, d)" by (simp only: civil_days)
  have r: "0 \<le> y \<and> y < 10000 \<and> 1 \<le> m \<and> m \<le> 12 \<and> 1 \<le> d \<and> d \<le> 31"
    by (rule civil_range [OF days_bound c])
  have "?secs mod 86400 < 86400" "?secs mod 86400 mod 3600 < 3600" "?secs mod 86400 mod 60 < 60"
    by simp_all
  then have t: "?secs mod 86400 div 3600 < 100" "?secs mod 86400 mod 3600 div 60 < 100"
    "?secs mod 86400 mod 60 < 100"
    by (auto simp: div_less_iff_less_mult)
  have f: "?frac < 1000000000" "?frac div 1000000 < 1000" "?frac div 1000 < 1000000"
    by (simp_all add: div_less_iff_less_mult)
  have tk: "take 3 (padded 9 ?frac) = padded 3 (?frac div 1000000)"
    "take 6 (padded 9 ?frac) = padded 6 (?frac div 1000)" "take 9 (padded 9 ?frac) = padded 9 ?frac"
    using take_padded [of 3 6 ?frac] take_padded [of 6 3 ?frac] length_padded [of 9 ?frac] by simp_all
  have dt: "nat y < 10000" "nat m < 100" "nat d < 100" using r by auto
  show ?thesis
    unfolding to_fix_timestamp_def to_fix_timestamp_us_def to_fix_timestamp_ns_def fix_text_def
      to_utc_components_def Let_def c n prod.case write_date_def write_time_def tk
      padded_digits_eq(1) [OF dt(2)] padded_digits_eq(1) [OF dt(3)] padded_digits_eq(3) [OF dt(1)]
      padded_digits_eq(1) [OF t(1)] padded_digits_eq(1) [OF t(2)] padded_digits_eq(1) [OF t(3)]
      padded_digits_eq(2) [OF f(2)] padded_digits_eq(4) [OF f(3)] padded_digits_eq(5) [OF f(1)]
    by simp
qed

lemma length_fix_text: "length (fix_text p nanos) = 18 + min p 9"
  by (simp add: fix_text_def Let_def min.commute split: prod.split)

lemma stamp_length: "length (to_fix_timestamp nanos) = 21"
  using length_fix_text [of 3 nanos] fix_text_run [of nanos] by simp

lemma stamp_no_soh: "SOH \<notin> set (to_fix_timestamp nanos)"
proof -
  have p: "SOH \<notin> set (padded k v)" for k v
    using padded_digits [of k v] by (auto simp: list_all_iff is_digit_def SOH_def)
  then have "SOH \<notin> set (fix_text 3 nanos)"
    using in_set_takeD [of SOH 3 "padded 9 (unat nanos mod 1000000000)"]
    by (auto simp: fix_text_def Let_def SOH_def split: prod.split)
  then show ?thesis using fix_text_run by simp
qed

section \<open>The counter clock\<close>

lemma spin_wait_done:
  "sorted (ts @ t # us) \<Longrightarrow> t0 + 2000000 \<le> t \<Longrightarrow> us \<noteq> [] \<Longrightarrow>
   \<exists>t' vs. spin_wait t0 (ts @ t # us) = Some (t' # vs) \<and> t0 + 2000000 \<le> t'"
proof (induction ts)
  case Nil
  then show ?case by (cases us) auto
next
  case (Cons r ts)
  then have rest: "sorted (ts @ t # us)" "\<forall>x \<in> set (ts @ t # us). r \<le> x" by simp_all
  obtain t' vs where tl: "ts @ t # us = t' # vs" by (cases "ts @ t # us") auto
  then have "r \<le> t'" using rest(2) by simp
  then show ?case using Cons.IH rest(1) Cons.prems tl by (cases "r - t0 < 2000000") auto
qed

text \<open>The nanoseconds of a tick count, without the bounds of machine words.\<close>

definition ticks_ns :: "u64 \<Rightarrow> u64 \<Rightarrow> nat" where
  "ticks_ns f ticks = unat ticks * 1000000000 div unat f"

lemma clock_now_tsc:
  assumes "0 < f" "ticks_ns f tsc + wall < 2 ^ 64 + ticks_ns f tsc0" "tsc0 \<le> tsc" 
  shows "unat (hr_nanos (clock_now (new_clock Tsc f tsc0 wall) tsc any)) = wall + ticks_ns f tsc - ticks_ns f tsc0"
proof -
  have f: "f \<noteq> 0" using assms(1) by auto
  have "unat tsc0 \<le> unat tsc" using assms(3) by (simp add: word_le_nat_alt)
  then have le: "ticks_ns f tsc0 \<le> ticks_ns f tsc" by (simp add: ticks_ns_def div_le_mono)
  have "hr_nanos (clock_now (new_clock Tsc f tsc0 wall) tsc any) =
      of_nat (ticks_ns f tsc) + (of_nat wall - of_nat (ticks_ns f tsc0))"
    using f by (simp add: clock_now_def new_clock_def tsc_to_nanos_def ticks_ns_def)
  also have "\<dots> = (of_nat (wall + ticks_ns f tsc - ticks_ns f tsc0) :: u64)"
    using le by (simp add: of_nat_diff)
  finally show ?thesis using assms(2) by (simp add: unat_of_nat)
qed

lemma div_diff:
  fixes a b c :: nat
  assumes "a \<le> b" "0 < c"
  shows "(b - a) div c \<le> b div c - a div c" "b div c - a div c \<le> (b - a) div c + 1"
proof -
  have b: "b = a + (b - a)" using assms by simp
  have "b div c = a div c + (b - a) div c + (a mod c + (b - a) mod c) div c"
    by (subst b) (rule div_add1_eq)
  moreover have "(a mod c + (b - a) mod c) div c \<le> 1"
  proof -
    have "a mod c < c" "(b - a) mod c < c" using assms(2) by simp_all
    then have "a mod c + (b - a) mod c < 2 * c" by linarith
    then have "(a mod c + (b - a) mod c) div c < 2" by (rule less_mult_imp_div_less)
    then show ?thesis by simp
  qed
  ultimately show "(b - a) div c \<le> b div c - a div c" "b div c - a div c \<le> (b - a) div c + 1" by simp_all
qed

lemma calibrate_returns:
  assumes "sorted (ts @ t # us)" "t0 + 2000000 \<le> t" "us \<noteq> []"
  shows "calibrate_tsc t0 tsc0 (ts @ t # us) tsc1 \<noteq> None"
  using spin_wait_done [OF assms] by (auto simp: calibrate_tsc_def)

text \<open>A counter that runs at exactly \<open>f\<close> ticks a second is measured as \<open>f\<close>.\<close>

lemma calibrated_exact:
  assumes "unat (tsc1 - tsc0) * 1000000000 = unat f * unat elapsed" "elapsed \<noteq> 0"
  shows "calibrated_freq tsc0 tsc1 elapsed = f"
proof -
  have "0 < unat elapsed" using assms(2) by (simp add: unat_gt_0)
  then show ?thesis using assms by (simp add: calibrated_freq_def)
qed

section \<open>Properties\<close>

text \<open>
  C15. The calendar. The day-number arithmetic agrees, for every number of days since the epoch,
  with stepping a Gregorian calendar day by day from 1970-01-01.
\<close>

theorem civil_from_days_correct:
  "civil_from_days (int n) = (next_date ^^ n) (1970, 1, 1)"
  by (rule civil_days)

text \<open>
  C16. Timestamp texts. At every precision and for every \<open>u64\<close> of nanoseconds the formatter returns
  the reference text of the instant: zero-padded fields of the calendar date and the time of day
  and the leading digits of the fraction (no component overflows its field), of the documented
  length.
\<close>

theorem fix_timestamp_correct:
  "to_fix_timestamp nanos = fix_text 3 nanos \<and> to_fix_timestamp_us nanos = fix_text 6 nanos \<and>
   to_fix_timestamp_ns nanos = fix_text 9 nanos \<and> length (to_fix_timestamp nanos) = 21 \<and>
   length (to_fix_timestamp_us nanos) = 24 \<and> length (to_fix_timestamp_ns nanos) = 27"
  using fix_text_run [of nanos] by (simp add: length_fix_text)

text \<open>
  C19. The latency a tracker reports. On a counter clock made at \<open>tsc0\<close>, readings follow the wall clock
  and never run backwards, and the latency between two readings is the time of the ticks between them,
  rounded down, or one nanosecond more; this holds as long as the last reading fits \<open>u64\<close>.
\<close>

theorem latency_accuracy:
  assumes "0 < f" "tsc0 \<le> tsc1" "tsc1 \<le> tsc2" "wall + ticks_ns f tsc2 < 2 ^ 64 + ticks_ns f tsc0"
    and "c = new_clock Tsc f tsc0 wall"
  shows "hr_nanos (clock_now c tsc1 w1) \<le> hr_nanos (clock_now c tsc2 w2) \<and>
    unat (hr_nanos (clock_now c tsc0 w1)) = wall \<and>
    ticks_ns f (tsc2 - tsc1) \<le> unat (latency_stop (latency_start c tsc1 w1) tsc2 w2) \<and>
    unat (latency_stop (latency_start c tsc1 w1) tsc2 w2) \<le> ticks_ns f (tsc2 - tsc1) + 1"
proof -
  have u: "unat tsc0 \<le> unat tsc1" "unat tsc1 \<le> unat tsc2" "0 < unat f"
    using assms(1-3) by (simp_all add: word_le_nat_alt word_less_nat_alt)
  then have le: "ticks_ns f tsc0 \<le> ticks_ns f tsc1" "ticks_ns f tsc1 \<le> ticks_ns f tsc2"
    by (simp_all add: ticks_ns_def div_le_mono)
  have n: "unat (hr_nanos (clock_now c tsc w)) = wall + ticks_ns f tsc - ticks_ns f tsc0"
    if "tsc0 \<le> tsc" "ticks_ns f tsc \<le> ticks_ns f tsc2" for tsc w
    using that assms(1,4) unfolding assms(5) by (intro clock_now_tsc) simp_all
  have n1: "unat (hr_nanos (clock_now c tsc1 w1)) = wall + ticks_ns f tsc1 - ticks_ns f tsc0"
    and n2: "unat (hr_nanos (clock_now c tsc2 w2)) = wall + ticks_ns f tsc2 - ticks_ns f tsc0"
    using n assms(2,3) le by simp_all
  then have mono: "hr_nanos (clock_now c tsc1 w1) \<le> hr_nanos (clock_now c tsc2 w2)"
    using le by (simp add: word_le_nat_alt)
  then have "unat (latency_stop (latency_start c tsc1 w1) tsc2 w2) = ticks_ns f tsc2 - ticks_ns f tsc1"
    using n1 n2 le by (simp add: latency_stop_def latency_start_def elapsed_ns_def unat_sub)
  moreover have "unat (tsc2 - tsc1) = unat tsc2 - unat tsc1" using assms(3) by (simp add: unat_sub)
  moreover have "unat tsc2 * 1000000000 - unat tsc1 * 1000000000 = (unat tsc2 - unat tsc1) * 1000000000"
    by (simp add: diff_mult_distrib)
  ultimately show ?thesis
    using mono n [of tsc0 w1] le div_diff [of "unat tsc1 * 1000000000" "unat tsc2 * 1000000000" "unat f"] u
    by (simp add: ticks_ns_def)
qed

theorem latency_accuracy_witness:
  "unat (latency_stop (latency_start (new_clock Tsc 3 0 7) 1 0) 2 0) = 333333333"
proof -
  have "(333333333 :: nat) \<le> unat (latency_stop (latency_start (new_clock Tsc 3 0 7) 1 0) 2 0)"
    using latency_accuracy [of 3 0 1 2 7 "new_clock Tsc 3 0 7" 0 0] by (simp add: ticks_ns_def)
  moreover have "unat (latency_stop (latency_start (new_clock Tsc 3 0 7) 1 0) 2 0) = 333333333"
    by (simp add: latency_stop_def latency_start_def new_clock_def clock_now_def tsc_to_nanos_def elapsed_ns_def)
  ultimately show ?thesis by simp
qed

end
