(* ===== verification/Transport.thy ===== *)
theory Transport
  imports Prelude
begin

text \<open>
  The transport backends: the trait, its configuration and the kernel TCP stub of
  \<open>src/src/transport.rs\<close>, the socket transport of \<open>src/src/transport_tcp.rs\<close>, the in-process
  bus of \<open>src/src/transport_aeron.rs\<close> and the DPDK backend of \<open>src/src/transport_dpdk.rs\<close>.

  A receive takes the buffer's length and returns the bytes written to its front. Every operation
  returns its result and the new state. The operating system's socket is a parameter (\<open>Stream\<close>).
  The locales state what the engine relies on; every backend provides \<open>transport\<close>, and those
  that refuse to send once closed provide \<open>gated_transport\<close>.
\<close>

section \<open>The trait\<close>

datatype IoKind =
  ConnectionReset | BrokenPipe | UnexpectedEof | NotConnected | WouldBlock | TimedOut
| InvalidInput | InvalidData | Unsupported | AlreadyExists | PermissionDenied | WriteZero | OtherKind

datatype TransportMode = Aeron | KernelTcp | Dpdk | OpenOnload

datatype TransportEvent = ConnectedEvent | DisconnectedEvent | DataReceived nat | ErrorEvent IoKind

record TransportConfig =
  tc_mode :: TransportMode
  tc_bind_address :: "bytes option"
  tc_connect_address :: "bytes option"
  tc_port :: u16
  tc_recv_buffer_size :: nat
  tc_send_buffer_size :: nat
  tc_tcp_nodelay :: bool
  tc_aeron_channel :: "bytes option"
  tc_aeron_stream_id :: "32 word"

definition default_transport_config :: TransportConfig where
  "default_transport_config =
     \<lparr>tc_mode = Aeron, tc_bind_address = None, tc_connect_address = None, tc_port = 0,
      tc_recv_buffer_size = 256 * 1024, tc_send_buffer_size = 256 * 1024, tc_tcp_nodelay = True,
      tc_aeron_channel = Some (asc ''aeron:ipc''), tc_aeron_stream_id = 1001\<rparr>"

definition aeron_ipc :: "32 word \<Rightarrow> TransportConfig" where
  "aeron_ipc stream_id = default_transport_config\<lparr>tc_aeron_stream_id := stream_id\<rparr>"

definition kernel_tcp :: TransportConfig where
  "kernel_tcp = default_transport_config\<lparr>tc_mode := KernelTcp\<rparr>"

locale transport =
  fixes send :: "bytes \<Rightarrow> 's \<Rightarrow> (IoKind + nat) \<times> 's"
    and recv :: "nat \<Rightarrow> 's \<Rightarrow> (IoKind + bytes) \<times> 's"
    and close :: "'s \<Rightarrow> 's"
    and is_connected :: "'s \<Rightarrow> bool"
  assumes send_all: "fst (send data s) = Inr n \<Longrightarrow> n = length data"
    and recv_bound: "fst (recv n s) = Inr data \<Longrightarrow> length data \<le> n"
    and close_disconnects: "\<not> is_connected (close s)"
begin

text \<open>What \<open>k\<close> receives into a buffer of \<open>n\<close> bytes deliver, errors delivering nothing.\<close>

primrec receive_n :: "nat \<Rightarrow> nat \<Rightarrow> 's \<Rightarrow> bytes list \<times> 's" where
  "receive_n n 0 s = ([], s)"
| "receive_n n (Suc k) s =
     (let (r, s') = recv n s; (ds, s'') = receive_n n k s' in
      ((case r of Inr d \<Rightarrow> d | Inl e \<Rightarrow> []) # ds, s''))"

lemma receive_n_bound: "list_all (\<lambda>d. length d \<le> n) (fst (receive_n n k s))"
proof (induction k arbitrary: s)
  case 0
  then show ?case by simp
next
  case (Suc k)
  obtain r s' where r: "recv n s = (r, s')" by fastforce
  then have "length (case r of Inr d \<Rightarrow> d | Inl e \<Rightarrow> []) \<le> n"
    using recv_bound [of n s] by (auto split: sum.splits)
  then show ?case using Suc [of s'] r by (simp add: case_prod_beta)
qed

lemma receive_n_total: "length (concat (fst (receive_n n k s))) \<le> n * k"
proof -
  have "list_all (\<lambda>d. length d \<le> n) ds \<Longrightarrow> length (concat ds) \<le> n * length ds" for ds :: "bytes list"
    by (induction ds) auto
  moreover have "length (fst (receive_n n k s)) = k"
    by (induction k arbitrary: s) (simp_all add: case_prod_beta)
  ultimately show ?thesis using receive_n_bound by metis
qed

end

locale gated_transport = transport +
  assumes send_gated: "\<not> is_connected s \<Longrightarrow> send data s = (Inl NotConnected, s)"
    and recv_gated: "\<not> is_connected s \<Longrightarrow> recv n s = (Inl NotConnected, s)"
begin

lemma closed_send: "send data (close s) = (Inl NotConnected, close s)"
  by (rule send_gated [OF close_disconnects])

lemma closed_receives: "receive_n n k (close s) = (replicate k [], close s)"
  by (induction k) (simp_all add: recv_gated [OF close_disconnects])

end

section \<open>KernelTcpTransport\<close>

record KernelTcpTransport =
  kt_connected :: bool
  kt_config :: TransportConfig

definition new_kernel_tcp :: "TransportConfig \<Rightarrow> KernelTcpTransport" where
  "new_kernel_tcp c = \<lparr>kt_connected = False, kt_config = c\<rparr>"

definition kernel_connect :: "KernelTcpTransport \<Rightarrow> KernelTcpTransport" where
  "kernel_connect t = t\<lparr>kt_connected := True\<rparr>"

definition kernel_send :: "bytes \<Rightarrow> KernelTcpTransport \<Rightarrow> (IoKind + nat) \<times> KernelTcpTransport" where
  "kernel_send data t = (if \<not> kt_connected t then Inl NotConnected else Inr (length data), t)"

definition kernel_recv :: "nat \<Rightarrow> KernelTcpTransport \<Rightarrow> (IoKind + bytes) \<times> KernelTcpTransport" where
  "kernel_recv n t = (if \<not> kt_connected t then Inl NotConnected else Inr [], t)"

definition kernel_close :: "KernelTcpTransport \<Rightarrow> KernelTcpTransport" where
  "kernel_close t = t\<lparr>kt_connected := False\<rparr>"

interpretation kernel: gated_transport kernel_send kernel_recv kernel_close kt_connected
  by unfold_locales (auto simp: kernel_send_def kernel_recv_def kernel_close_def split: if_splits)

section \<open>DpdkTransport\<close>

record DpdkStats =
  ds_rx_packets :: u64
  ds_tx_packets :: u64
  ds_rx_bytes :: u64
  ds_tx_bytes :: u64
  ds_rx_errors :: u64
  ds_tx_errors :: u64
  ds_rx_missed :: u64

record DpdkMbuf =
  mb_data_len :: u16
  mb_pkt_len :: u32
  mb_port :: u16
  mb_timestamp :: u64
  mb_data :: bytes

record DpdkConfig =
  dc_eal_args :: "bytes list"
  dc_port_id :: u16
  dc_rx_queues :: u16
  dc_tx_queues :: u16
  dc_rx_ring_size :: u16
  dc_tx_ring_size :: u16
  dc_num_mbufs :: u32
  dc_mbuf_cache_size :: u32
  dc_hw_timestamps :: bool
  dc_poll_core :: "u32 option"
  dc_promiscuous :: bool

definition default_dpdk_config :: DpdkConfig where
  "default_dpdk_config =
     \<lparr>dc_eal_args = [], dc_port_id = 0, dc_rx_queues = 1, dc_tx_queues = 1, dc_rx_ring_size = 1024,
      dc_tx_ring_size = 1024, dc_num_mbufs = 8192, dc_mbuf_cache_size = 256,
      dc_hw_timestamps = False, dc_poll_core = None, dc_promiscuous = False\<rparr>"

record DpdkMempool =
  mp_name :: bytes
  mp_num_mbufs :: u32
  mp_cache_size :: u32
  mp_data_room_size :: u16
  mp_initialized :: bool

definition new_mempool :: "bytes \<Rightarrow> u32 \<Rightarrow> u32 \<Rightarrow> u16 \<Rightarrow> DpdkMempool" where
  "new_mempool name n cache room =
     \<lparr>mp_name = name, mp_num_mbufs = n, mp_cache_size = cache, mp_data_room_size = room,
      mp_initialized = True\<rparr>"

definition allocate_mbuf :: "DpdkMempool \<Rightarrow> DpdkMbuf option" where
  "allocate_mbuf p =
     (if \<not> mp_initialized p then None
      else Some \<lparr>mb_data_len = 0, mb_pkt_len = 0, mb_port = 0, mb_timestamp = 0, mb_data = []\<rparr>)"

record DpdkTransport =
  dp_config :: DpdkConfig
  dp_initialized :: bool
  dp_connected :: bool
  dp_stats :: DpdkStats

definition set_data :: "DpdkMbuf \<Rightarrow> bytes \<Rightarrow> DpdkMbuf" where
  "set_data m bs = m\<lparr>mb_data := bs, mb_data_len := of_nat (length bs), mb_pkt_len := of_nat (length bs)\<rparr>"

definition new_dpdk :: "DpdkConfig \<Rightarrow> DpdkTransport" where
  "new_dpdk config =
     \<lparr>dp_config = config, dp_initialized = False, dp_connected = False,
      dp_stats = \<lparr>ds_rx_packets = 0, ds_tx_packets = 0, ds_rx_bytes = 0, ds_tx_bytes = 0,
        ds_rx_errors = 0, ds_tx_errors = 0, ds_rx_missed = 0\<rparr>\<rparr>"

definition dpdk_initialize :: "DpdkTransport \<Rightarrow> (IoKind + unit) \<times> DpdkTransport" where
  "dpdk_initialize t =
     (if dp_initialized t then (Inl AlreadyExists, t) else (Inr (), t\<lparr>dp_initialized := True\<rparr>))"

definition set_promiscuous :: "bool \<Rightarrow> DpdkTransport \<Rightarrow> DpdkTransport" where
  "set_promiscuous enabled t = t\<lparr>dp_config := (dp_config t)\<lparr>dc_promiscuous := enabled\<rparr>\<rparr>"

definition dpdk_connect :: "DpdkTransport \<Rightarrow> (IoKind + unit) \<times> DpdkTransport" where
  "dpdk_connect t =
     (if \<not> dp_initialized t then (Inl OtherKind, t) else (Inr (), t\<lparr>dp_connected := True\<rparr>))"

definition dpdk_bind :: "DpdkTransport \<Rightarrow> (IoKind + unit) \<times> DpdkTransport" where
  "dpdk_bind t = (if \<not> dp_initialized t then Inl OtherKind else Inr (), t)"

definition dpdk_send :: "bytes \<Rightarrow> DpdkTransport \<Rightarrow> (IoKind + nat) \<times> DpdkTransport" where
  "dpdk_send data t =
     (if \<not> dp_connected t then (Inl NotConnected, t)
      else (Inr (length data),
            t\<lparr>dp_stats := (dp_stats t)\<lparr>ds_tx_packets := ds_tx_packets (dp_stats t) + 1,
               ds_tx_bytes := ds_tx_bytes (dp_stats t) + of_nat (length data)\<rparr>\<rparr>))"

definition dpdk_recv :: "nat \<Rightarrow> DpdkTransport \<Rightarrow> (IoKind + bytes) \<times> DpdkTransport" where
  "dpdk_recv n t = (if \<not> dp_connected t then Inl NotConnected else Inr [], t)"

definition dpdk_close :: "DpdkTransport \<Rightarrow> DpdkTransport" where
  "dpdk_close t = t\<lparr>dp_connected := False\<rparr>"

interpretation dpdk: gated_transport dpdk_send dpdk_recv dpdk_close dp_connected
  by unfold_locales (auto simp: dpdk_send_def dpdk_recv_def dpdk_close_def split: if_splits)

section \<open>StdTcpTransport\<close>

text \<open>The socket: reading up to \<open>n\<close> bytes, writing all of a slice, shutting down, and connecting.\<close>

record 's Stream =
  st_read :: "nat \<Rightarrow> 's \<Rightarrow> (IoKind + bytes) \<times> 's"
  st_write_all :: "bytes \<Rightarrow> 's \<Rightarrow> (IoKind + unit) \<times> 's"
  st_shutdown :: "'s \<Rightarrow> unit"
  st_connect :: "bytes \<Rightarrow> u16 \<Rightarrow> IoKind + 's"
  st_set_nodelay :: "bool \<Rightarrow> 's \<Rightarrow> IoKind + 's"
  st_set_read_timeout :: "nat \<Rightarrow> 's \<Rightarrow> IoKind + 's"

text \<open>What \<open>Read::read\<close> documents: the count it returns is at most the length of the buffer.\<close>

definition read_bounded :: "'s Stream \<Rightarrow> bool" where
  "read_bounded os \<longleftrightarrow> (\<forall>n s d. fst (st_read os n s) = Inr d \<longrightarrow> length d \<le> n)"

record 's StdTcpTransport =
  tt_stream :: "'s option"
  tt_connected :: bool
  tt_config :: TransportConfig

definition new_std_tcp :: "TransportConfig \<Rightarrow> 's StdTcpTransport" where
  "new_std_tcp c = \<lparr>tt_stream = None, tt_connected = False, tt_config = c\<rparr>"

definition tcp_configure :: "'s Stream \<Rightarrow> TransportConfig \<Rightarrow> 's \<Rightarrow> IoKind + 's" where
  "tcp_configure os c s =
     (case st_set_nodelay os (tc_tcp_nodelay c) s of Inl e \<Rightarrow> Inl e
      | Inr s \<Rightarrow> st_set_read_timeout os 100 s)"

definition tcp_from_stream :: "'s Stream \<Rightarrow> 's \<Rightarrow> TransportConfig \<Rightarrow> IoKind + 's StdTcpTransport" where
  "tcp_from_stream os s c =
     (case tcp_configure os c s of Inl e \<Rightarrow> Inl e
      | Inr s \<Rightarrow> Inr \<lparr>tt_stream = Some s, tt_connected = True, tt_config = c\<rparr>)"

definition tcp_connect ::
  "'s Stream \<Rightarrow> bytes \<Rightarrow> u16 \<Rightarrow> 's StdTcpTransport \<Rightarrow> (IoKind + unit) \<times> 's StdTcpTransport" where
  "tcp_connect os address port t =
     (case st_connect os address port of Inl e \<Rightarrow> (Inl e, t)
      | Inr s \<Rightarrow>
          (case tcp_configure os (tt_config t) s of Inl e \<Rightarrow> (Inl e, t)
           | Inr s \<Rightarrow> (Inr (), t\<lparr>tt_stream := Some s, tt_connected := True\<rparr>)))"

definition tcp_send ::
  "'s Stream \<Rightarrow> bytes \<Rightarrow> 's StdTcpTransport \<Rightarrow> (IoKind + nat) \<times> 's StdTcpTransport" where
  "tcp_send os data t =
     (case tt_stream t of None \<Rightarrow> (Inl NotConnected, t)
      | Some s \<Rightarrow>
          (let (r, s') = st_write_all os data s; t' = t\<lparr>tt_stream := Some s'\<rparr> in
           case r of Inl e \<Rightarrow> (Inl e, t') | Inr _ \<Rightarrow> (Inr (length data), t')))"

text \<open>A read that times out is reported as zero bytes, and so is the end of the stream.\<close>

definition tcp_recv ::
  "'s Stream \<Rightarrow> nat \<Rightarrow> 's StdTcpTransport \<Rightarrow> (IoKind + bytes) \<times> 's StdTcpTransport" where
  "tcp_recv os n t =
     (case tt_stream t of None \<Rightarrow> (Inl NotConnected, t)
      | Some s \<Rightarrow>
          (let (r, s') = st_read os n s; t' = t\<lparr>tt_stream := Some s'\<rparr> in
           case r of Inr d \<Rightarrow> (Inr d, t')
           | Inl e \<Rightarrow> (if e = WouldBlock \<or> e = TimedOut then Inr [] else Inl e, t')))"

definition tcp_close :: "'s StdTcpTransport \<Rightarrow> 's StdTcpTransport" where
  "tcp_close t = t\<lparr>tt_stream := None, tt_connected := False\<rparr>"

lemma tcp_transport:
  assumes "read_bounded os"
  shows "transport (tcp_send os) (tcp_recv os) tcp_close tt_connected"
proof
  fix n t data
  show "fst (tcp_recv os n t) = Inr data \<Longrightarrow> length data \<le> n"
    using assms by (auto simp: tcp_recv_def read_bounded_def Let_def split: option.splits prod.splits
        sum.splits if_splits) (metis fst_conv)
qed (auto simp: tcp_send_def tcp_close_def Let_def split: option.splits prod.splits sum.splits)

section \<open>AeronTransport\<close>

text \<open>
  The registry maps a channel to its bus and never forgets one, so an endpoint's pointer to its bus
  is the bus's key. The state of an operation is the registry and the endpoint.
\<close>

type_synonym ChannelKey = "bytes \<times> 32 word"

record AeronFrame =
  af_sender_id :: u64
  af_payload :: bytes

type_synonym Registry = "ChannelKey \<Rightarrow> AeronFrame list option"

record AeronTransport =
  at_endpoint_id :: u64
  at_connected :: bool
  at_config :: TransportConfig
  at_bus :: "ChannelKey option"

type_synonym aeron = "Registry \<times> AeronTransport"

text \<open>\<open>NEXT_ENDPOINT_ID.fetch_add(1)\<close>.\<close>

definition new_aeron :: "u64 \<Rightarrow> TransportConfig \<Rightarrow> AeronTransport \<times> u64" where
  "new_aeron next_id c =
     (\<lparr>at_endpoint_id = next_id, at_connected = False, at_config = c, at_bus = None\<rparr>, next_id + 1)"

definition channel_key :: "AeronTransport \<Rightarrow> bytes \<Rightarrow> u16 \<Rightarrow> ChannelKey" where
  "channel_key t address port =
     (case tc_aeron_channel (at_config t) of Some c \<Rightarrow> c
      | None \<Rightarrow> asc ''aeron:udp?endpoint='' @ address @ asc '':'' @ dec (unat port),
      tc_aeron_stream_id (at_config t))"

definition aeron_open :: "bytes \<Rightarrow> u16 \<Rightarrow> aeron \<Rightarrow> aeron" where
  "aeron_open address port gt =
     (let (g, t) = gt; key = channel_key t address port in
      (if g key = None then g(key \<mapsto> []) else g, t\<lparr>at_bus := Some key, at_connected := True\<rparr>))"

definition bus_frames :: "aeron \<Rightarrow> AeronFrame list" where
  "bus_frames gt = (case at_bus (snd gt) of None \<Rightarrow> [] | Some k \<Rightarrow> (case fst gt k of None \<Rightarrow> [] | Some fs \<Rightarrow> fs))"

definition aeron_send :: "bytes \<Rightarrow> aeron \<Rightarrow> (IoKind + nat) \<times> aeron" where
  "aeron_send data gt =
     (case at_bus (snd gt) of None \<Rightarrow> (Inl NotConnected, gt)
      | Some k \<Rightarrow>
          (Inr (length data),
           (fst gt)(k \<mapsto> bus_frames gt @ [\<lparr>af_sender_id = at_endpoint_id (snd gt), af_payload = data\<rparr>]),
           snd gt))"

text \<open>\<open>position\<close> and \<open>remove\<close>: the first frame of another sender, and the queue without it.\<close>

fun take_foreign :: "u64 \<Rightarrow> AeronFrame list \<Rightarrow> (AeronFrame \<times> AeronFrame list) option" where
  "take_foreign me [] = None"
| "take_foreign me (f # fs) =
     (if af_sender_id f \<noteq> me then Some (f, fs)
      else map_option (\<lambda>(g, gs). (g, f # gs)) (take_foreign me fs))"

definition aeron_recv :: "nat \<Rightarrow> aeron \<Rightarrow> (IoKind + bytes) \<times> aeron" where
  "aeron_recv n gt =
     (case at_bus (snd gt) of None \<Rightarrow> (Inl NotConnected, gt)
      | Some k \<Rightarrow>
          (case take_foreign (at_endpoint_id (snd gt)) (bus_frames gt) of None \<Rightarrow> (Inr [], gt)
           | Some (f, fs) \<Rightarrow>
               (if length (af_payload f) > n then Inl InvalidInput else Inr (af_payload f),
                (fst gt)(k \<mapsto> fs), snd gt)))"

definition aeron_close :: "aeron \<Rightarrow> aeron" where
  "aeron_close gt = (fst gt, (snd gt)\<lparr>at_connected := False\<rparr>)"

definition aeron_poll :: "aeron \<Rightarrow> IoKind + TransportEvent option" where
  "aeron_poll gt =
     (case at_bus (snd gt) of None \<Rightarrow> Inl NotConnected
      | Some k \<Rightarrow> Inr (map_option (\<lambda>(f, _). DataReceived (length (af_payload f)))
          (take_foreign (at_endpoint_id (snd gt)) (bus_frames gt))))"

interpretation aeron: transport aeron_send aeron_recv aeron_close "\<lambda>gt. at_connected (snd gt)"
  by unfold_locales
    (auto simp: aeron_send_def aeron_recv_def aeron_close_def split: option.splits if_splits)

section \<open>build\_transport\<close>

datatype AnyTransport = AnyAeron AeronTransport | AnyStdTcp TransportConfig

definition build_transport :: "u64 \<Rightarrow> TransportConfig \<Rightarrow> (IoKind + AnyTransport) \<times> u64" where
  "build_transport next_id c =
     (case tc_mode c of
        Aeron \<Rightarrow> (let (t, next_id') = new_aeron next_id c in (Inr (AnyAeron t), next_id'))
      | KernelTcp \<Rightarrow> (Inr (AnyStdTcp c), next_id)
      | Dpdk \<Rightarrow> (Inl Unsupported, next_id)
      | OpenOnload \<Rightarrow> (Inl Unsupported, next_id))"

section \<open>Properties of the bus\<close>

definition foreign :: "u64 \<Rightarrow> AeronFrame list \<Rightarrow> AeronFrame list" where
  "foreign me fs = filter (\<lambda>f. af_sender_id f \<noteq> me) fs"

lemma foreign_simps [simp]:
  "foreign me [] = []"
  "foreign me (f # fs) = (if af_sender_id f \<noteq> me then f # foreign me fs else foreign me fs)"
  "foreign me (fs @ gs) = foreign me fs @ foreign me gs"
  by (simp_all add: foreign_def)

lemma take_foreign_eq:
  "take_foreign me fs =
     (case foreign me fs of [] \<Rightarrow> None
      | f # _ \<Rightarrow> Some (f, takeWhile (\<lambda>f. af_sender_id f = me) fs @ tl (dropWhile (\<lambda>f. af_sender_id f = me) fs)))"
  by (induction fs) (auto split: list.splits)

lemma take_foreign_foreign:
  "take_foreign me fs = Some (f, gs) \<Longrightarrow>
   foreign me fs = f # foreign me gs \<and>
   filter (\<lambda>f. af_sender_id f = me) gs = filter (\<lambda>f. af_sender_id f = me) fs"
proof (induction fs arbitrary: gs)
  case Nil
  then show ?case by simp
next
  case (Cons h fs)
  then show ?case by (cases "take_foreign me fs") (auto split: if_splits)
qed

lemma bus_frames_update [simp]:
  "at_bus t = Some k \<Longrightarrow> bus_frames (g(k \<mapsto> fs), t) = fs"
  by (simp add: bus_frames_def)

text \<open>
  Receiving drains the frames of other senders in order and leaves the endpoint's own ones; when there
  are no others, it delivers nothing and leaves the bus alone.
\<close>

abbreviation own_frames :: "u64 \<Rightarrow> AeronFrame list \<Rightarrow> AeronFrame list" where
  "own_frames me fs \<equiv> filter (\<lambda>f. af_sender_id f = me) fs"

lemma aeron_idle:
  assumes "at_bus t = Some k" "foreign (at_endpoint_id t) (bus_frames (g, t)) = []"
  shows "aeron_recv n (g, t) = (Inr [], g, t)" "aeron.receive_n n m (g, t) = (replicate m [], g, t)"
proof -
  show r: "aeron_recv n (g, t) = (Inr [], g, t)" using assms by (simp add: aeron_recv_def take_foreign_eq)
  show "aeron.receive_n n m (g, t) = (replicate m [], g, t)" by (induction m) (simp_all add: aeron.receive_n.simps r)
qed

lemma aeron_drain:
  assumes "at_bus t = Some k" "foreign (at_endpoint_id t) (bus_frames (g, t)) = fs"
    and "list_all (\<lambda>f. length (af_payload f) \<le> n) fs"
  shows "\<exists>g'. aeron.receive_n n (length fs + m) (g, t) = (map af_payload fs @ replicate m [], g', t) \<and>
    bus_frames (g', t) = own_frames (at_endpoint_id t) (bus_frames (g, t))"
  using assms
proof (induction fs arbitrary: g)
  case Nil
  have "own_frames (at_endpoint_id t) (bus_frames (g, t)) = bus_frames (g, t)"
    using Nil.prems(2) by (simp add: foreign_def filter_empty_conv filter_id_conv)
  then show ?case using aeron_idle(2) [OF Nil.prems(1,2)] by simp
next
  case (Cons f fs)
  obtain gs where gs: "take_foreign (at_endpoint_id t) (bus_frames (g, t)) = Some (f, gs)"
    using Cons.prems(2) by (auto simp: take_foreign_eq)
  note tf = take_foreign_foreign [OF gs]
  then have "foreign (at_endpoint_id t) gs = fs" using Cons.prems(2) by simp
  then have "foreign (at_endpoint_id t) (bus_frames (g(k \<mapsto> gs), t)) = fs"
    using Cons.prems(1) by simp
  from Cons.IH [OF Cons.prems(1) this] Cons.prems(3) obtain g' where
    "aeron.receive_n n (length fs + m) (g(k \<mapsto> gs), t) = (map af_payload fs @ replicate m [], g', t)"
    "bus_frames (g', t) = own_frames (at_endpoint_id t) (bus_frames (g, t))"
    using tf Cons.prems(1) by (auto simp del: fun_upd_apply)
  moreover have "aeron_recv n (g, t) = (Inr (af_payload f), g(k \<mapsto> gs), t)"
    using Cons.prems gs by (simp add: aeron_recv_def)
  ultimately show ?case by (intro exI [of _ g']) (simp add: aeron.receive_n.simps fun_upd_def)
qed

fun aeron_send_all :: "bytes list \<Rightarrow> aeron \<Rightarrow> aeron" where
  "aeron_send_all [] gt = gt"
| "aeron_send_all (d # ds) gt = aeron_send_all ds (snd (aeron_send d gt))"

lemma aeron_send_all_frames:
  "at_bus t = Some k \<Longrightarrow>
   snd (aeron_send_all ds (g, t)) = t \<and>
   bus_frames (aeron_send_all ds (g, t)) =
     bus_frames (g, t) @ map (\<lambda>d. \<lparr>af_sender_id = at_endpoint_id t, af_payload = d\<rparr>) ds"
proof (induction ds arbitrary: g)
  case Nil
  then show ?case by simp
next
  case (Cons d ds)
  from Cons.IH [OF Cons.prems] Cons.prems show ?case
    by (simp add: aeron_send_def del: fun_upd_apply)
qed

text \<open>
  C29. Ordered, lossless delivery on the bus. What one endpoint sends on a channel, another endpoint
  of the channel that has nothing else to read receives frame by frame in the order of sending,
  when its buffer holds each frame. Every receive after that delivers nothing, although frames that the
  receiver sent itself may still be on the bus: it never receives its own frames, and they stay there
  for the others.
\<close>

theorem aeron_fifo:
  assumes "at_bus a = Some k" "at_bus b = Some k" "at_endpoint_id a \<noteq> at_endpoint_id b"
    and "foreign (at_endpoint_id b) (bus_frames (g, b)) = []" "\<forall>d \<in> set ds. length d \<le> n"
  shows "\<exists>g'. aeron.receive_n n (length ds + m) (fst (aeron_send_all ds (g, a)), b) = (ds @ replicate m [], g', b) \<and>
    bus_frames (g', b) = own_frames (at_endpoint_id b) (bus_frames (g, b)) \<and> aeron_recv n (g', b) = (Inr [], g', b)"
proof -
  let ?g = "fst (aeron_send_all ds (g, a))"
  let ?fs = "map (\<lambda>d. \<lparr>af_sender_id = at_endpoint_id a, af_payload = d\<rparr>) ds"
  have fr: "bus_frames (?g, b) = bus_frames (g, b) @ ?fs"
    using aeron_send_all_frames [OF assms(1), of ds g] assms(1,2)
    by (simp add: bus_frames_def split: option.splits)
  then have "foreign (at_endpoint_id b) (bus_frames (?g, b)) = ?fs"
    using assms(3,4) by (simp add: foreign_def)
  from aeron_drain [OF assms(2) this, of n m] assms(5) obtain g' where
    g': "aeron.receive_n n (length ds + m) (?g, b) = (ds @ replicate m [], g', b)"
      "bus_frames (g', b) = own_frames (at_endpoint_id b) (bus_frames (?g, b))"
    by (auto simp: list_all_iff comp_def)
  have own: "own_frames (at_endpoint_id b) (bus_frames (?g, b)) = own_frames (at_endpoint_id b) (bus_frames (g, b))"
    using assms(3) by (simp add: fr filter_empty_conv)
  then have "foreign (at_endpoint_id b) (bus_frames (g', b)) = []" by (simp add: g'(2) foreign_def)
  with g' own aeron_idle(1) [OF assms(2)] show ?thesis by auto
qed

definition end_a :: AeronTransport where
  "end_a = \<lparr>at_endpoint_id = 1, at_connected = True, at_config = default_transport_config,
     at_bus = Some (asc ''aeron:ipc'', 1001)\<rparr>"

theorem aeron_fifo_witness:
  "let b = end_a\<lparr>at_endpoint_id := 2\<rparr>; own = \<lparr>af_sender_id = 2, af_payload = [9]\<rparr>; k = (asc ''aeron:ipc'', 1001);
       g = [k \<mapsto> [own]] in
   \<exists>g'. aeron.receive_n 8 3 (fst (aeron_send_all [[1, 2], [3]] (g, end_a)), b) = ([[1, 2], [3], []], g', b) \<and>
     bus_frames (g', b) = [own]"
proof -
  let ?b = "end_a\<lparr>at_endpoint_id := 2\<rparr>" and ?g = "[(asc ''aeron:ipc'', 1001 :: 32 word) \<mapsto> [\<lparr>af_sender_id = 2, af_payload = [9 :: byte]\<rparr>]]"
  have "bus_frames (?g, ?b) = [\<lparr>af_sender_id = 2, af_payload = [9]\<rparr>]" by (simp add: bus_frames_def end_a_def)
  then show ?thesis
    using aeron_fifo [of end_a "(asc ''aeron:ipc'', 1001)" ?b ?g "[[1, 2], [3]]" 8 1]
    by (auto simp: end_a_def numeral_3_eq_3 numeral_2_eq_2)
qed

text \<open>A frame larger than the receive buffer is removed from the bus and lost.\<close>

lemma aeron_oversized_lost:
  assumes "take_foreign (at_endpoint_id t) (bus_frames (g, t)) = Some (f, fs)" "at_bus t = Some k"
    and "n < length (af_payload f)"
  shows "aeron_recv n (g, t) = (Inl InvalidInput, g(k \<mapsto> fs), t)"
  using assms by (simp add: aeron_recv_def)

text \<open>
  Closing an endpoint of the bus does not stop it. Unlike the other backends, which return
  \<open>NotConnected\<close> after \<open>close\<close>, an endpoint that was opened still sends and receives on its bus
  after it is closed, exactly as before.
\<close>

theorem close_gates_all_but_aeron:
  "kernel_send data (kernel_close kt) = (Inl NotConnected, kernel_close kt) \<and>
   dpdk_send data (dpdk_close dt) = (Inl NotConnected, dpdk_close dt) \<and>
   tcp_send os data (tcp_close tt) = (Inl NotConnected, tcp_close tt) \<and>
   fst (aeron_send data (aeron_close gt)) = fst (aeron_send data gt) \<and>
   bus_frames (snd (aeron_send data (aeron_close gt))) = bus_frames (snd (aeron_send data gt)) \<and>
   fst (aeron_recv n (aeron_close gt)) = fst (aeron_recv n gt)"
  using kernel.closed_send dpdk.closed_send
  by (auto simp: tcp_send_def tcp_close_def aeron_send_def aeron_recv_def aeron_close_def bus_frames_def
      split: option.splits)

end
