(* ===== verification/Engine.thy ===== *)
theory Engine
  imports Wire Session Timestamp Transport
begin

text \<open>
  \<open>src/src/engine.rs\<close>: the engine that drives a session over a transport. The world (transport,
  monotonic clock, system clock) is a state of type \<open>'w\<close> with the operations of a \<open>World\<close> record,
  each returning its result and the new world. The application is a state of type \<open>'a\<close> with three
  callbacks; a callback that may use the \<open>EngineContext\<close> is a tree of requests to it and of readings of
  the two clocks, and may panic.

  A result is \<^const>\<open>None\<close> for a panic, and otherwise the \<open>io::Result\<close> with the new states. Of the
  receive buffer the model keeps the bytes that are in use, \<open>recv_buf[..recv_pos]\<close>: the code grows
  the buffer whenever the data does not fit. The main loop takes fuel, and a run that is still
  going when the fuel is used up says so in its result.
\<close>

section \<open>World, engine, application\<close>

record 'w World =
  wo_now :: "'w \<Rightarrow> nat \<times> 'w"
  wo_wall :: "'w \<Rightarrow> u64 \<times> 'w"
  wo_send :: "bytes \<Rightarrow> 'w \<Rightarrow> (IoKind + nat) \<times> 'w"
  wo_recv :: "nat \<Rightarrow> 'w \<Rightarrow> (IoKind + bytes) \<times> 'w"
  wo_close :: "'w \<Rightarrow> 'w"

record 'w Engine =
  fe_world :: 'w
  fe_parser :: FixParser
  fe_session :: Session
  fe_recv :: bytes
  fe_send_buf :: bytes
  fe_should_stop :: bool

datatype 'a app_prog =
  Done "IoKind + unit" 'a
| SendRaw bytes "(IoKind + unit) \<Rightarrow> 'a app_prog"
| RequestStop "'a app_prog"
| AskSession "Session \<Rightarrow> 'a app_prog"
| AskNow "nat \<Rightarrow> 'a app_prog"
| AskWall "u64 \<Rightarrow> 'a app_prog"
| AppPanic

record 'a App =
  ap_on_logon :: "'a \<Rightarrow> 'a app_prog"
  ap_on_message :: "bytes \<Rightarrow> MessageView \<Rightarrow> 'a \<Rightarrow> 'a app_prog"
  ap_on_logout :: "'a \<Rightarrow> (IoKind + unit) \<times> 'a"

definition new_initiator :: "'w \<Rightarrow> Session \<Rightarrow> 'w Engine" where
  "new_initiator w session =
     \<lparr>fe_world = w, fe_parser = new_parser, fe_session = session, fe_recv = [],
      fe_send_buf = replicate 4096 0, fe_should_stop = False\<rparr>"

definition new_acceptor :: "'w \<Rightarrow> Session \<Rightarrow> 'w Engine" where
  "new_acceptor w session = new_initiator w session"

section \<open>Clock readings\<close>

definition instant :: "'w World \<Rightarrow> 'w Engine \<Rightarrow> nat \<times> 'w Engine" where
  "instant W e = (let (t, w) = wo_now W (fe_world e) in (t, e\<lparr>fe_world := w\<rparr>))"

definition now_timestamp :: "'w World \<Rightarrow> 'w Engine \<Rightarrow> bytes \<times> 'w Engine" where
  "now_timestamp W e = (let (n, w) = wo_wall W (fe_world e) in (to_fix_timestamp n, e\<lparr>fe_world := w\<rparr>))"

text \<open>The session operations that read the clock, with the readings each branch makes.\<close>

definition session_sent :: "'w World \<Rightarrow> 'w Engine \<Rightarrow> 'w Engine" where
  "session_sent W e = (let (t, e) = instant W e in e\<lparr>fe_session := on_message_sent t (fe_session e)\<rparr>)"

definition session_received :: "'w World \<Rightarrow> 'w Engine \<Rightarrow> 'w Engine" where
  "session_received W e = (let (t, e) = instant W e in e\<lparr>fe_session := on_message_received t (fe_session e)\<rparr>)"

definition session_logon :: "'w World \<Rightarrow> 'w Engine \<Rightarrow> 'w Engine" where
  "session_logon W e = (let (t, e) = instant W e in e\<lparr>fe_session := on_logon t (fe_session e)\<rparr>)"

definition session_connected :: "'w World \<Rightarrow> 'w Engine \<Rightarrow> 'w Engine" where
  "session_connected W e =
     (if ss_state (fe_session e) = Disconnected \<or> ss_state (fe_session e) = Connecting
      then (let (t, e) = instant W e; (t', e) = instant W e in
            e\<lparr>fe_session := on_connected t t' (fe_session e)\<rparr>)
      else e)"

definition session_validate :: "'w World \<Rightarrow> u64 \<Rightarrow> 'w Engine \<Rightarrow> 'w Engine" where
  "session_validate W q e =
     (let (t, e) = (if q = ss_inbound_seq_num (fe_session e) then instant W e else (0, e)) in
      e\<lparr>fe_session := snd (validate_inbound_seq t q (fe_session e))\<rparr>)"

section \<open>Sending\<close>

text \<open>
  The common course of \<open>send_logon\<close>, \<open>send_heartbeat\<close> and \<open>send_logout\<close>: timestamp, next outbound
  number, build into the send buffer, send, then update the session.
\<close>

definition send_built ::
  "'w World \<Rightarrow> (bytes \<Rightarrow> SessionConfig \<Rightarrow> u64 \<Rightarrow> bytes \<Rightarrow> (bytes \<times> nat) run) \<Rightarrow> (Session \<Rightarrow> Session) \<Rightarrow>
   'w Engine \<Rightarrow> ((IoKind + unit) \<times> 'w Engine) run" where
  "send_built W build after e =
     (let (ts, e) = now_timestamp W e;
          (seq, s) = next_outbound_seq_num (fe_session e);
          e = e\<lparr>fe_session := s\<rparr> in
      Option.bind (build (fe_send_buf e) (ss_config s) seq ts) (\<lambda>(buf, len).
        let (r, w) = wo_send W (take len buf) (fe_world e); e = e\<lparr>fe_world := w, fe_send_buf := buf\<rparr> in
        case r of Inl err \<Rightarrow> Some (Inl err, e)
        | Inr _ \<Rightarrow> Some (Inr (), session_sent W (e\<lparr>fe_session := after (fe_session e)\<rparr>))))"

definition logon_builder :: "bytes \<Rightarrow> SessionConfig \<Rightarrow> u64 \<Rightarrow> bytes \<Rightarrow> (bytes \<times> nat) run" where
  "logon_builder buf c seq ts =
     build_logon buf (sc_fix_version c) (sc_sender_comp_id c) (sc_target_comp_id c) seq ts
       (of_nat (sc_heartbeat_interval c div 1000000000))"

definition heartbeat_builder :: "bytes \<Rightarrow> SessionConfig \<Rightarrow> u64 \<Rightarrow> bytes \<Rightarrow> (bytes \<times> nat) run" where
  "heartbeat_builder buf c seq ts =
     build_heartbeat buf (sc_fix_version c) (sc_sender_comp_id c) (sc_target_comp_id c) seq ts"

definition logout_builder :: "bytes \<Rightarrow> SessionConfig \<Rightarrow> u64 \<Rightarrow> bytes \<Rightarrow> (bytes \<times> nat) run" where
  "logout_builder buf c seq ts =
     build_logout buf (sc_fix_version c) (sc_sender_comp_id c) (sc_target_comp_id c) seq ts"

definition send_logon :: "'w World \<Rightarrow> 'w Engine \<Rightarrow> ((IoKind + unit) \<times> 'w Engine) run" where
  "send_logon W e = send_built W logon_builder (\<lambda>s. s) e"

definition send_heartbeat :: "'w World \<Rightarrow> 'w Engine \<Rightarrow> ((IoKind + unit) \<times> 'w Engine) run" where
  "send_heartbeat W e = send_built W heartbeat_builder (\<lambda>s. s) e"

definition send_logout :: "'w World \<Rightarrow> 'w Engine \<Rightarrow> ((IoKind + unit) \<times> 'w Engine) run" where
  "send_logout W e = send_built W logout_builder on_logout_sent e"

section \<open>The application context\<close>

definition send_raw :: "'w World \<Rightarrow> bytes \<Rightarrow> 'w Engine \<Rightarrow> (IoKind + unit) \<times> 'w Engine" where
  "send_raw W data e =
     (let (r, w) = wo_send W data (fe_world e); e = e\<lparr>fe_world := w\<rparr> in
      case r of Inl err \<Rightarrow> (Inl err, e)
      | Inr _ \<Rightarrow>
          (let e = session_sent W e in
           (Inr (), e\<lparr>fe_session := snd (next_outbound_seq_num (fe_session e))\<rparr>)))"

definition request_stop :: "'w Engine \<Rightarrow> 'w Engine" where
  "request_stop e = e\<lparr>fe_session := on_logout_sent (fe_session e)\<rparr>"

primrec run_app :: "'w World \<Rightarrow> 'a app_prog \<Rightarrow> 'w Engine \<Rightarrow> ((IoKind + unit) \<times> 'a \<times> 'w Engine) run" where
  "run_app W (Done r a) = (\<lambda>e. Some (r, a, e))"
| "run_app W (SendRaw data k) = (\<lambda>e. let (r, e') = send_raw W data e in run_app W (k r) e')"
| "run_app W (RequestStop p) = (\<lambda>e. run_app W p (request_stop e))"
| "run_app W (AskSession k) = (\<lambda>e. run_app W (k (fe_session e)) e)"
| "run_app W (AskNow k) = (\<lambda>e. let (t, e') = instant W e in run_app W (k t) e')"
| "run_app W (AskWall k) = (\<lambda>e. let (t, w) = wo_wall W (fe_world e) in run_app W (k t) (e\<lparr>fe_world := w\<rparr>))"
| "run_app W AppPanic = (\<lambda>e. None)"

text \<open>An application that does not panic itself on the views a parser makes.\<close>

primrec app_ok :: "'a app_prog \<Rightarrow> bool" where
  "app_ok (Done r a) \<longleftrightarrow> True"
| "app_ok (SendRaw data k) \<longleftrightarrow> (\<forall>r. app_ok (k r))"
| "app_ok (RequestStop p) \<longleftrightarrow> app_ok p"
| "app_ok (AskSession k) \<longleftrightarrow> (\<forall>s. app_ok (k s))"
| "app_ok (AskNow k) \<longleftrightarrow> (\<forall>t. app_ok (k t))"
| "app_ok (AskWall k) \<longleftrightarrow> (\<forall>t. app_ok (k t))"
| "app_ok AppPanic \<longleftrightarrow> False"

definition app_total :: "'a App \<Rightarrow> bool" where
  "app_total app \<longleftrightarrow> (\<forall>a. app_ok (ap_on_logon app a)) \<and> (\<forall>mt v a. view_ok v \<and> idx_ok v \<longrightarrow> app_ok (ap_on_message app mt v a))"

section \<open>One message\<close>

type_synonym ('a, 'w) result = "((IoKind + unit) \<times> 'a \<times> 'w Engine) run"

definition call_app :: "'w World \<Rightarrow> 'a app_prog \<Rightarrow> 'w Engine \<Rightarrow> ('a, 'w) result" where
  "call_app W p e = run_app W p e"

text \<open>\<open>m?; rest\<close> for an engine operation that may fail.\<close>

definition then_do ::
  "((IoKind + unit) \<times> 'w Engine) run \<Rightarrow> 'a \<Rightarrow> ('w Engine \<Rightarrow> ('a, 'w) result) \<Rightarrow> ('a, 'w) result" where
  "then_do m a rest =
     Option.bind m (\<lambda>(r, e). case r of Inl err \<Rightarrow> Some (Inl err, a, e) | Inr _ \<Rightarrow> rest e)"

definition dispatch_logon :: "'w World \<Rightarrow> 'a App \<Rightarrow> 'a \<Rightarrow> 'w Engine \<Rightarrow> ('a, 'w) result" where
  "dispatch_logon W app a e =
     (let s = fe_session e in
      if sc_role (ss_config s) = Acceptor \<and> (ss_state s = Disconnected \<or> ss_state s = Connecting) then
        (let e = (if ss_state s = Disconnected then session_connected W e else e);
             e = session_logon W e in
         then_do (send_logon W e) a (\<lambda>e. call_app W (ap_on_logon app a) e))
      else if ss_state s = LogonSent then call_app W (ap_on_logon app a) (session_logon W e)
      else Some (Inr (), a, e))"

definition dispatch_logout :: "'w World \<Rightarrow> 'a App \<Rightarrow> 'a \<Rightarrow> 'w Engine \<Rightarrow> ('a, 'w) result" where
  "dispatch_logout W app a e =
     (let finish = (\<lambda>a e. Some (Inr (), a,
            e\<lparr>fe_session := on_disconnected (fe_session e), fe_should_stop := True\<rparr>)) in
      case ap_on_logout app a of
        (Inl err, a) \<Rightarrow> Some (Inl err, a, e)
      | (Inr _, a) \<Rightarrow>
          (if ss_state (fe_session e) \<noteq> LogoutSent then then_do (send_logout W e) a (finish a)
           else finish a e))"

definition dispatch :: "'w World \<Rightarrow> 'a App \<Rightarrow> bytes \<Rightarrow> MessageView \<Rightarrow> 'a \<Rightarrow> 'w Engine \<Rightarrow> ('a, 'w) result" where
  "dispatch W app mt view a e =
     (if mt = asc ''A'' then dispatch_logon W app a e
      else if mt = asc ''0'' then Some (Inr (), a, e)
      else if mt = asc ''1'' then then_do (send_heartbeat W e) a (\<lambda>e. Some (Inr (), a, e))
      else if mt = asc ''5'' then dispatch_logout W app a e
      else call_app W (ap_on_message app mt view a) e)"

definition handle_message :: "'w World \<Rightarrow> 'a App \<Rightarrow> bytes \<Rightarrow> 'a \<Rightarrow> 'w Engine \<Rightarrow> ('a, 'w) result" where
  "handle_message W app msg a e =
     (case parse (fe_parser e) msg of
        Inl _ \<Rightarrow> Some (Inr (), a, e)
      | Inr (view, _) \<Rightarrow>
          (let e = session_received W e in
           Option.bind (msg_seq_num view) (\<lambda>sq.
             let e = (case sq of Some q \<Rightarrow> session_validate W q e | None \<Rightarrow> e) in
             Option.bind (msg_type view) (\<lambda>mt.
               case mt of None \<Rightarrow> Some (Inr (), a, e) | Some mt \<Rightarrow> dispatch W app mt view a e))))"

section \<open>The loop\<close>

text \<open>The complete messages at the front of \<open>data\<close>; what is left stays in the receive buffer.\<close>

function process_messages :: "'w World \<Rightarrow> 'a App \<Rightarrow> bytes \<Rightarrow> 'a \<Rightarrow> 'w Engine \<Rightarrow> ('a, 'w) result" where
  "process_messages W app data a e =
     (case find_message_boundary data of
        None \<Rightarrow> Some (Inr (), a, e\<lparr>fe_recv := data\<rparr>)
      | Some b \<Rightarrow>
          (case handle_message W app (take b data) a e of
             None \<Rightarrow> None
           | Some (Inl err, a, e) \<Rightarrow> Some (Inl err, a, e\<lparr>fe_recv := drop b data\<rparr>)
           | Some (Inr _, a, e) \<Rightarrow> process_messages W app (drop b data) a e))"
  by pat_completeness auto
termination
proof (relation "measure (\<lambda>(W, app, data, a, e). length data)", goal_cases)
  case (2 W app data a e b)
  then show ?case using boundary_le [of data b] by auto
qed simp

declare process_messages.simps [simp del]

text \<open>After a batch: a disconnected session stops; a requested stop sends its Logout and stops.\<close>

definition after_batch :: "'w World \<Rightarrow> 'w Engine \<Rightarrow> 'w Engine run" where
  "after_batch W e =
     (case ss_state (fe_session e) of
        Disconnected \<Rightarrow> Some (e\<lparr>fe_should_stop := True\<rparr>)
      | LogoutSent \<Rightarrow>
          (let (ts, e) = now_timestamp W e;
               (seq, s) = next_outbound_seq_num (fe_session e) in
           Option.bind (logout_builder (fe_send_buf e) (ss_config s) seq ts) (\<lambda>(buf, len).
             let (_, w) = wo_send W (take len buf) (fe_world e) in
             Some (e\<lparr>fe_world := w, fe_send_buf := buf, fe_session := on_disconnected s,
                     fe_should_stop := True\<rparr>)))
      | _ \<Rightarrow> Some e)"

text \<open>One iteration; \<open>Inr True\<close> is \<open>break\<close>, \<open>Inr False\<close> is the next iteration.\<close>

type_synonym ('a, 'w) flow = "((IoKind + bool) \<times> 'a \<times> 'w Engine) run"

definition drive_timer :: "'w World \<Rightarrow> 'w Engine \<Rightarrow> ((IoKind + bool) \<times> 'w Engine) run" where
  "drive_timer W e =
     (let (t, e) = instant W e in
      Option.bind (check_heartbeat t (fe_session e)) (\<lambda>(action, s).
        let e = e\<lparr>fe_session := s\<rparr> in
        case action of
          Send _ \<Rightarrow>
            (if ss_state s = Active then
               map_option (\<lambda>(r, e). (case r of Inl err \<Rightarrow> Inl err | Inr _ \<Rightarrow> Inr False, e)) (send_heartbeat W e)
             else Some (Inr False, e))
        | Disconnect \<Rightarrow> Some (Inr True, e\<lparr>fe_should_stop := True\<rparr>)
        | NoAction \<Rightarrow> Some (Inr False, e)))"

definition receive_batch :: "'w World \<Rightarrow> 'a App \<Rightarrow> 'a \<Rightarrow> 'w Engine \<Rightarrow> ('a, 'w) flow" where
  "receive_batch W app a e =
     (let (r, w) = wo_recv W 8192 (fe_world e); e = e\<lparr>fe_world := w\<rparr> in
      case r of
        Inl err \<Rightarrow>
          (if err = ConnectionReset \<or> err = BrokenPipe \<or> err = UnexpectedEof
           then Some (Inr True, a,
                  e\<lparr>fe_session := on_disconnected (fe_session e), fe_should_stop := True\<rparr>)
           else Some (Inl err, a, e))
      | Inr data \<Rightarrow>
          (if data = [] then Some (Inr False, a, e)
           else if length data > 8192 then None
           else
             Option.bind (process_messages W app (fe_recv e @ data) a e) (\<lambda>(r, a, e).
               case r of Inl err \<Rightarrow> Some (Inl err, a, e)
               | Inr _ \<Rightarrow> map_option (\<lambda>e. (Inr False, a, e)) (after_batch W e))))"

definition loop_iteration :: "'w World \<Rightarrow> 'a App \<Rightarrow> 'a \<Rightarrow> 'w Engine \<Rightarrow> ('a, 'w) flow" where
  "loop_iteration W app a e =
     (if fe_should_stop e then Some (Inr True, a, e)
      else
        Option.bind (drive_timer W e) (\<lambda>(r, e).
          case r of Inl err \<Rightarrow> Some (Inl err, a, e)
          | Inr True \<Rightarrow> Some (Inr True, a, e)
          | Inr False \<Rightarrow> receive_batch W app a e))"

text \<open>\<open>Some (None, \<dots>)\<close>: still running after \<open>n\<close> iterations.\<close>

fun run_loop :: "nat \<Rightarrow> 'w World \<Rightarrow> 'a App \<Rightarrow> 'a \<Rightarrow> 'w Engine \<Rightarrow>
    ((IoKind + unit) option \<times> 'a \<times> 'w Engine) run" where
  "run_loop 0 W app a e = Some (None, a, e)"
| "run_loop (Suc n) W app a e =
     (case loop_iteration W app a e of
        None \<Rightarrow> None
      | Some (Inl err, a, e) \<Rightarrow> Some (Some (Inl err), a, e)
      | Some (Inr True, a, e) \<Rightarrow> Some (Some (Inr ()), a, e\<lparr>fe_world := wo_close W (fe_world e)\<rparr>)
      | Some (Inr False, a, e) \<Rightarrow> run_loop n W app a e)"

definition run_initiator where
  "run_initiator n W app a e =
     (let e = session_connected W e in
      Option.bind (send_logon W e) (\<lambda>(r, e).
        case r of Inl err \<Rightarrow> Some (Some (Inl err), a, e) | Inr _ \<Rightarrow> run_loop n W app a e))"

definition run_acceptor where
  "run_acceptor n W app a e = run_loop n W app a e"

definition handle_inbound_logon :: "'w World \<Rightarrow> 'w Engine \<Rightarrow> ((IoKind + unit) \<times> 'w Engine) run" where
  "handle_inbound_logon W e = send_logon W (session_logon W (session_connected W e))"

definition initiate_logout :: "'w World \<Rightarrow> 'w Engine \<Rightarrow> ((IoKind + unit) \<times> 'w Engine) run" where
  "initiate_logout W e = send_logout W e"

end
