(* ===== verification/EngineProps.thy ===== *)
theory EngineProps
  imports Engine
begin

text \<open>
  Properties of the engine: what no operation changes, the texts it sends, freedom from panics, the
  independence of the results from how the transport cuts the stream, and the behaviour of the
  handshake and of the end of a session.
\<close>

section \<open>What no operation changes\<close>

text \<open>The configuration, the parser and the size of the send buffer.\<close>

definition core :: "'w Engine \<Rightarrow> SessionConfig \<times> FixParser \<times> nat" where
  "core e = (ss_config (fe_session e), fe_parser e, length (fe_send_buf e))"

lemma core_simps [simp]:
  "core (e\<lparr>fe_world := w\<rparr>) = core e"
  "core (e\<lparr>fe_recv := r\<rparr>) = core e"
  "core (e\<lparr>fe_should_stop := b\<rparr>) = core e"
  "ss_config s = ss_config (fe_session e) \<Longrightarrow> core (e\<lparr>fe_session := s\<rparr>) = core e"
  "length buf = length (fe_send_buf e) \<Longrightarrow> core (e\<lparr>fe_send_buf := buf\<rparr>) = core e"
  by (simp_all add: core_def)

lemma session_ops_config [simp]:
  "ss_config (on_message_sent t s) = ss_config s"
  "ss_config (on_message_received t s) = ss_config s"
  "ss_config (on_logon t s) = ss_config s"
  "ss_config (on_connected t t' s) = ss_config s"
  "ss_config (snd (validate_inbound_seq t q s)) = ss_config s"
  "ss_config (on_logout_sent s) = ss_config s"
  "ss_config (on_disconnected s) = ss_config s"
  "ss_config (snd (next_outbound_seq_num s)) = ss_config s"
  by (simp_all add: session_ops split: SessionState.splits)

lemma core_instant: "instant W e = (t, e') \<Longrightarrow> core e' = core e \<and> fe_session e' = fe_session e"
  by (auto simp: instant_def split: prod.splits)

lemma core_session [simp]:
  "core (session_sent W e) = core e"
  "core (session_received W e) = core e"
  "core (session_logon W e) = core e"
  "core (session_connected W e) = core e"
  "core (session_validate W q e) = core e"
  "core (request_stop e) = core e"
  by (auto simp: session_sent_def session_received_def session_logon_def session_connected_def
      session_validate_def request_stop_def Let_def dest!: core_instant split: prod.splits if_splits)

lemma core_send_raw: "send_raw W data e = (r, e') \<Longrightarrow> core e' = core e"
  by (auto simp: send_raw_def Let_def split: prod.splits sum.splits)

lemma core_run_app: "run_app W p e = Some (r, a, e') \<Longrightarrow> core e' = core e"
proof (induction p arbitrary: e)
  case (SendRaw data k)
  obtain r1 e1 where "send_raw W data e = (r1, e1)" by fastforce
  then show ?case using SendRaw.IH [OF rangeI] SendRaw.prems core_send_raw by fastforce
next
  case (AskNow k)
  obtain t e1 where "instant W e = (t, e1)" by fastforce
  then show ?case using AskNow.IH [OF rangeI] AskNow.prems core_instant by fastforce
next
  case (AskWall k)
  obtain t w where "wo_wall W (fe_world e) = (t, w)" by fastforce
  then show ?case using AskWall.IH [OF rangeI] AskWall.prems by fastforce
qed auto

lemma run_app_total: "app_ok p \<Longrightarrow> run_app W p e \<noteq> None"
  by (induction p arbitrary: e) (auto simp: Let_def simp del: not_None_eq split: prod.split)

section \<open>The texts the engine sends\<close>

definition heartbeat_text :: "SessionConfig \<Rightarrow> u64 \<Rightarrow> bytes \<Rightarrow> bytes" where
  "heartbeat_text c seq ts =
     wire (sc_fix_version c) [(MSG_TYPE, asc ''0''), (SENDER_COMP_ID, sc_sender_comp_id c),
       (TARGET_COMP_ID, sc_target_comp_id c), (MSG_SEQ_NUM, dec (unat seq)), (SENDING_TIME, ts)]"

definition logout_text :: "SessionConfig \<Rightarrow> u64 \<Rightarrow> bytes \<Rightarrow> bytes" where
  "logout_text c seq ts =
     wire (sc_fix_version c) [(MSG_TYPE, asc ''5''), (SENDER_COMP_ID, sc_sender_comp_id c),
       (TARGET_COMP_ID, sc_target_comp_id c), (MSG_SEQ_NUM, dec (unat seq)), (SENDING_TIME, ts)]"

definition logon_text :: "SessionConfig \<Rightarrow> u64 \<Rightarrow> bytes \<Rightarrow> bytes" where
  "logon_text c seq ts =
     wire (sc_fix_version c) [(MSG_TYPE, asc ''A''), (SENDER_COMP_ID, sc_sender_comp_id c),
       (TARGET_COMP_ID, sc_target_comp_id c), (MSG_SEQ_NUM, dec (unat seq)), (SENDING_TIME, ts),
       (ENCRYPT_METHOD, int_text 0),
       (HEARTBT_INT, int_text (of_nat (sc_heartbeat_interval c div 1000000000)))]"

lemma builders_emit:
  "logon_builder buf c seq ts = emit buf (logon_text c seq ts)"
  "heartbeat_builder buf c seq ts = emit buf (heartbeat_text c seq ts)"
  "logout_builder buf c seq ts = emit buf (logout_text c seq ts)"
  by (simp_all add: logon_builder_def heartbeat_builder_def logout_builder_def build_logon_eq
      build_heartbeat_eq build_logout_eq logon_text_def heartbeat_text_def logout_text_def)

text \<open>
  A configuration whose identifiers leave room for a message in the send buffer, and whose
  heartbeat interval leaves room for the five seconds that \<open>check_heartbeat\<close> adds to it: the
  addition of two \<open>Duration\<close>s panics at \<open>2 ^ 64\<close> seconds.
\<close>

definition cfg_fits :: "SessionConfig \<Rightarrow> bool" where
  "cfg_fits c \<longleftrightarrow>
     length (sc_fix_version c) + length (sc_sender_comp_id c) + length (sc_target_comp_id c) \<le> 3900 \<and>
     sc_heartbeat_interval c + secs 5 < secs (2 ^ 64)"

lemma dec_u64_length: "length (dec (unat (n :: u64))) \<le> 20"
proof -
  have "unat n < 2 ^ 64" using unsigned_less [of n] by simp
  then have "unat n < 10 ^ 20" by simp
  then show ?thesis by (rule dec_length) simp
qed

lemma int_text_length: "length (int_text v) \<le> 21"
  using dec_u64_length [of v] dec_u64_length [of "- v"] by (simp add: int_text_def)

lemma texts_fit:
  assumes "cfg_fits c" "length ts = 21"
  shows "length (logon_text c seq ts) \<le> 4096" "length (heartbeat_text c seq ts) \<le> 4096"
    "length (logout_text c seq ts) \<le> 4096"
  using assms dec_u64_length [of seq] int_text_length [of 0]
    int_text_length [of "of_nat (sc_heartbeat_interval c div 1000000000)"]
  by (simp_all add: cfg_fits_def logon_text_def heartbeat_text_def logout_text_def wire_def wire_pre_def
      field_bytes_def tag_defs dec_step dec_small asc_def)

section \<open>No panic\<close>

definition engine_ok :: "'w Engine \<Rightarrow> bool" where
  "engine_ok e \<longleftrightarrow> length (fe_send_buf e) = 4096 \<and> fp_max_message_size (fe_parser e) \<le> 65536 \<and>
     cfg_fits (ss_config (fe_session e))"

lemma engine_ok_core: "core e' = core e \<Longrightarrow> engine_ok e' = engine_ok e"
  by (simp add: core_def engine_ok_def)

lemma now_timestamp_core:
  "now_timestamp W e = (ts, e') \<Longrightarrow> core e' = core e \<and> fe_session e' = fe_session e \<and>
     fe_send_buf e' = fe_send_buf e \<and> length ts = 21"
  by (auto simp: now_timestamp_def stamp_length split: prod.splits)

lemma emit_total: "length w \<le> length buf \<Longrightarrow> \<exists>buf'. emit buf w = Some (buf', length w) \<and> length buf' = length buf"
  by (auto simp: emit_def)

lemma send_built_ok:
  assumes "engine_ok e"
    and fits: "\<And>buf seq ts. length buf = 4096 \<Longrightarrow> length ts = 21 \<Longrightarrow>
      \<exists>buf' len. build buf (ss_config (fe_session e)) seq ts = Some (buf', len) \<and> length buf' = 4096"
    and after: "\<And>s. ss_config (after s) = ss_config s"
  shows "\<exists>r e'. send_built W build after e = Some (r, e') \<and> engine_ok e'"
proof -
  obtain ts e1 where ts: "now_timestamp W e = (ts, e1)" by fastforce
  note c = now_timestamp_core [OF ts]
  obtain seq s where n: "next_outbound_seq_num (fe_session e1) = (seq, s)" by fastforce
  then have s: "ss_config s = ss_config (fe_session e)" using c by (auto simp: next_outbound_seq_num_def)
  obtain buf' len where b: "build (fe_send_buf e1) (ss_config s) seq ts = Some (buf', len)" "length buf' = 4096"
    using fits [of "fe_send_buf e1" ts seq] c s assms(1) by (auto simp: engine_ok_def)
  obtain r w where w: "wo_send W (take len buf') (fe_world e1) = (r, w)" by fastforce
  define e2 where "e2 = e1\<lparr>fe_session := s, fe_world := w, fe_send_buf := buf'\<rparr>"
  have e2: "engine_ok e2" using assms(1) c s b(2) by (simp add: e2_def engine_ok_def core_def)
  have "core (e2\<lparr>fe_session := after s\<rparr>) = core e2" by (rule core_simps(4)) (simp add: after e2_def)
  then have "core (session_sent W (e2\<lparr>fe_session := after s\<rparr>)) = core e2" by simp
  from engine_ok_core [OF this] e2 have e3: "engine_ok (session_sent W (e2\<lparr>fe_session := after s\<rparr>))" by simp
  have "send_built W build after e =
      (case r of Inl err \<Rightarrow> Some (Inl err, e2)
       | Inr _ \<Rightarrow> Some (Inr (), session_sent W (e2\<lparr>fe_session := after s\<rparr>)))"
    using b(1) ts n w by (cases r) (simp_all add: send_built_def Let_def e2_def)
  then show ?thesis using e2 e3 by (cases r) auto
qed

lemma sends_ok:
  assumes "engine_ok e"
  shows "\<exists>r e'. send_logon W e = Some (r, e') \<and> engine_ok e'"
    "\<exists>r e'. send_heartbeat W e = Some (r, e') \<and> engine_ok e'"
    "\<exists>r e'. send_logout W e = Some (r, e') \<and> engine_ok e'"
proof -
  have c: "cfg_fits (ss_config (fe_session e))" using assms by (simp add: engine_ok_def)
  note t = texts_fit [OF c]
  show "\<exists>r e'. send_logon W e = Some (r, e') \<and> engine_ok e'"
    unfolding send_logon_def by (rule send_built_ok [OF assms]) (auto simp: builders_emit emit_fits t)
  show "\<exists>r e'. send_heartbeat W e = Some (r, e') \<and> engine_ok e'"
    unfolding send_heartbeat_def by (rule send_built_ok [OF assms]) (auto simp: builders_emit emit_fits t)
  show "\<exists>r e'. send_logout W e = Some (r, e') \<and> engine_ok e'"
    unfolding send_logout_def by (rule send_built_ok [OF assms]) (auto simp: builders_emit emit_fits t)
qed

text \<open>An outcome that is not a panic and keeps the engine well-formed.\<close>

definition safe :: "('a, 'w) result \<Rightarrow> bool" where
  "safe m \<longleftrightarrow> (\<exists>r a e. m = Some (r, a, e) \<and> engine_ok e)"

lemma safe_Some [simp]: "safe (Some (r, a, e)) = engine_ok e"
  by (simp add: safe_def)

lemma engine_ok_simps [simp]:
  "engine_ok (session_sent W e) = engine_ok e"
  "engine_ok (session_received W e) = engine_ok e"
  "engine_ok (session_logon W e) = engine_ok e"
  "engine_ok (session_connected W e) = engine_ok e"
  "engine_ok (session_validate W q e) = engine_ok e"
  "engine_ok (e\<lparr>fe_recv := r\<rparr>) = engine_ok e"
  "engine_ok (e\<lparr>fe_world := w\<rparr>) = engine_ok e"
  "engine_ok (e\<lparr>fe_should_stop := b\<rparr>) = engine_ok e"
  "engine_ok (e\<lparr>fe_session := on_disconnected (fe_session e)\<rparr>) = engine_ok e"
  by (rule engine_ok_core; simp)+

lemma safe_call:
  assumes "app_ok p" "engine_ok e" shows "safe (call_app W p e)"
proof -
  obtain r a e' where x: "run_app W p e = Some (r, a, e')" using run_app_total [OF assms(1)] by (metis not_None_eq prod_cases3)
  have "engine_ok e'" using engine_ok_core [OF core_run_app [OF x]] assms(2) by simp
  then show ?thesis by (simp add: call_app_def x)
qed

lemma safe_then:
  assumes "\<exists>r e'. m = Some (r, e') \<and> engine_ok e'" "\<And>e. engine_ok e \<Longrightarrow> safe (rest e)"
  shows "safe (then_do m a rest)"
  using assms by (auto simp: then_do_def split: sum.splits)

lemma safe_dispatch:
  assumes app: "app_total app" and e: "engine_ok e" and v: "view_ok view" "idx_ok view"
  shows "safe (dispatch W app mt view a e)"
proof -
  have total: "app_ok (ap_on_logon app a)" "app_ok (ap_on_message app mt view a)" for mt a
    using app v by (simp_all add: app_total_def)
  have "safe (dispatch_logon W app a e)"
    using e total unfolding dispatch_logon_def Let_def
    by (auto intro!: safe_then safe_call sends_ok)
  moreover have "safe (dispatch_logout W app a e)"
    using e unfolding dispatch_logout_def Let_def
    by (auto intro!: safe_then sends_ok split: prod.split sum.split)
  moreover have "safe (then_do (send_heartbeat W e) a (\<lambda>e. Some (Inr (), a, e)))"
    using e by (intro safe_then sends_ok) auto
  ultimately show ?thesis using e total by (auto simp: dispatch_def intro: safe_call)
qed

lemma parsed_view:
  assumes "parse p msg = Inr (v, n)" "fp_max_message_size p \<le> 65536"
  shows "view_ok v \<and> idx_ok v"
proof -
  obtain rs st where a: "accepts msg 0 (start_state msg) n st rs" "v = set_checksum_valid (ps_view st) True"
    using assms by (rule parse_accepts)
  have "idx_ok (ps_view st)"
  proof -
    have "field_loop buffer pos s = Inr (n, s') \<Longrightarrow> idx_ok (ps_view s) \<Longrightarrow> idx_ok (ps_view s')" for buffer pos s s'
    proof (induction buffer pos s rule: field_loop.induct)
      case (1 buffer pos s)
      then show ?case
        by (auto simp: field_loop.simps [of buffer pos s] Let_def idx_ok_add_field
            split: if_splits sum.splits prod.splits option.splits)
    qed
    moreover obtain st' where "field_loop msg 0 (start_state msg) = Inr (n, st')" "v = set_checksum_valid (ps_view st') True"
      using assms(1) by (auto simp: parse_def Let_def split: if_splits sum.splits)
    ultimately have "idx_ok v" by (simp add: idx_ok_new)
    then show ?thesis using a by simp
  qed
  then show ?thesis using a by (simp add: accepts_def)
qed

lemma safe_handle:
  assumes app: "app_total app" and e: "engine_ok e" shows "safe (handle_message W app msg a e)"
proof -
  show ?thesis
  proof (cases "parse (fe_parser e) msg")
    case (Inl err)
    then show ?thesis using e by (simp add: handle_message_def)
  next
    case (Inr r)
    then obtain v n where p: "parse (fe_parser e) msg = Inr (v, n)" by (cases r) auto
    then have v: "view_ok v" "idx_ok v" using parsed_view e by (auto simp: engine_ok_def)
    have "msg_seq_num v = Some (Option.bind (map_of (field_pairs v) MSG_SEQ_NUM) parse_u64)"
      using get_field_map_of [OF v(1)] by (simp add: msg_seq_num_def get_field_u64_def)
    then show ?thesis
      using p e msg_type_last [OF v] by (simp add: handle_message_def Let_def safe_dispatch [OF app _ v] split: option.split)
  qed
qed

lemma safe_process: "app_total app \<Longrightarrow> engine_ok e \<Longrightarrow> safe (process_messages W app data a e)"
proof (induction W app data a e rule: process_messages.induct)
  case (1 W app data a e)
  show ?case
  proof (cases "find_message_boundary data")
    case None
    then show ?thesis using "1.prems" by (simp add: process_messages.simps)
  next
    case (Some b)
    obtain r a' e' where h: "handle_message W app (take b data) a e = Some (r, a', e')" "engine_ok e'"
      using safe_handle [OF "1.prems", of W "take b data" a] unfolding safe_def by blast
    show ?thesis
    proof (cases r)
      case (Inl err)
      then show ?thesis using Some h by (simp add: process_messages.simps [of W app data])
    next
      case (Inr u)
      then have "safe (process_messages W app (drop b data) a' e')"
        using "1.IH" [OF Some h(1)] h(2) "1.prems" by simp
      then show ?thesis using Some h Inr by (simp add: process_messages.simps [of W app data])
    qed
  qed
qed

lemma check_heartbeat_config:
  "check_heartbeat t s = Some (a, s') \<Longrightarrow> ss_config s' = ss_config s"
  by (auto simp: check_heartbeat_def Let_def Option.bind_eq_Some_conv split: if_splits)

lemma check_heartbeat_total:
  "cfg_fits (ss_config s) \<Longrightarrow> \<exists>a s'. check_heartbeat t s = Some (a, s')"
  by (simp add: check_heartbeat_def Let_def cfg_fits_def add_duration_def)

lemma timer_ok:
  assumes "engine_ok e" shows "\<exists>r e'. drive_timer W e = Some (r, e') \<and> engine_ok e'"
proof -
  obtain t e1 where i: "instant W e = (t, e1)" by fastforce
  note c = core_instant [OF i]
  have "cfg_fits (ss_config (fe_session e1))" using assms c by (simp add: engine_ok_def)
  then obtain act s where h: "check_heartbeat t (fe_session e1) = Some (act, s)"
    using check_heartbeat_total by blast
  have "core (e1\<lparr>fe_session := s\<rparr>) = core e"
    using c check_heartbeat_config [OF h] by (metis core_simps(4))
  from engine_ok_core [OF this] have ok: "engine_ok (e1\<lparr>fe_session := s\<rparr>)" using assms by simp
  obtain r e2 where "send_heartbeat W (e1\<lparr>fe_session := s\<rparr>) = Some (r, e2)" "engine_ok e2"
    using sends_ok(2) [OF ok] by blast
  then show ?thesis using i h ok by (auto simp: drive_timer_def Let_def split: SessionAction.split)
qed

lemma after_batch_ok:
  assumes "engine_ok e" shows "\<exists>e'. after_batch W e = Some e' \<and> engine_ok e'"
proof -
  obtain ts e1 where ts: "now_timestamp W e = (ts, e1)" by fastforce
  note c = now_timestamp_core [OF ts]
  obtain seq s where n: "next_outbound_seq_num (fe_session e1) = (seq, s)" by fastforce
  then have s: "ss_config s = ss_config (fe_session e)" using c by (auto simp: next_outbound_seq_num_def)
  have "cfg_fits (ss_config s)" using assms s by (simp add: engine_ok_def)
  then have "length (logout_text (ss_config s) seq ts) \<le> length (fe_send_buf e1)"
    using texts_fit(3) c assms by (metis core_def engine_ok_def prod.inject)
  then obtain buf' len where b: "logout_builder (fe_send_buf e1) (ss_config s) seq ts = Some (buf', len)"
    "length buf' = length (fe_send_buf e1)"
    using emit_total by (metis builders_emit(3))
  have "engine_ok (e1\<lparr>fe_world := w, fe_send_buf := buf', fe_session := on_disconnected s, fe_should_stop := True\<rparr>)" for w
    using assms c s b(2) by (simp add: engine_ok_def core_def)
  then show ?thesis using assms ts n b
    by (auto simp: after_batch_def Let_def split: SessionState.split prod.split)
qed

definition recv_bounded :: "'w World \<Rightarrow> bool" where
  "recv_bounded W \<longleftrightarrow> (\<forall>n w d. fst (wo_recv W n w) = Inr d \<longrightarrow> length d \<le> n)"

lemma iteration_ok:
  assumes "engine_ok e" "recv_bounded W" "app_total app"
  shows "\<exists>r a' e'. loop_iteration W app a e = Some (r, a', e') \<and> engine_ok e'"
proof -
  have rb: "\<exists>r a' e'. receive_batch W app a e = Some (r, a', e') \<and> engine_ok e'" if e: "engine_ok e" for e
  proof -
    obtain r w where w: "wo_recv W 8192 (fe_world e) = (r, w)" by fastforce
    show ?thesis
    proof (cases r)
      case (Inl err)
      then show ?thesis using w e by (simp add: receive_batch_def Let_def engine_ok_def)
    next
      case (Inr d)
      then have d: "length d \<le> 8192" using w assms(2) by (metis fst_conv recv_bounded_def)
      have "engine_ok (e\<lparr>fe_world := w\<rparr>)" using e by simp
      then obtain r' a' e' where p: "process_messages W app (fe_recv e @ d) a (e\<lparr>fe_world := w\<rparr>) = Some (r', a', e')"
        "engine_ok e'"
        using safe_process [OF assms(3), of "e\<lparr>fe_world := w\<rparr>" W "fe_recv e @ d" a] unfolding safe_def by blast
      then show ?thesis using w Inr d e after_batch_ok [OF p(2)]
        by (cases r') (auto simp: receive_batch_def Let_def)
    qed
  qed
  obtain r e1 where t: "drive_timer W e = Some (r, e1)" "engine_ok e1" using timer_ok [OF assms(1)] by blast
  show ?thesis
    using t rb [OF t(2)] assms(1) by (auto simp: loop_iteration_def split: sum.split bool.split)
qed

lemma loop_ok:
  assumes "engine_ok e" "recv_bounded W" "app_total app"
  shows "\<exists>r a' e'. run_loop n W app a e = Some (r, a', e') \<and> engine_ok e'"
  using assms(1)
proof (induction n arbitrary: a e)
  case 0
  then show ?case by simp
next
  case (Suc n)
  obtain r a' e' where i: "loop_iteration W app a e = Some (r, a', e')" "engine_ok e'"
    using iteration_ok [OF Suc.prems assms(2,3), of a] by blast
  then show ?case using Suc.IH [OF i(2)] by (cases r) (auto split: bool.split)
qed

section \<open>What does not influence a message\<close>

text \<open>
  The handling of a message neither looks at the receive buffer nor receives from the transport.
  So it commutes with replacing the buffer, and with any change \<open>\<sigma>\<close> of the world that the clocks
  and a send do not see (the interface \<open>unseen\<close>), such as a change of what is still to be received.
\<close>

definition reframe :: "('w \<Rightarrow> 'w) \<Rightarrow> bytes \<Rightarrow> 'w Engine \<Rightarrow> 'w Engine" where
  "reframe \<sigma> r e = e\<lparr>fe_recv := r, fe_world := \<sigma> (fe_world e)\<rparr>"

lemma reframe_simps [simp]:
  "fe_session (reframe \<sigma> r e) = fe_session e"
  "fe_parser (reframe \<sigma> r e) = fe_parser e"
  "fe_send_buf (reframe \<sigma> r e) = fe_send_buf e"
  "fe_should_stop (reframe \<sigma> r e) = fe_should_stop e"
  "fe_recv (reframe \<sigma> r e) = r"
  "fe_world (reframe \<sigma> r e) = \<sigma> (fe_world e)"
  "(reframe \<sigma> r e)\<lparr>fe_session := s\<rparr> = reframe \<sigma> r (e\<lparr>fe_session := s\<rparr>)"
  "(reframe \<sigma> r e)\<lparr>fe_send_buf := b\<rparr> = reframe \<sigma> r (e\<lparr>fe_send_buf := b\<rparr>)"
  "(reframe \<sigma> r e)\<lparr>fe_should_stop := c\<rparr> = reframe \<sigma> r (e\<lparr>fe_should_stop := c\<rparr>)"
  "(reframe \<sigma> r e)\<lparr>fe_recv := r'\<rparr> = reframe \<sigma> r' e"
  "reframe \<sigma> r (e\<lparr>fe_recv := r'\<rparr>) = reframe \<sigma> r e"
  "(reframe \<sigma> r e)\<lparr>fe_world := \<sigma> w\<rparr> = reframe \<sigma> r (e\<lparr>fe_world := w\<rparr>)"
  by (simp_all add: reframe_def)

lemma reframe_id: "reframe (\<lambda>w. w) r e = e\<lparr>fe_recv := r\<rparr>"
  by (simp add: reframe_def)

abbreviation res_reframe :: "('w \<Rightarrow> 'w) \<Rightarrow> bytes \<Rightarrow> ('a, 'w) result \<Rightarrow> ('a, 'w) result" where
  "res_reframe \<sigma> r \<equiv> map_option (\<lambda>(x, a, e). (x, a, reframe \<sigma> r e))"

locale unseen =
  fixes W :: "'w World" and \<sigma> :: "'w \<Rightarrow> 'w"
  assumes now_unseen: "wo_now W (\<sigma> w) = apsnd \<sigma> (wo_now W w)"
    and wall_unseen: "wo_wall W (\<sigma> w) = apsnd \<sigma> (wo_wall W w)"
    and send_unseen: "wo_send W d (\<sigma> w) = apsnd \<sigma> (wo_send W d w)"
begin

lemma instant_frame: "instant W (reframe \<sigma> r e) = apsnd (reframe \<sigma> r) (instant W e)"
  by (simp add: instant_def now_unseen split: prod.split)

lemma session_frame:
  "session_sent W (reframe \<sigma> r e) = reframe \<sigma> r (session_sent W e)"
  "session_received W (reframe \<sigma> r e) = reframe \<sigma> r (session_received W e)"
  "session_logon W (reframe \<sigma> r e) = reframe \<sigma> r (session_logon W e)"
  "session_connected W (reframe \<sigma> r e) = reframe \<sigma> r (session_connected W e)"
  "session_validate W q (reframe \<sigma> r e) = reframe \<sigma> r (session_validate W q e)"
  "request_stop (reframe \<sigma> r e) = reframe \<sigma> r (request_stop e)"
  by (simp_all add: session_sent_def session_received_def session_logon_def session_connected_def
      session_validate_def request_stop_def instant_frame Let_def split: prod.split)

lemma send_built_frame:
  "send_built W build after (reframe \<sigma> r e) = map_option (apsnd (reframe \<sigma> r)) (send_built W build after e)"
proof -
  obtain ts w where w: "wo_wall W (fe_world e) = (ts, w)" by fastforce
  obtain seq s where n: "next_outbound_seq_num (fe_session e) = (seq, s)" by fastforce
  show ?thesis
  proof (cases "build (fe_send_buf e) (ss_config s) seq (to_fix_timestamp ts)")
    case None
    then show ?thesis using w n by (simp add: send_built_def now_timestamp_def wall_unseen)
  next
    case (Some bl)
    obtain buf len where bl: "bl = (buf, len)" by (cases bl)
    obtain x w' where "wo_send W (take len buf) w = (x, w')" by fastforce
    then show ?thesis using w n Some bl
      by (cases x) (simp_all add: send_built_def now_timestamp_def Let_def session_frame wall_unseen send_unseen)
  qed
qed

lemma sends_frame:
  "send_logon W (reframe \<sigma> r e) = map_option (apsnd (reframe \<sigma> r)) (send_logon W e)"
  "send_heartbeat W (reframe \<sigma> r e) = map_option (apsnd (reframe \<sigma> r)) (send_heartbeat W e)"
  "send_logout W (reframe \<sigma> r e) = map_option (apsnd (reframe \<sigma> r)) (send_logout W e)"
  by (simp_all add: send_logon_def send_heartbeat_def send_logout_def send_built_frame)

lemma send_raw_frame: "send_raw W d (reframe \<sigma> r e) = apsnd (reframe \<sigma> r) (send_raw W d e)"
proof -
  obtain x w where "wo_send W d (fe_world e) = (x, w)" by fastforce
  then show ?thesis by (cases x) (simp_all add: send_raw_def Let_def send_unseen session_frame)
qed

lemma run_app_frame: "run_app W p (reframe \<sigma> r e) = res_reframe \<sigma> r (run_app W p e)"
proof (induction p arbitrary: e)
  case (SendRaw d k)
  obtain x e1 where "send_raw W d e = (x, e1)" by fastforce
  then show ?case using SendRaw [OF rangeI] by (simp add: send_raw_frame)
next
  case (AskNow k)
  obtain x e1 where "instant W e = (x, e1)" by fastforce
  then show ?case using AskNow [OF rangeI] by (simp add: instant_frame)
next
  case (AskWall k)
  obtain t w where "wo_wall W (fe_world e) = (t, w)" by fastforce
  then show ?case using AskWall [OF rangeI] by (simp add: wall_unseen)
qed (simp_all add: session_frame)

lemma call_app_frame: "call_app W p (reframe \<sigma> r e) = res_reframe \<sigma> r (call_app W p e)"
  by (simp add: call_app_def run_app_frame)

lemma then_do_frame:
  assumes "\<And>e. rest (reframe \<sigma> r e) = res_reframe \<sigma> r (rest e)"
  shows "then_do (map_option (apsnd (reframe \<sigma> r)) m) a rest = res_reframe \<sigma> r (then_do m a rest)"
proof (cases m)
  case None
  then show ?thesis by (simp add: then_do_def)
next
  case (Some p)
  then show ?thesis using assms by (cases p; cases "fst p") (auto simp: then_do_def)
qed

lemma dispatch_frame: "dispatch W app mt v a (reframe \<sigma> r e) = res_reframe \<sigma> r (dispatch W app mt v a e)"
proof -
  have "dispatch_logon W app a (reframe \<sigma> r e) = res_reframe \<sigma> r (dispatch_logon W app a e)"
    by (simp add: dispatch_logon_def Let_def session_frame sends_frame then_do_frame call_app_frame)
  moreover have "dispatch_logout W app a (reframe \<sigma> r e) = res_reframe \<sigma> r (dispatch_logout W app a e)"
    by (simp add: dispatch_logout_def Let_def sends_frame then_do_frame split: prod.split sum.split)
  moreover have "then_do (send_heartbeat W (reframe \<sigma> r e)) a (\<lambda>e. Some (Inr (), a, e)) =
      res_reframe \<sigma> r (then_do (send_heartbeat W e) a (\<lambda>e. Some (Inr (), a, e)))"
    by (simp add: sends_frame then_do_frame)
  ultimately show ?thesis by (simp add: dispatch_def call_app_frame)
qed

lemma handle_frame:
  "handle_message W app msg a (reframe \<sigma> r e) = res_reframe \<sigma> r (handle_message W app msg a e)"
proof (cases "parse (fe_parser e) msg")
  case (Inr p)
  obtain v n where p: "p = (v, n)" by (cases p)
  let ?e = "session_received W e"
  show ?thesis
  proof (cases "msg_seq_num v")
    case (Some sq)
    then show ?thesis using Inr p
      by (cases sq; cases "msg_type v")
        (simp_all add: handle_message_def Let_def session_frame dispatch_frame split: option.split)
  qed (use Inr p in \<open>simp add: handle_message_def Let_def\<close>)
qed (simp add: handle_message_def)

lemma process_unseen:
  "process_messages W app data a (reframe \<sigma> r e) =
     map_option (\<lambda>(x, a, e). (x, a, reframe \<sigma> (fe_recv e) e)) (process_messages W app data a e)"
proof (induction "length data" arbitrary: data a e r rule: less_induct)
  case less
  show ?case
  proof (cases "find_message_boundary data")
    case None
    then show ?thesis by (simp add: process_messages.simps)
  next
    case (Some b)
    then have l: "length (drop b data) < length data" using boundary_le [OF Some] by auto
    show ?thesis
    proof (cases "handle_message W app (take b data) a e")
      case None
      then show ?thesis using Some by (simp add: process_messages.simps [of W app data] handle_frame)
    next
      case res: (Some x)
      obtain y a' e' where x: "x = (y, a', e')" by (cases x)
      then show ?thesis using Some res less [OF l]
        by (cases y) (simp_all add: process_messages.simps [of W app data] handle_frame)
    qed
  qed
qed

text \<open>Neither does the timer see the change.\<close>

lemma timer_unseen:
  "drive_timer W (reframe \<sigma> r e) = map_option (apsnd (reframe \<sigma> r)) (drive_timer W e)"
proof -
  obtain t e1 where i: "instant W e = (t, e1)" by fastforce
  show ?thesis
  proof (cases "check_heartbeat t (fe_session e1)")
    case None
    then show ?thesis using i by (simp add: drive_timer_def instant_frame)
  next
    case (Some x)
    obtain act s where x: "x = (act, s)" by (cases x)
    then show ?thesis using i Some
      by (cases act) (auto simp: drive_timer_def Let_def instant_frame sends_frame option.map_comp comp_def case_prod_beta
          intro!: option.map_cong)
  qed
qed

end

text \<open>With the world as it is, only the receive buffer is replaced.\<close>

interpretation same_world: unseen W "\<lambda>w. w" for W
  by unfold_locales (simp_all add: apsnd_def map_prod_def)

lemma process_frame:
  "process_messages W app data a (e\<lparr>fe_recv := r\<rparr>) = process_messages W app data a e"
  using same_world.process_unseen [of W app data a r e]
  by (simp add: reframe_id case_prod_beta option.map_ident_strong)

text \<open>
  A peer that sends given pieces: a receive returns what fits of the next piece. Everything else,
  and what a receive returns behind the last piece, is the world \<open>V\<close>.
\<close>

definition scripted :: "'v World \<Rightarrow> (bytes list \<times> 'v) World" where
  "scripted V =
     \<lparr>wo_now = (\<lambda>(q, v). apsnd (Pair q) (wo_now V v)), wo_wall = (\<lambda>(q, v). apsnd (Pair q) (wo_wall V v)),
      wo_send = (\<lambda>d (q, v). apsnd (Pair q) (wo_send V d v)),
      wo_recv = (\<lambda>n (q, v). case q of
          [] \<Rightarrow> apsnd (Pair q) (wo_recv V n v)
        | p # q \<Rightarrow> if length p \<le> n then (Inr p, (q, v)) else (Inr (take n p), (drop n p # q, v))),
      wo_close = apsnd (wo_close V)\<rparr>"

interpretation script: unseen "scripted V" "apfst (\<lambda>_. q)" for V q
  by unfold_locales (auto simp: scripted_def apsnd_def apfst_def map_prod_def split: prod.split)

section \<open>Cutting the stream\<close>

lemma boundary_loop_append:
  "boundary_loop xs i = Some b \<Longrightarrow> boundary_loop (xs @ ys) i = Some b"
proof (induction xs i rule: boundary_loop.induct)
  case (1 xs i)
  have len: "i + 8 \<le> length xs"
    using "1.prems" by (subst (asm) boundary_loop.simps) (simp split: if_splits)
  then have at: "boundary_at (xs @ ys) i = boundary_at xs i" by (simp add: boundary_at_def nth_append)
  show ?case
  proof (cases "boundary_at xs i")
    case True
    then show ?thesis using "1.prems" len at
      by (subst boundary_loop.simps, subst (asm) boundary_loop.simps) simp
  next
    case False
    then have "boundary_loop xs (i + 1) = Some b"
      using "1.prems" len by (subst (asm) boundary_loop.simps) simp
    then show ?thesis using "1.IH" [OF len False] False len at by (subst boundary_loop.simps) simp
  qed
qed

lemma boundary_append:
  "find_message_boundary xs = Some b \<Longrightarrow> find_message_boundary (xs @ ys) = Some b"
  by (auto simp: find_message_boundary_def boundary_loop_append split: if_splits)

lemma process_append:
  "process_messages W app (xs @ ys) a e =
     (case process_messages W app xs a e of
        None \<Rightarrow> None
      | Some (Inl err, a', e') \<Rightarrow> Some (Inl err, a', e'\<lparr>fe_recv := fe_recv e' @ ys\<rparr>)
      | Some (Inr _, a', e') \<Rightarrow> process_messages W app (fe_recv e' @ ys) a' e')"
proof (induction W app xs a e rule: process_messages.induct)
  case (1 W app xs a e)
  show ?case
  proof (cases "find_message_boundary xs")
    case None
    then have "process_messages W app xs a e = Some (Inr (), a, e\<lparr>fe_recv := xs\<rparr>)"
      by (simp add: process_messages.simps)
    then show ?thesis by (simp add: process_frame)
  next
    case (Some b)
    then have le: "b \<le> length xs" using boundary_le by blast
    note ap = boundary_append [OF Some, of ys]
    show ?thesis
    proof (cases "handle_message W app (take b xs) a e")
      case None
      then show ?thesis using Some ap le by (simp add: process_messages.simps [of W app xs] process_messages.simps [of W app "xs @ ys"])
    next
      case res: (Some r)
      obtain y a' e' where r: "r = (y, a', e')" by (cases r)
      show ?thesis
        using Some ap le res r "1.IH" [OF Some res [unfolded r]]
        by (cases y) (simp_all add: process_messages.simps [of W app xs] process_messages.simps [of W app "xs @ ys"])
    qed
  qed
qed

text \<open>
  After a pass that goes on, the loop has left the session alone behind the batch: it would have
  stopped otherwise.
\<close>

lemma after_batch_continues: "after_batch W e = Some e' \<Longrightarrow> \<not> fe_should_stop e' \<Longrightarrow> e' = e"
  by (auto simp: after_batch_def Let_def split: SessionState.splits prod.splits bind_splits)

lemma scripted_recv:
  "length p \<le> n \<Longrightarrow> wo_recv (scripted V) n (p # q, v) = (Inr p, (q, v))"
  by (simp add: scripted_def)

lemma receive_piece:
  assumes "fe_world e = (p # q, v)" "p \<noteq> []" "length p \<le> 8192"
  shows "receive_batch (scripted V) app a e =
    Option.bind (process_messages (scripted V) app (fe_recv e @ p) a (e\<lparr>fe_world := (q, v)\<rparr>)) (\<lambda>(r, a, e).
      case r of Inl err \<Rightarrow> Some (Inl err, a, e)
      | Inr _ \<Rightarrow> map_option (\<lambda>e. (Inr False, a, e)) (after_batch (scripted V) e))"
  using assms by (simp add: receive_batch_def scripted_recv)

text \<open>Neither the timer nor the handling of a batch touches the pieces that are still to come.\<close>

lemma reframe_own: "fst (fe_world e) = q \<Longrightarrow> reframe (apfst (\<lambda>_. q)) (fe_recv e) e = e"
  by (cases "fe_world e") (simp add: reframe_def)

lemma reframe_fixed: "e = reframe (apfst (\<lambda>_. q)) r e \<Longrightarrow> fst (fe_world e) = q \<and> fe_recv e = r"
  by (metis fst_apfst reframe_simps(5,6))

lemma timer_queue:
  assumes "drive_timer (scripted V) e = Some (r, e')" shows "fst (fe_world e') = fst (fe_world e) \<and> fe_recv e' = fe_recv e"
  using assms script.timer_unseen [of V "fst (fe_world e)" "fe_recv e" e] reframe_fixed
  by (simp add: reframe_own)

lemma process_queue:
  assumes "process_messages (scripted V) app d a e = Some (r, a', e')" shows "fst (fe_world e') = fst (fe_world e)"
proof -
  have "Some (r, a', e') = Some (r, a', reframe (apfst (\<lambda>_. fst (fe_world e))) (fe_recv e') e')"
    using script.process_unseen [of V app d a "fst (fe_world e)" "fe_recv e" e]
    unfolding reframe_own [OF refl] assms option.map prod.case .
  then have "e' = reframe (apfst (\<lambda>_. fst (fe_world e))) (fe_recv e') e'"
    unfolding option.inject prod.inject by (elim conjE)
  from reframe_fixed [OF this] show ?thesis by (rule conjunct1)
qed

lemma joined_iteration:
  assumes "fe_world e = (xs # ys # ps, v)" "xs \<noteq> []" "ys \<noteq> []" "length (xs @ ys) \<le> 8192"
    and it: "loop_iteration (scripted V) app a e = Some (Inr False, a', e')" "\<not> fe_should_stop e'"
    and idle: "drive_timer (scripted V) e' = Some (Inr False, e')"
  shows "loop_iteration (scripted V) app a (e\<lparr>fe_world := ((xs @ ys) # ps, v)\<rparr>) = loop_iteration (scripted V) app a' e'"
proof -
  let ?W = "scripted V" and ?j = "apfst (\<lambda>_. (xs @ ys) # ps)" and ?k = "apfst (\<lambda>_. ps)"
  obtain e1 where t: "drive_timer ?W e = Some (Inr False, e1)" "receive_batch ?W app a e1 = Some (Inr False, a', e')"
    and stop: "\<not> fe_should_stop e"
    using it by (auto simp: loop_iteration_def split: if_splits bind_splits sum.splits bool.splits)
  obtain v1 where w1: "fe_world e1 = (xs # ys # ps, v1)"
    using timer_queue [OF t(1)] assms(1) by (cases "fe_world e1") simp
  let ?e1 = "e1\<lparr>fe_world := (ys # ps, v1)\<rparr>"
  have tj: "drive_timer ?W (e\<lparr>fe_world := ((xs @ ys) # ps, v)\<rparr>) = Some (Inr False, e1\<lparr>fe_world := ((xs @ ys) # ps, v1)\<rparr>)"
    using script.timer_unseen [of V "(xs @ ys) # ps" "fe_recv e" e] timer_queue [OF t(1)] t(1) assms(1) w1
    by (simp add: reframe_def)
  have "Option.bind (process_messages ?W app (fe_recv e1 @ xs) a ?e1) (\<lambda>(r, a, e).
      case r of Inl err \<Rightarrow> Some (Inl err, a, e)
      | Inr _ \<Rightarrow> map_option (\<lambda>e. (Inr False, a, e)) (after_batch ?W e)) = Some (Inr False, a', e')"
    using receive_piece [OF w1, of V app a] assms(2,4) t(2) by (metis le_add1 length_append le_trans)
  then obtain e2 where p: "process_messages ?W app (fe_recv e1 @ xs) a ?e1 = Some (Inr (), a', e2)"
    "after_batch ?W e2 = Some e'"
    by (auto simp: Option.bind_eq_Some_conv split: sum.splits) (metis (full_types) old.unit.exhaust sum.exhaust)
  then have e2: "e2 = e'" using after_batch_continues it(2) by metis
  obtain v2 where w2: "fe_world e' = (ys # ps, v2)"
    using process_queue [OF p(1)] e2 by (cases "fe_world e'") simp
  have "process_messages ?W app (fe_recv e1 @ xs) a (e1\<lparr>fe_world := (ps, v1)\<rparr>) =
      Some (Inr (), a', e'\<lparr>fe_world := (ps, v2)\<rparr>)"
    using script.process_unseen [of V app "fe_recv e1 @ xs" a ps "fe_recv ?e1" ?e1] p(1) e2 w2
    by (simp add: reframe_def)
  then have joined: "process_messages ?W app (fe_recv e1 @ xs @ ys) a (e1\<lparr>fe_world := (ps, v1)\<rparr>) =
      process_messages ?W app (fe_recv e' @ ys) a' (e'\<lparr>fe_world := (ps, v2)\<rparr>)"
    using process_append [of ?W app "fe_recv e1 @ xs" ys] by simp
  show ?thesis
    using stop it(2) tj idle joined assms(2-4) receive_piece [OF w2, of V app a']
      receive_piece [of "e1\<lparr>fe_world := ((xs @ ys) # ps, v1)\<rparr>" "xs @ ys" ps v1 V app a]
    by (simp add: loop_iteration_def)
qed

section \<open>Properties of the engine\<close>

text \<open>
  C2. The engine does not panic. Whatever bytes the peer sends, whatever the application does (as long
  as it does not panic itself) and for any number of iterations, an engine whose identifiers leave room
  for a message in the send buffer, whose heartbeat interval plus five seconds stays below the largest
  \<open>Duration\<close> (\<open>2 ^ 64\<close> seconds) and whose transport keeps the contract of a receive never panics, as
  initiator or as acceptor.
\<close>

theorem engine_no_panic:
  assumes "cfg_fits (ss_config s)" "recv_bounded W" "app_total app"
  shows "run_initiator n W app a (new_initiator w s) \<noteq> None \<and>
    run_acceptor n W app a (new_acceptor w s) \<noteq> None"
proof -
  let ?e = "new_initiator w s"
  have ok: "engine_ok ?e"
    using assms(1) by (simp add: engine_ok_def new_initiator_def new_parser_def)
  then have "engine_ok (session_connected W ?e)" by simp
  then obtain r e' where l: "send_logon W (session_connected W ?e) = Some (r, e')" "engine_ok e'"
    using sends_ok(1) by blast
  obtain r1 a1 e1 where r1: "run_loop n W app a e' = Some (r1, a1, e1)" using loop_ok [OF l(2) assms(2,3), of n a] by blast
  obtain r2 a2 e2 where "run_loop n W app a ?e = Some (r2, a2, e2)" using loop_ok [OF ok assms(2,3), of n a] by blast
  then show ?thesis using l(1) r1
    by (cases r) (simp_all add: run_initiator_def run_acceptor_def new_acceptor_def)
qed

text \<open>A world on the in-process bus, with a clock that advances by a second per reading.\<close>

definition aeron_world :: "(nat \<times> aeron) World" where
  "aeron_world =
     \<lparr>wo_now = (\<lambda>(t, g). (t, t + secs 1, g)), wo_wall = (\<lambda>(t, g). (of_nat t, t, g)),
      wo_send = (\<lambda>d (t, g). let (r, g') = aeron_send d g in (r, t, g')),
      wo_recv = (\<lambda>n (t, g). let (r, g') = aeron_recv n g in (r, t, g')),
      wo_close = (\<lambda>(t, g). (t, aeron_close g))\<rparr>"

lemma aeron_world_bounded: "recv_bounded aeron_world"
  by (auto simp: recv_bounded_def aeron_world_def Let_def case_prod_beta aeron.recv_bound)

definition quiet_app :: "'a App" where
  "quiet_app = \<lparr>ap_on_logon = Done (Inr ()), ap_on_message = (\<lambda>_ _. Done (Inr ())), ap_on_logout = Pair (Inr ())\<rparr>"

definition sample_engine :: "(nat \<times> aeron) Engine" where
  "sample_engine = new_acceptor (0, \<lambda>_. None, end_a) (new_session 0 default_config)"

lemma quiet_app_total: "app_total quiet_app"
  by (simp add: app_total_def quiet_app_def)

theorem engine_no_panic_witness:
  "run_initiator 10 aeron_world quiet_app () (new_initiator (0, \<lambda>_. None, end_a) (new_session 0 default_config)) \<noteq> None"
proof -
  have "cfg_fits (ss_config (new_session 0 default_config))"
    by (simp add: cfg_fits_def new_session_def default_config_def secs_def asc_def)
  from engine_no_panic [OF this aeron_world_bounded quiet_app_total] show ?thesis by (rule conjunct1)
qed

text \<open>
  C4. Independence of the segmentation. Let the peer send a piece, then a second one, then others,
  the first two of at most 8192 bytes together. If the pass of the main loop that receives the first piece
  ends without an error and without a stop (so no Logout, no stop requested by the application, no
  disconnect, and a session that is not Disconnected behind the piece), and the timer has nothing to do
  when the loop comes round again (no heartbeat, no disconnect, and the clock reading leaves the world as it
  is), then the loop does the same as when both pieces arrive as one: with one pass less it has the same
  result, application state and engine, for any number of passes, any application and any world otherwise.
\<close>

theorem segmentation_irrelevant:
  assumes "fe_world e = (xs # ys # ps, v)" "xs \<noteq> []" "ys \<noteq> []" "length (xs @ ys) \<le> 8192"
    and "loop_iteration (scripted V) app a e = Some (Inr False, a', e')" "\<not> fe_should_stop e'"
    and "drive_timer (scripted V) e' = Some (Inr False, e')"
  shows "run_loop (Suc (Suc n)) (scripted V) app a e =
    run_loop (Suc n) (scripted V) app a (e\<lparr>fe_world := ((xs @ ys) # ps, v)\<rparr>)"
proof -
  let ?W = "scripted V" and ?joined = "e\<lparr>fe_world := ((xs @ ys) # ps, v)\<rparr>"
  have "loop_iteration ?W app a ?joined = loop_iteration ?W app a' e'"
    using assms by (rule joined_iteration)
  then show ?thesis using assms(5) by simp
qed

definition tick_free :: "nat World" where
  "tick_free =
     \<lparr>wo_now = (\<lambda>t. (t, t)), wo_wall = (\<lambda>t. (of_nat t, t)), wo_send = (\<lambda>d t. (Inr (length d), t + 1)),
      wo_recv = (\<lambda>n t. (Inr [], t)), wo_close = (\<lambda>t. t)\<rparr>"

text \<open>A message whose first byte arrives alone.\<close>

definition connected_engine :: "bytes list \<Rightarrow> (bytes list \<times> nat) Engine" where
  "connected_engine q = new_initiator (q, 0) (on_connected 0 0 (new_session 0 default_config))"

theorem segmentation_irrelevant_witness:
  "run_loop 5 (scripted tick_free) quiet_app () (connected_engine [[56], [61], sample_wire]) =
   run_loop 4 (scripted tick_free) quiet_app () (connected_engine [[56, 61], sample_wire])"
proof -
  let ?e = "connected_engine [[56], [61], sample_wire]"
  let ?e' = "?e\<lparr>fe_world := ([[61], sample_wire], 0), fe_recv := [56]\<rparr>"
  have st: "ss_state (fe_session ?e) = LogonSent"
    by (simp add: connected_engine_def new_initiator_def new_session_def default_config_def on_connected_def)
  have pm: "process_messages W app [56] a e = Some (Inr (), a, e\<lparr>fe_recv := [56]\<rparr>)"
    for W :: "(bytes list \<times> nat) World" and app :: "unit App" and a e
    by (simp add: process_messages.simps find_message_boundary_def)
  have e: "fe_world ?e = ([[56], [61], sample_wire], 0)" "fe_recv ?e = []" "\<not> fe_should_stop ?e"
    by (simp_all add: connected_engine_def new_initiator_def)
  have idle: "drive_timer (scripted tick_free) d = Some (Inr False, d)" if "ss_state (fe_session d) = LogonSent" for d
    using that by (cases "fe_world d")
      (simp add: drive_timer_def instant_def scripted_def tick_free_def check_heartbeat_def)
  have "receive_batch (scripted tick_free) quiet_app () ?e = Some (Inr False, (), ?e')"
    using receive_piece [OF e(1), of tick_free quiet_app "()"] e(2) st
    by (simp add: pm after_batch_def)
  then have "loop_iteration (scripted tick_free) quiet_app () ?e = Some (Inr False, (), ?e')"
    using e(3) idle [OF st] by (simp add: loop_iteration_def)
  from segmentation_irrelevant [OF e(1) _ _ _ this _ idle, of 3] show ?thesis
    using e(3) st by (simp add: eval_nat_numeral connected_engine_def new_initiator_def)
qed

text \<open>
  What the hypothesis excludes does happen: while the session is Disconnected, as an acceptor's is
  until its Logon is complete, a piece without a complete message stops the engine.
\<close>

lemma partial_logon_stops:
  assumes "ss_state (fe_session e) = Disconnected" "\<not> fe_should_stop e" "fe_world e = (p # q, v)"
    and "p \<noteq> []" "length p \<le> 8192" "find_message_boundary (fe_recv e @ p) = None"
  shows "\<exists>e'. loop_iteration (scripted V) app a e = Some (Inr False, a, e') \<and> fe_should_stop e'"
proof -
  obtain t v' where now: "wo_now V v = (t, v')" by fastforce
  let ?e = "e\<lparr>fe_world := (p # q, v')\<rparr>"
  have "drive_timer (scripted V) e = Some (Inr False, ?e)"
    using assms(1,3) now by (simp add: drive_timer_def instant_def scripted_def check_heartbeat_def)
  then show ?thesis
    using assms receive_piece [of ?e p q v' V app a]
    by (simp add: loop_iteration_def process_messages.simps after_batch_def)
qed

text \<open>
  A well-formed message at the front of the stream is handled as exactly that message, whatever
  follows it, and processing continues behind it.
\<close>

theorem stream_of_messages:
  assumes "SOH \<notin> set b" "list_all good_field fs"
  shows "process_messages W app (wire b fs @ rest) a e =
    (case handle_message W app (wire b fs) a e of
       None \<Rightarrow> None
     | Some (Inl err, a, e) \<Rightarrow> Some (Inl err, a, e\<lparr>fe_recv := rest\<rparr>)
     | Some (Inr _, a, e) \<Rightarrow> process_messages W app rest a e)"
proof -
  have t: "take (length (wire b fs)) (wire b fs @ rest) = wire b fs"
    "drop (length (wire b fs)) (wire b fs @ rest) = rest" by simp_all
  show ?thesis
    by (simp only: process_messages.simps [of W app "wire b fs @ rest"] find_boundary_wire [OF assms]
        option.case t)
qed

theorem stream_of_messages_witness:
  "process_messages aeron_world quiet_app (sample_wire @ [56, 61]) () sample_engine =
    (case handle_message aeron_world quiet_app sample_wire () sample_engine of
       None \<Rightarrow> None
     | Some (Inl err, a, e) \<Rightarrow> Some (Inl err, a, e\<lparr>fe_recv := [56, 61]\<rparr>)
     | Some (Inr _, a, e) \<Rightarrow> process_messages aeron_world quiet_app [56, 61] a e)"
  unfolding sample_wire_def
  by (rule stream_of_messages) (simp_all add: asc_def SOH_def good_field_def tag_defs sample_fields_def)

subsection \<open>Heartbeats on the wire\<close>

text \<open>Identifiers that fit the send buffer and contain no delimiter.\<close>

definition cfg_clean :: "SessionConfig \<Rightarrow> bool" where
  "cfg_clean c \<longleftrightarrow> cfg_fits c \<and> SOH \<notin> set (sc_fix_version c) \<and> SOH \<notin> set (sc_sender_comp_id c) \<and>
     SOH \<notin> set (sc_target_comp_id c)"

lemma heartbeat_text_parses:
  assumes "cfg_clean c" "length ts = 21" "SOH \<notin> set ts"
  shows "\<exists>v. parse new_parser (heartbeat_text c seq ts) = Inr (v, length (heartbeat_text c seq ts)) \<and>
    msg_type v = Some (Some (asc ''0'')) \<and> msg_seq_num v = Some (Some seq) \<and>
    get_field v SENDER_COMP_ID = Some (Some (sc_sender_comp_id c)) \<and>
    get_field v TARGET_COMP_ID = Some (Some (sc_target_comp_id c))"
proof -
  let ?fs = "[(SENDER_COMP_ID, sc_sender_comp_id c), (TARGET_COMP_ID, sc_target_comp_id c),
      (MSG_SEQ_NUM, dec (unat seq)), (SENDING_TIME, ts)]"
  have len: "length (heartbeat_text c seq ts) \<le> 4096"
    using texts_fit(2) assms by (auto simp: cfg_clean_def)
  have good: "list_all good_field ?fs"
    using assms by (simp add: good_field_def tag_defs cfg_clean_def dec_no_soh)
  have mt: "SOH \<notin> set (asc ''0'')" by (simp add: asc_def SOH_def)
  have sz: "length (wire (sc_fix_version c) ((MSG_TYPE, asc ''0'') # ?fs) @ []) \<le> fp_max_message_size new_parser"
    using len by (simp add: heartbeat_text_def new_parser_def)
  have b: "SOH \<notin> set (sc_fix_version c)" using assms(1) by (simp add: cfg_clean_def)
  obtain v where v: "parse new_parser (heartbeat_text c seq ts) = Inr (v, length (heartbeat_text c seq ts))"
    "view_ok v" "idx_ok v" "field_pairs v = parsed_fields (sc_fix_version c) ((MSG_TYPE, asc ''0'') # ?fs)"
    using parse_wire_helper [OF b mt good _ sz] by (auto simp: heartbeat_text_def MAX_FIELDS_def new_parser_def)
  have "msg_type v = Some (Some (asc ''0''))"
    using v by (intro msg_type_parsed) (auto simp: tag_defs)
  then show ?thesis using v(1,4) get_field_map_of [OF v(2)]
    by (simp add: msg_seq_num_def get_field_u64_def parsed_fields_def tag_defs parse_u64_dec)
qed

lemma send_built_run:
  assumes "wo_wall W (fe_world e) = (t, w1)"
    and "build (fe_send_buf e) (ss_config (fe_session e)) (ss_outbound_seq_num (fe_session e))
      (to_fix_timestamp t) = Some (buf, len)"
    and "wo_send W (take len buf) w1 = (x, w2)"
  shows "send_built W build after e =
    (let e2 = e\<lparr>fe_world := w2, fe_send_buf := buf, fe_session :=
           (fe_session e)\<lparr>ss_outbound_seq_num := ss_outbound_seq_num (fe_session e) + 1\<rparr>\<rparr> in
     case x of Inl err \<Rightarrow> Some (Inl err, e2)
     | Inr _ \<Rightarrow> Some (Inr (), session_sent W (e2\<lparr>fe_session := after (fe_session e2)\<rparr>)))"
  using assms by (cases x) (simp_all add: send_built_def now_timestamp_def next_outbound_seq_num_def Let_def)

lemma sent_outbound:
  "ss_outbound_seq_num (fe_session (session_sent W e)) = ss_outbound_seq_num (fe_session e)"
  by (simp add: session_sent_def instant_def on_message_sent_def Let_def split: prod.split)

text \<open>
  A heartbeat on the wire. The bytes that the engine hands to the transport are a message that
  the parser accepts in full, with type Heartbeat, the session's identifiers and the outbound
  number; that number is used up, also when the transport refuses the bytes.
\<close>

theorem heartbeat_on_wire:
  assumes "length (fe_send_buf e) = 4096" "cfg_clean (ss_config (fe_session e))"
    and "wo_wall W (fe_world e) = (t, w1)"
    and "d = heartbeat_text (ss_config (fe_session e)) (ss_outbound_seq_num (fe_session e)) (to_fix_timestamp t)"
  shows "(\<exists>v. parse new_parser d = Inr (v, length d) \<and> msg_type v = Some (Some (asc ''0'')) \<and>
      msg_seq_num v = Some (Some (ss_outbound_seq_num (fe_session e))) \<and>
      get_field v SENDER_COMP_ID = Some (Some (sc_sender_comp_id (ss_config (fe_session e))))) \<and>
    (\<exists>r e'. send_heartbeat W e = Some (r, e') \<and>
      (r = (case fst (wo_send W d w1) of Inl err \<Rightarrow> Inl err | Inr _ \<Rightarrow> Inr ())) \<and>
      ss_outbound_seq_num (fe_session e') = ss_outbound_seq_num (fe_session e) + 1)"
proof -
  let ?c = "ss_config (fe_session e)" and ?n = "ss_outbound_seq_num (fe_session e)"
  have fit: "length d \<le> length (fe_send_buf e)"
    using texts_fit(2) [OF _ stamp_length, of ?c ?n t] assms by (simp add: cfg_clean_def)
  obtain x w2 where w2: "wo_send W d w1 = (x, w2)" by fastforce
  have b: "heartbeat_builder (fe_send_buf e) ?c ?n (to_fix_timestamp t) =
      Some (d @ drop (length d) (fe_send_buf e), length d)"
    using fit assms(4) by (simp add: builders_emit emit_fits)
  have "\<exists>r e'. send_heartbeat W e = Some (r, e') \<and>
      (r = (case fst (wo_send W d w1) of Inl err \<Rightarrow> Inl err | Inr _ \<Rightarrow> Inr ())) \<and>
      ss_outbound_seq_num (fe_session e') = ?n + 1"
    unfolding send_heartbeat_def
    using send_built_run [where build = heartbeat_builder and after = "\<lambda>s. s" and x = x and ?w2.0 = w2,
        OF assms(3) b] w2
    by (cases x) (simp_all add: sent_outbound)
  then show ?thesis
    using heartbeat_text_parses [OF assms(2) stamp_length stamp_no_soh, of ?n t] assms(4) by blast
qed

subsection \<open>The handshake\<close>

lemma handle_parsed:
  assumes "parse (fe_parser e) msg = Inr (v, n)" "msg_type v = Some (Some mt)" "msg_seq_num v = Some (Some q)"
  shows "handle_message W app msg a e = dispatch W app mt v a (session_validate W q (session_received W e))"
  using assms by (simp add: handle_message_def Let_def)

lemma received_state [simp]:
  "ss_state (fe_session (session_received W e)) = ss_state (fe_session e)"
  "ss_inbound_seq_num (fe_session (session_received W e)) = ss_inbound_seq_num (fe_session e)"
  "ss_config (fe_session (session_received W e)) = ss_config (fe_session e)"
  by (simp_all add: session_received_def instant_def on_message_received_def Let_def split: prod.split)

lemma validate_result:
  "ss_state (snd (validate_inbound_seq t q s)) = (if q > ss_inbound_seq_num s then Resending else ss_state s)"
  "ss_config (snd (validate_inbound_seq t q s)) = ss_config s"
  "q = ss_inbound_seq_num s \<Longrightarrow> ss_inbound_seq_num (snd (validate_inbound_seq t q s)) = q + 1"
  by (simp_all add: validate_inbound_seq_def)

lemma validate_state:
  "ss_state (fe_session (session_validate W q e)) =
     (if q > ss_inbound_seq_num (fe_session e) then Resending else ss_state (fe_session e))"
  "ss_config (fe_session (session_validate W q e)) = ss_config (fe_session e)"
  "q = ss_inbound_seq_num (fe_session e) \<Longrightarrow>
     ss_inbound_seq_num (fe_session (session_validate W q e)) = q + 1"
proof -
  have "\<exists>t. fe_session (session_validate W q e) = snd (validate_inbound_seq t q (fe_session e))"
    by (simp add: session_validate_def instant_def Let_def split: prod.split) blast
  then obtain t where t: "fe_session (session_validate W q e) = snd (validate_inbound_seq t q (fe_session e))" ..
  show "ss_state (fe_session (session_validate W q e)) =
      (if q > ss_inbound_seq_num (fe_session e) then Resending else ss_state (fe_session e))"
    "ss_config (fe_session (session_validate W q e)) = ss_config (fe_session e)"
    "q = ss_inbound_seq_num (fe_session e) \<Longrightarrow> ss_inbound_seq_num (fe_session (session_validate W q e)) = q + 1"
    unfolding t using validate_result [where t = t and q = q and s = "fe_session e"] by blast+
qed

text \<open>
  The logon reply. An initiator that waits for the reply to its Logon becomes Active and calls
  the application when the reply carries the expected number; when the number is higher, the gap
  check has already moved the session to Resending, the reply is dropped, the application is never
  told, and the session is not Active.
\<close>

theorem logon_reply:
  assumes "parse (fe_parser e) msg = Inr (v, n)" "msg_type v = Some (Some (asc ''A''))"
    and "msg_seq_num v = Some (Some q)" "ss_state (fe_session e) = LogonSent"
    and "sc_role (ss_config (fe_session e)) = Initiator"
  shows "(q = ss_inbound_seq_num (fe_session e) \<longrightarrow>
      (\<exists>e'. handle_message W app msg a e = call_app W (ap_on_logon app a) e' \<and>
        ss_state (fe_session e') = Active \<and> ss_inbound_seq_num (fe_session e') = q + 1)) \<and>
    (q > ss_inbound_seq_num (fe_session e) \<longrightarrow>
      (\<exists>e'. handle_message W app msg a e = Some (Inr (), a, e') \<and> ss_state (fe_session e') = Resending))"
proof -
  let ?e = "session_validate W q (session_received W e)"
  have h: "handle_message W app msg a e = dispatch_logon W app a ?e"
    using handle_parsed [OF assms(1-3)] by (simp add: dispatch_def)
  have logon: "ss_state (fe_session (session_logon W x)) = Active"
    "ss_inbound_seq_num (fe_session (session_logon W x)) = ss_inbound_seq_num (fe_session x)" for x
    by (simp_all add: session_logon_def instant_def on_logon_def Let_def split: prod.split)
  show ?thesis
    using assms(4,5) validate_state [where W = W and q = q and e = "session_received W e"]
    by (auto simp: h dispatch_logon_def Let_def logon intro: exI [of _ "session_logon W ?e"])
qed

subsection \<open>The loop\<close>

lemma idle_iteration:
  assumes "\<And>w. fst (wo_recv W 8192 w) = Inr []" "ss_state (fe_session e) \<noteq> Active" "\<not> fe_should_stop e"
  shows "\<exists>e'. loop_iteration W app a e = Some (Inr False, a, e') \<and> ss_state (fe_session e') \<noteq> Active \<and>
    \<not> fe_should_stop e'"
proof -
  obtain t e1 where i: "instant W e = (t, e1)" by fastforce
  then have e1: "fe_session e1 = fe_session e" "fe_should_stop e1 = fe_should_stop e"
    by (auto simp: instant_def split: prod.splits)
  have t: "drive_timer W e = Some (Inr False, e1)"
    using i e1 assms(2) by (simp add: drive_timer_def check_heartbeat_def)
  obtain w where "wo_recv W 8192 (fe_world e1) = (Inr [], w)"
    using assms(1) [of "fe_world e1"] by (metis prod.collapse)
  then show ?thesis using t e1 assms(2,3) by (simp add: loop_iteration_def receive_batch_def Let_def)
qed

lemma idle_loop:
  assumes "\<And>w. fst (wo_recv W 8192 w) = Inr []" "ss_state (fe_session e) \<noteq> Active" "\<not> fe_should_stop e"
  shows "\<exists>e'. run_loop n W app a e = Some (None, a, e')"
  using assms(2,3)
proof (induction n arbitrary: e)
  case 0
  then show ?case by simp
next
  case (Suc n)
  from idle_iteration [OF assms(1) Suc.prems] obtain e' where
    e': "loop_iteration W app a e = Some (Inr False, a, e')" "ss_state (fe_session e') \<noteq> Active" "\<not> fe_should_stop e'"
    by metis
  from Suc.IH [OF e'(2,3)] e'(1) show ?case by simp
qed

text \<open>
  C33. There is no logon timeout. While the transport delivers nothing (the socket transport also
  reports the end of the stream this way), an engine whose session is not Active, which includes
  one that waits for the Logon reply and one that is Resending, runs for ever: after any number of
  iterations it is still running, with the application untouched.
\<close>

theorem no_logon_timeout:
  assumes "\<And>w. fst (wo_recv W 8192 w) = Inr []" "ss_state (fe_session e) \<noteq> Active" "\<not> fe_should_stop e"
  shows "\<exists>e'. run_loop n W app a e = Some (None, a, e')"
  by (rule idle_loop [OF assms])

definition silent_world :: "(nat \<times> aeron) World" where
  "silent_world = aeron_world\<lparr>wo_recv := (\<lambda>n w. (Inr [], w))\<rparr>"

theorem no_logon_timeout_witness:
  "\<exists>e'. run_loop 1000 silent_world quiet_app ()
     (new_initiator (0, \<lambda>_. None, end_a) ((new_session 0 default_config)\<lparr>ss_state := LogonSent\<rparr>)) = Some (None, (), e')"
  by (rule no_logon_timeout) (simp_all add: silent_world_def new_initiator_def)

theorem heartbeat_on_wire_witness:
  "\<exists>r e'. send_heartbeat aeron_world (new_initiator (0, \<lambda>_. None, end_a) (new_session 0 default_config)) = Some (r, e') \<and>
     ss_outbound_seq_num (fe_session e') = 1 + 1"
  using heartbeat_on_wire [of "new_initiator (0, \<lambda>_. None, end_a) (new_session 0 default_config)" aeron_world 0
      "(0, \<lambda>_. None, end_a)" "heartbeat_text default_config 1 (to_fix_timestamp 0)"]
  by (auto simp: new_initiator_def new_session_def aeron_world_def cfg_clean_def cfg_fits_def
      default_config_def secs_def asc_def SOH_def)

theorem logon_reply_witness:
  "\<exists>e'. handle_message aeron_world quiet_app (wire (asc ''FIX.4.4'') [(MSG_TYPE, asc ''A''), (MSG_SEQ_NUM, dec 7)]) ()
      (new_initiator (0, \<lambda>_. None, end_a) ((new_session 0 default_config)\<lparr>ss_state := LogonSent\<rparr>)) =
      Some (Inr (), (), e') \<and> ss_state (fe_session e') = Resending"
proof -
  let ?fs = "[(MSG_SEQ_NUM, dec 7)]"
  let ?msg = "wire (asc ''FIX.4.4'') ((MSG_TYPE, asc ''A'') # ?fs)"
  let ?e = "new_initiator (0, \<lambda>_. None, end_a) ((new_session 0 default_config)\<lparr>ss_state := LogonSent\<rparr>)"
  have "SOH \<notin> set (asc ''FIX.4.4'')" "SOH \<notin> set (asc ''A'')" "list_all good_field ?fs"
    "length ?fs + 4 \<le> MAX_FIELDS" "length (?msg @ []) \<le> fp_max_message_size new_parser"
    "fp_max_message_size new_parser \<le> 65536"
    by (simp_all add: asc_def SOH_def good_field_def tag_defs dec_small digit_def MAX_FIELDS_def
        new_parser_def wire_eval)
  from parse_wire_helper [OF this] obtain v where v: "parse new_parser ?msg = Inr (v, length ?msg)"
    "view_ok v" "idx_ok v" "field_pairs v = parsed_fields (asc ''FIX.4.4'') ((MSG_TYPE, asc ''A'') # ?fs)"
    by auto
  have mt: "msg_type v = Some (Some (asc ''A''))" using v(2-4) by (intro msg_type_parsed) (auto simp: tag_defs)
  have "msg_seq_num v = Some (Some 7)"
    using v(4) get_field_map_of [OF v(2)] parse_u64_dec [of 7]
    by (simp add: msg_seq_num_def get_field_u64_def parsed_fields_def tag_defs)
  moreover have "parse (fe_parser ?e) ?msg = Inr (v, length ?msg)" using v(1) by (simp add: new_initiator_def)
  ultimately show ?thesis
    using logon_reply [of ?e ?msg v "length ?msg" 7 aeron_world quiet_app "()"] mt
    by (simp add: new_initiator_def new_session_def default_config_def)
qed

end
