(* ===== verification/Fixt.thy ===== *)
theory Fixt
  imports Message Session
begin

text \<open>
  \<open>src/src/fixt.rs\<close>: the FIXT 1.1 session, a base session with the negotiation of an application
  version. Errors are the error side of a sum; the outer option is the panic of a lookup on an
  ill-formed view. The operations that only delegate to the base session are the events of
  theory \<open>Session\<close>, lifted by \<open>fixt_step\<close>.
\<close>

section \<open>Application versions\<close>

definition APPL_VER_ID :: u32 where "APPL_VER_ID = 1128"
definition DEFAULT_APPL_VER_ID :: u32 where "DEFAULT_APPL_VER_ID = 1137"
definition CSTM_APPL_VER_ID :: u32 where "CSTM_APPL_VER_ID = 1129"
definition APPL_EXT_ID :: u32 where "APPL_EXT_ID = 1156"

definition FIXT_BEGIN_STRING :: bytes where "FIXT_BEGIN_STRING = asc ''FIXT.1.1''"

datatype ApplVerID = Fix27 | Fix30 | Fix40 | Fix41 | Fix42 | Fix43 | Fix44 | Fix50 | Fix50SP1 | Fix50SP2

definition appl_ver_from_bytes :: "bytes \<Rightarrow> ApplVerID option" where
  "appl_ver_from_bytes bs =
     (if bs = asc ''0'' then Some Fix27 else if bs = asc ''1'' then Some Fix30
      else if bs = asc ''2'' then Some Fix40 else if bs = asc ''3'' then Some Fix41
      else if bs = asc ''4'' then Some Fix42 else if bs = asc ''5'' then Some Fix43
      else if bs = asc ''6'' then Some Fix44 else if bs = asc ''7'' then Some Fix50
      else if bs = asc ''8'' then Some Fix50SP1 else if bs = asc ''9'' then Some Fix50SP2
      else None)"

fun appl_ver_as_bytes :: "ApplVerID \<Rightarrow> bytes" where
  "appl_ver_as_bytes Fix27 = asc ''0''"
| "appl_ver_as_bytes Fix30 = asc ''1''"
| "appl_ver_as_bytes Fix40 = asc ''2''"
| "appl_ver_as_bytes Fix41 = asc ''3''"
| "appl_ver_as_bytes Fix42 = asc ''4''"
| "appl_ver_as_bytes Fix43 = asc ''5''"
| "appl_ver_as_bytes Fix44 = asc ''6''"
| "appl_ver_as_bytes Fix50 = asc ''7''"
| "appl_ver_as_bytes Fix50SP1 = asc ''8''"
| "appl_ver_as_bytes Fix50SP2 = asc ''9''"

fun as_fix_version_str :: "ApplVerID \<Rightarrow> bytes" where
  "as_fix_version_str Fix27 = asc ''FIX.2.7''"
| "as_fix_version_str Fix30 = asc ''FIX.3.0''"
| "as_fix_version_str Fix40 = asc ''FIX.4.0''"
| "as_fix_version_str Fix41 = asc ''FIX.4.1''"
| "as_fix_version_str Fix42 = asc ''FIX.4.2''"
| "as_fix_version_str Fix43 = asc ''FIX.4.3''"
| "as_fix_version_str Fix44 = asc ''FIX.4.4''"
| "as_fix_version_str Fix50 = asc ''FIX.5.0''"
| "as_fix_version_str Fix50SP1 = asc ''FIX.5.0SP1''"
| "as_fix_version_str Fix50SP2 = asc ''FIX.5.0SP2''"

interpretation appl_ver_codec: codec "\<lambda>_. True" appl_ver_as_bytes appl_ver_from_bytes
proof
  fix v show "appl_ver_from_bytes (appl_ver_as_bytes v) = Some v"
    by (cases v) (simp_all add: appl_ver_from_bytes_def asc_def)
qed

section \<open>The session\<close>

record FixtSessionConfig =
  fc_base :: SessionConfig
  fc_default_appl_ver_id :: ApplVerID
  fc_supported_versions :: "ApplVerID list"

record FixtSession =
  fx_base :: Session
  fx_config :: FixtSessionConfig
  fx_negotiated_version :: "ApplVerID option"

record LogonField =
  lf_tag :: u32
  lf_value :: bytes

datatype FixtError =
  MissingDefaultApplVerID | UnsupportedApplVerID bytes | InvalidApplVerID bytes | MissingApplVerID

definition new_fixt_session :: "nat \<Rightarrow> FixtSessionConfig \<Rightarrow> FixtSession" where
  "new_fixt_session now config =
     (let config = config\<lparr>fc_base := (fc_base config)\<lparr>sc_fix_version := FIXT_BEGIN_STRING\<rparr>\<rparr>;
          config = (if fc_default_appl_ver_id config \<notin> set (fc_supported_versions config)
                    then config\<lparr>fc_supported_versions :=
                           fc_supported_versions config @ [fc_default_appl_ver_id config]\<rparr>
                    else config) in
      \<lparr>fx_base = new_session now (fc_base config), fx_config = config, fx_negotiated_version = None\<rparr>)"

text \<open>The check of a version field: \<open>from_bytes\<close>, then membership in the supported versions.\<close>

definition check_version :: "FixtSession \<Rightarrow> bytes \<Rightarrow> FixtError + ApplVerID" where
  "check_version s ver_bytes =
     (case appl_ver_from_bytes ver_bytes of
        None \<Rightarrow> Inl (InvalidApplVerID ver_bytes)
      | Some ver \<Rightarrow>
          if ver \<notin> set (fc_supported_versions (fx_config s)) then Inl (UnsupportedApplVerID ver_bytes)
          else Inr ver)"

definition on_logon_received ::
  "nat \<Rightarrow> MessageView \<Rightarrow> FixtSession \<Rightarrow> ((FixtError + unit) \<times> FixtSession) run" where
  "on_logon_received now msg s =
     map_option (\<lambda>f.
       case f of None \<Rightarrow> (Inl MissingDefaultApplVerID, s)
       | Some ver_bytes \<Rightarrow>
           (case check_version s ver_bytes of Inl e \<Rightarrow> (Inl e, s)
            | Inr ver \<Rightarrow>
                (Inr (), s\<lparr>fx_negotiated_version := Some ver, fx_base := on_logon now (fx_base s)\<rparr>)))
       (get_field msg DEFAULT_APPL_VER_ID)"

definition build_logon_fields :: "FixtSession \<Rightarrow> LogonField list" where
  "build_logon_fields s =
     [\<lparr>lf_tag = DEFAULT_APPL_VER_ID, lf_value = appl_ver_as_bytes (fc_default_appl_ver_id (fx_config s))\<rparr>]"

definition validate_appl_ver :: "FixtSession \<Rightarrow> MessageView \<Rightarrow> (FixtError + ApplVerID) run" where
  "validate_appl_ver s msg =
     Option.bind (msg_type_enum msg) (\<lambda>mt.
       if (case mt of Some m \<Rightarrow> is_session_level m | None \<Rightarrow> False)
       then Some (Inr (case fx_negotiated_version s of Some v \<Rightarrow> v
                       | None \<Rightarrow> fc_default_appl_ver_id (fx_config s)))
       else map_option (\<lambda>f.
         case f of Some ver_bytes \<Rightarrow> check_version s ver_bytes
         | None \<Rightarrow> (case fx_negotiated_version s of Some v \<Rightarrow> Inr v | None \<Rightarrow> Inl MissingApplVerID))
         (get_field msg APPL_VER_ID))"

text \<open>The delegated operations; a disconnect also forgets the negotiated version.\<close>

fun fixt_step :: "FixtSession \<Rightarrow> SessionEvent \<Rightarrow> FixtSession" where
  "fixt_step s DisconnectedEv =
     s\<lparr>fx_base := on_disconnected (fx_base s), fx_negotiated_version := None\<rparr>"
| "fixt_step s e = s\<lparr>fx_base := session_step (fx_base s) e\<rparr>"

datatype FixtEvent = Base SessionEvent | LogonReceived nat MessageView

fun fixt_event :: "FixtSession \<Rightarrow> FixtEvent \<Rightarrow> FixtSession" where
  "fixt_event s (Base e) = fixt_step s e"
| "fixt_event s (LogonReceived now msg) =
     (case on_logon_received now msg s of Some (_, s') \<Rightarrow> s' | None \<Rightarrow> s)"

section \<open>Invariant\<close>

definition fixt_inv :: "FixtSession \<Rightarrow> bool" where
  "fixt_inv s \<longleftrightarrow>
     fc_default_appl_ver_id (fx_config s) \<in> set (fc_supported_versions (fx_config s)) \<and>
     (\<forall>v. fx_negotiated_version s = Some v \<longrightarrow> v \<in> set (fc_supported_versions (fx_config s))) \<and>
     ss_config (fx_base s) = fc_base (fx_config s) \<and>
     sc_fix_version (fc_base (fx_config s)) = FIXT_BEGIN_STRING \<and> session_inv (fx_base s)"

lemma check_version_Inr:
  "check_version s bs = Inr v \<longleftrightarrow>
     appl_ver_from_bytes bs = Some v \<and> v \<in> set (fc_supported_versions (fx_config s))"
  by (auto simp: check_version_def split: option.splits)

lemma on_logon_config [simp]: "ss_config (on_logon now s) = ss_config s"
  by (simp add: on_logon_def)

lemma on_logon_inv: "session_inv s \<Longrightarrow> session_inv (on_logon now s)"
  using session_step_inv [of s "LoggedOn now"] by simp

lemma fixt_step_eq:
  "fixt_step s e =
     s\<lparr>fx_base := session_step (fx_base s) e,
       fx_negotiated_version := (if e = DisconnectedEv then None else fx_negotiated_version s)\<rparr>"
  by (cases e) simp_all

lemma fixt_event_inv: "fixt_inv s \<Longrightarrow> fixt_inv (fixt_event s e)"
proof (cases e)
  case (Base b)
  then show "fixt_inv s \<Longrightarrow> fixt_inv (fixt_event s e)"
    by (auto simp: fixt_inv_def fixt_step_eq session_step_config session_step_inv)
next
  case (LogonReceived now msg)
  then show "fixt_inv s \<Longrightarrow> fixt_inv (fixt_event s e)"
    by (auto simp: fixt_inv_def on_logon_received_def check_version_Inr on_logon_inv
        split: option.splits sum.splits)
qed

lemma fixt_event_config: "fx_config (fixt_event s e) = fx_config s"
  by (cases e) (auto simp: fixt_step_eq on_logon_received_def split: option.splits sum.splits)

interpretation fixt_machine: machine fixt_event fixt_inv
  by unfold_locales (rule fixt_event_inv)

lemma new_fixt_inv: "fixt_inv (new_fixt_session now c)"
  by (auto simp: fixt_inv_def new_fixt_session_def Let_def new_session_inv)
    (simp_all add: new_session_def)

section \<open>Properties\<close>

lemma validate_supported:
  assumes "fixt_inv s" "validate_appl_ver s msg = Some (Inr v)"
  shows "v \<in> set (fc_supported_versions (fx_config s))"
  using assms by (auto simp: fixt_inv_def validate_appl_ver_def check_version_Inr
      Option.bind_eq_Some_conv split: option.splits if_splits)

text \<open>
  C30. Only supported versions are ever accepted. After any sequence of session events, logons and
  disconnects from a new FIXT session, a version that the validation of a message returns is one
  of the configured ones (or the default one, which is added to them), and so is the negotiated
  version.
\<close>

theorem fixt_versions_supported:
  assumes "s = foldl fixt_event (new_fixt_session now c) es"
    and "validate_appl_ver s msg = Some (Inr v) \<or> fx_negotiated_version s = Some v"
  shows "v \<in> set (fc_supported_versions c) \<union> {fc_default_appl_ver_id c}"
proof -
  have inv: "fixt_inv s"
    using fixt_machine.run_inv [OF new_fixt_inv] assms(1) by blast
  have "fx_config s = fx_config (new_fixt_session now c)"
    using fixt_machine.run_const [of fx_config, OF fixt_event_config new_fixt_inv] assms(1) by blast
  then have "set (fc_supported_versions (fx_config s)) = set (fc_supported_versions c) \<union> {fc_default_appl_ver_id c}"
    by (auto simp: new_fixt_session_def Let_def)
  then show ?thesis
    using assms(2) validate_supported [OF inv] inv by (auto simp: fixt_inv_def)
qed

theorem fixt_versions_supported_witness:
  "let c = \<lparr>fc_base = default_config, fc_default_appl_ver_id = Fix44, fc_supported_versions = [Fix50]\<rparr>;
       s = foldl fixt_event (new_fixt_session 0 c)
             [LogonReceived 5 (add_field (new_view [55]) DEFAULT_APPL_VER_ID 0 1)] in
   fx_negotiated_version s = Some Fix50 \<and> Fix50 \<in> {Fix50, Fix44}"
proof -
  let ?c = "\<lparr>fc_base = default_config, fc_default_appl_ver_id = Fix44, fc_supported_versions = [Fix50]\<rparr>"
  let ?es = "[LogonReceived 5 (add_field (new_view [55]) DEFAULT_APPL_VER_ID 0 1)]"
  have "fx_negotiated_version (foldl fixt_event (new_fixt_session 0 ?c) ?es) = Some Fix50"
    by (simp add: on_logon_received_def get_field_def new_view_def add_field_def field_count_def
        MAX_FIELDS_def entry_value_def slice_def check_version_def appl_ver_from_bytes_def asc_def
        new_fixt_session_def Let_def)
  with fixt_versions_supported [OF refl disjI2 [OF this]] show ?thesis by (simp add: Let_def)
qed

end
