(* ===== verification/Acceptor.thy ===== *)
theory Acceptor
  imports Session
begin

text \<open>
  \<open>src/src/acceptor.rs\<close>: the acceptor with its pool of connection slots. The slots are a list that
  keeps its length; an operation that scans it takes the first match, as the iterators do. The
  clock reading of \<open>Session::new\<close> is an argument of \<open>accept_connection\<close>.
\<close>

section \<open>State\<close>

record AcceptorConfig =
  ac_bind_address :: bytes
  ac_port :: u16
  ac_max_connections :: nat
  ac_connection_pool_size :: nat
  ac_accept_timeout_ms :: u64
  ac_allowed_comp_ids :: "bytes list"
  ac_require_auth :: bool
  ac_default_heartbeat_interval :: nat
  ac_default_fix_version :: bytes

definition default_acceptor_config :: AcceptorConfig where
  "default_acceptor_config =
     \<lparr>ac_bind_address = asc ''0.0.0.0'', ac_port = 9878, ac_max_connections = 1024,
      ac_connection_pool_size = 256, ac_accept_timeout_ms = 5000, ac_allowed_comp_ids = [],
      ac_require_auth = False, ac_default_heartbeat_interval = secs 30,
      ac_default_fix_version = asc ''FIX.4.4''\<rparr>"

datatype ConnectionState = Available | InUse | Draining | Closed

record PooledConnection =
  pc_id :: u64
  pc_state :: ConnectionState
  pc_session :: "Session option"
  pc_remote_comp_id :: bytes
  pc_remote_address :: bytes
  pc_connected_at_ms :: u64
  pc_last_active_ms :: u64
  pc_bytes_received :: u64
  pc_bytes_sent :: u64

datatype AcceptorError =
  PoolExhausted | CompIdNotAllowed bytes | AlreadyConnected bytes | ConnectionNotFound u64 | AuthRequired

record AcceptorStats =
  as_active_connections :: nat
  as_pool_available :: nat
  as_total_accepted :: u64
  as_total_rejected :: u64
  as_total_bytes_received :: u64
  as_total_bytes_sent :: u64

record Acceptor =
  aa_config :: AcceptorConfig
  aa_connections :: "PooledConnection list"
  aa_next_conn_id :: u64
  aa_total_accepted :: u64
  aa_total_rejected :: u64

section \<open>Operations\<close>

text \<open>An empty slot with an id; what a release and an eviction write into a slot.\<close>

definition empty_slot :: "u64 \<Rightarrow> PooledConnection" where
  "empty_slot i =
     \<lparr>pc_id = i, pc_state = Available, pc_session = None, pc_remote_comp_id = [], pc_remote_address = [],
      pc_connected_at_ms = 0, pc_last_active_ms = 0, pc_bytes_received = 0, pc_bytes_sent = 0\<rparr>"

definition clear_slot :: "PooledConnection \<Rightarrow> PooledConnection" where
  "clear_slot c =
     c\<lparr>pc_state := Available, pc_session := None, pc_remote_comp_id := [], pc_remote_address := [],
       pc_connected_at_ms := 0, pc_last_active_ms := 0, pc_bytes_received := 0, pc_bytes_sent := 0\<rparr>"

definition new_acceptor_pool :: "AcceptorConfig \<Rightarrow> Acceptor" where
  "new_acceptor_pool config =
     (let pool_size = ac_connection_pool_size config in
      \<lparr>aa_config = config, aa_connections = map (\<lambda>i. empty_slot (of_nat i)) [0..<pool_size],
       aa_next_conn_id = of_nat pool_size, aa_total_accepted = 0, aa_total_rejected = 0\<rparr>)"

definition is_active :: "PooledConnection \<Rightarrow> bool" where
  "is_active c \<longleftrightarrow> pc_state c = InUse \<or> pc_state c = Draining"

definition is_comp_id_allowed :: "Acceptor \<Rightarrow> bytes \<Rightarrow> bool" where
  "is_comp_id_allowed a comp_id =
     (if ac_allowed_comp_ids (aa_config a) = [] then True
      else comp_id \<in> set (ac_allowed_comp_ids (aa_config a)))"

definition find_by_comp_id :: "Acceptor \<Rightarrow> bytes \<Rightarrow> u64 option" where
  "find_by_comp_id a comp_id =
     map_option pc_id (find (\<lambda>c. is_active c \<and> pc_remote_comp_id c = comp_id) (aa_connections a))"

definition session_config_for :: "AcceptorConfig \<Rightarrow> u64 \<Rightarrow> bytes \<Rightarrow> SessionConfig" where
  "session_config_for config conn_id comp_id =
     \<lparr>sc_session_id = asc ''ACC-'' @ dec (unat conn_id), sc_fix_version = ac_default_fix_version config,
      sc_sender_comp_id = asc ''VELOCITAS'', sc_target_comp_id = comp_id, sc_role = Session.Acceptor,
      sc_heartbeat_interval = ac_default_heartbeat_interval config, sc_reconnect_interval = 0,
      sc_max_reconnect_attempts = 0, sc_sequence_reset_policy = Daily, sc_validate_comp_ids = True,
      sc_max_msg_rate = 50000\<rparr>"

definition reject :: "Acceptor \<Rightarrow> AcceptorError \<Rightarrow> (AcceptorError + u64) \<times> Acceptor" where
  "reject a err = (Inl err, a\<lparr>aa_total_rejected := aa_total_rejected a + 1\<rparr>)"

definition accept_connection ::
  "nat \<Rightarrow> bytes \<Rightarrow> bytes \<Rightarrow> u64 \<Rightarrow> Acceptor \<Rightarrow> (AcceptorError + u64) \<times> Acceptor" where
  "accept_connection now remote_addr comp_id current_time_ms a =
     (if ac_require_auth (aa_config a) then reject a AuthRequired
      else if \<not> is_comp_id_allowed a comp_id then reject a (CompIdNotAllowed comp_id)
      else if find_by_comp_id a comp_id \<noteq> None then reject a (AlreadyConnected comp_id)
      else case position (\<lambda>c. pc_state c = Available) (aa_connections a) of
        None \<Rightarrow> reject a PoolExhausted
      | Some slot_idx \<Rightarrow>
          (let conn_id = aa_next_conn_id a;
               conn = (aa_connections a ! slot_idx)
                 \<lparr>pc_id := conn_id, pc_state := InUse,
                  pc_session := Some (new_session now (session_config_for (aa_config a) conn_id comp_id)),
                  pc_remote_comp_id := comp_id, pc_remote_address := remote_addr,
                  pc_connected_at_ms := current_time_ms, pc_last_active_ms := current_time_ms,
                  pc_bytes_received := 0, pc_bytes_sent := 0\<rparr> in
           (Inr conn_id,
            a\<lparr>aa_connections := (aa_connections a)[slot_idx := conn], aa_next_conn_id := conn_id + 1,
              aa_total_accepted := aa_total_accepted a + 1\<rparr>)))"

text \<open>\<open>iter_mut().find(p)\<close> followed by an update of the found element.\<close>

fun update_first :: "('x \<Rightarrow> bool) \<Rightarrow> ('x \<Rightarrow> 'x) \<Rightarrow> 'x list \<Rightarrow> 'x list option" where
  "update_first P f [] = None"
| "update_first P f (x # xs) = (if P x then Some (f x # xs) else map_option ((#) x) (update_first P f xs))"

definition release_connection :: "u64 \<Rightarrow> Acceptor \<Rightarrow> (AcceptorError + unit) \<times> Acceptor" where
  "release_connection conn_id a =
     (case update_first (\<lambda>c. pc_id c = conn_id \<and> pc_state c \<noteq> Available) clear_slot (aa_connections a) of
        Some cs \<Rightarrow> (Inr (), a\<lparr>aa_connections := cs\<rparr>)
      | None \<Rightarrow> (Inl (ConnectionNotFound conn_id), a))"

definition get_connection :: "Acceptor \<Rightarrow> u64 \<Rightarrow> PooledConnection option" where
  "get_connection a conn_id = find (\<lambda>c. pc_id c = conn_id) (aa_connections a)"

definition get_session :: "Acceptor \<Rightarrow> u64 \<Rightarrow> Session option" where
  "get_session a conn_id = Option.bind (get_connection a conn_id) pc_session"

text \<open>What a caller does through \<open>get_connection_mut\<close> and \<open>get_session_mut\<close>.\<close>

definition with_connection :: "u64 \<Rightarrow> (PooledConnection \<Rightarrow> PooledConnection) \<Rightarrow> Acceptor \<Rightarrow> Acceptor" where
  "with_connection conn_id f a =
     (case update_first (\<lambda>c. pc_id c = conn_id) f (aa_connections a) of
        Some cs \<Rightarrow> a\<lparr>aa_connections := cs\<rparr> | None \<Rightarrow> a)"

definition with_session :: "u64 \<Rightarrow> (Session \<Rightarrow> Session) \<Rightarrow> Acceptor \<Rightarrow> Acceptor" where
  "with_session conn_id f = with_connection conn_id (\<lambda>c. c\<lparr>pc_session := map_option f (pc_session c)\<rparr>)"

definition drain_connection :: "u64 \<Rightarrow> Acceptor \<Rightarrow> (AcceptorError + unit) \<times> Acceptor" where
  "drain_connection conn_id a =
     (case get_connection a conn_id of
        Some c \<Rightarrow>
          (if pc_state c = InUse then (Inr (), with_connection conn_id (\<lambda>c. c\<lparr>pc_state := Draining\<rparr>) a)
           else (Inl (ConnectionNotFound conn_id), a))
      | None \<Rightarrow> (Inl (ConnectionNotFound conn_id), a))"

definition active_count :: "Acceptor \<Rightarrow> nat" where
  "active_count a = length (filter is_active (aa_connections a))"

definition saturating_sub :: "u64 \<Rightarrow> u64 \<Rightarrow> u64" where
  "saturating_sub x y = (if y \<le> x then x - y else 0)"

definition is_idle :: "u64 \<Rightarrow> u64 \<Rightarrow> PooledConnection \<Rightarrow> bool" where
  "is_idle max_idle_ms current_time_ms c \<longleftrightarrow>
     pc_state c = InUse \<and> saturating_sub current_time_ms (pc_last_active_ms c) > max_idle_ms"

definition evict_idle :: "u64 \<Rightarrow> u64 \<Rightarrow> Acceptor \<Rightarrow> nat \<times> Acceptor" where
  "evict_idle max_idle_ms current_time_ms a =
     (length (filter (is_idle max_idle_ms current_time_ms) (aa_connections a)),
      a\<lparr>aa_connections := map (\<lambda>c. if is_idle max_idle_ms current_time_ms c then clear_slot c else c)
          (aa_connections a)\<rparr>)"

definition stats :: "Acceptor \<Rightarrow> AcceptorStats" where
  "stats a =
     \<lparr>as_active_connections = active_count a,
      as_pool_available = length (filter (\<lambda>c. pc_state c = Available) (aa_connections a)),
      as_total_accepted = aa_total_accepted a, as_total_rejected = aa_total_rejected a,
      as_total_bytes_received = sum_list (map pc_bytes_received (aa_connections a)),
      as_total_bytes_sent = sum_list (map pc_bytes_sent (aa_connections a))\<rparr>"

section \<open>Events and invariant\<close>

datatype AcceptorEvent =
  AcceptEv nat bytes bytes u64
| ReleaseEv u64
| DrainEv u64
| EvictEv u64 u64
| SessionEv u64 SessionEvent
| TrafficEv u64 u64 u64 u64

text \<open>Traffic accounting through \<open>get_connection_mut\<close>: bytes in, bytes out, the time.\<close>

definition count_traffic :: "u64 \<Rightarrow> u64 \<Rightarrow> u64 \<Rightarrow> PooledConnection \<Rightarrow> PooledConnection" where
  "count_traffic rx tx now c =
     c\<lparr>pc_bytes_received := pc_bytes_received c + rx, pc_bytes_sent := pc_bytes_sent c + tx,
       pc_last_active_ms := now\<rparr>"

fun acceptor_step :: "Acceptor \<Rightarrow> AcceptorEvent \<Rightarrow> Acceptor" where
  "acceptor_step a (AcceptEv now addr cid t) = snd (accept_connection now addr cid t a)"
| "acceptor_step a (ReleaseEv i) = snd (release_connection i a)"
| "acceptor_step a (DrainEv i) = snd (drain_connection i a)"
| "acceptor_step a (EvictEv m t) = snd (evict_idle m t a)"
| "acceptor_step a (SessionEv i e) = with_session i (\<lambda>s. session_step s e) a"
| "acceptor_step a (TrafficEv i rx tx now) = with_connection i (count_traffic rx tx now) a"

definition slot_ok :: "AcceptorConfig \<Rightarrow> PooledConnection \<Rightarrow> bool" where
  "slot_ok cfg c \<longleftrightarrow>
     (case pc_state c of
        Available \<Rightarrow> pc_session c = None \<and> pc_remote_comp_id c = []
      | Closed \<Rightarrow> False
      | _ \<Rightarrow> (case pc_session c of None \<Rightarrow> False
              | Some s \<Rightarrow> sc_role (ss_config s) = Session.Acceptor \<and>
                  sc_target_comp_id (ss_config s) = pc_remote_comp_id c \<and>
                  (ac_allowed_comp_ids cfg = [] \<or> pc_remote_comp_id c \<in> set (ac_allowed_comp_ids cfg))))"

definition unique_comps :: "PooledConnection list \<Rightarrow> bool" where
  "unique_comps cs \<longleftrightarrow>
     (\<forall>i < length cs. \<forall>j < length cs. is_active (cs ! i) \<and> is_active (cs ! j) \<and>
        pc_remote_comp_id (cs ! i) = pc_remote_comp_id (cs ! j) \<longrightarrow> i = j)"

definition acc_inv :: "Acceptor \<Rightarrow> bool" where
  "acc_inv a \<longleftrightarrow>
     list_all (slot_ok (aa_config a)) (aa_connections a) \<and> unique_comps (aa_connections a) \<and>
     length (aa_connections a) = ac_connection_pool_size (aa_config a)"

lemma new_acceptor_inv: "acc_inv (new_acceptor_pool c)"
  by (simp add: acc_inv_def new_acceptor_pool_def Let_def list_all_iff slot_ok_def empty_slot_def
      unique_comps_def is_active_def)

lemma update_first_Some:
  "update_first P f xs = Some ys \<Longrightarrow> \<exists>i < length xs. P (xs ! i) \<and> ys = xs[i := f (xs ! i)]"
proof (induction xs arbitrary: ys)
  case (Cons x xs)
  have "\<exists>i < length (x # xs). P ((x # xs) ! i) \<and> ys = (x # xs)[i := f ((x # xs) ! i)]" if "\<not> P x"
  proof -
    from that obtain zs where zs: "update_first P f xs = Some zs" "ys = x # zs" using Cons.prems by auto
    from Cons.IH [OF zs(1)] obtain i where "i < length xs" "P (xs ! i)" "zs = xs[i := f (xs ! i)]" by blast
    then show ?thesis using zs(2) by (intro exI [of _ "Suc i"]) simp
  qed
  then show ?case using Cons.prems by (cases "P x") (auto intro: exI [of _ 0])
qed simp

text \<open>Replacing one slot keeps the invariant when the new one is sound and its CompID is not taken.\<close>

lemma acc_inv_update:
  assumes "acc_inv a" "i < length (aa_connections a)" "slot_ok (aa_config a) c"
    and "is_active c \<Longrightarrow> is_active (aa_connections a ! i) \<and> pc_remote_comp_id c = pc_remote_comp_id (aa_connections a ! i) \<or>
      (\<forall>d \<in> set (aa_connections a). is_active d \<longrightarrow> pc_remote_comp_id d \<noteq> pc_remote_comp_id c)"
  shows "acc_inv (a\<lparr>aa_connections := (aa_connections a)[i := c]\<rparr>)"
proof -
  let ?cs = "aa_connections a"
  have ok: "list_all (slot_ok (aa_config a)) (?cs[i := c])"
    using assms(1,3) set_update_subset_insert [of ?cs i c] by (auto simp: acc_inv_def list_all_iff)
  have "unique_comps (?cs[i := c])"
    unfolding unique_comps_def
  proof (intro allI impI)
    fix j k assume jk: "j < length (?cs[i := c])" "k < length (?cs[i := c])"
      "is_active (?cs[i := c] ! j) \<and> is_active (?cs[i := c] ! k) \<and>
       pc_remote_comp_id (?cs[i := c] ! j) = pc_remote_comp_id (?cs[i := c] ! k)"
    have u: "\<And>j k. j < length ?cs \<Longrightarrow> k < length ?cs \<Longrightarrow> is_active (?cs ! j) \<Longrightarrow> is_active (?cs ! k) \<Longrightarrow>
        pc_remote_comp_id (?cs ! j) = pc_remote_comp_id (?cs ! k) \<Longrightarrow> j = k"
      using assms(1) by (auto simp: acc_inv_def unique_comps_def)
    have m: "\<And>j. j < length ?cs \<Longrightarrow> ?cs ! j \<in> set ?cs" by simp
    show "j = k"
      using jk u [of j k] u [of i k] u [of j i] assms(2) assms(4) m [of j] m [of k]
      by (cases "j = i"; cases "k = i") auto
  qed
  then show ?thesis using assms(1) ok by (simp add: acc_inv_def)
qed

lemma acc_inv_counters [simp]:
  "acc_inv (a\<lparr>aa_total_rejected := n\<rparr>) = acc_inv a"
  "acc_inv (a\<lparr>aa_total_accepted := n\<rparr>) = acc_inv a"
  "acc_inv (a\<lparr>aa_next_conn_id := i\<rparr>) = acc_inv a"
  by (simp_all add: acc_inv_def)

lemma slot_ok_clear [simp]: "slot_ok cfg (clear_slot c)" "\<not> is_active (clear_slot c)" "pc_id (clear_slot c) = pc_id c"
  by (simp_all add: slot_ok_def clear_slot_def is_active_def)

lemma slot_ok_nth: "acc_inv a \<Longrightarrow> i < length (aa_connections a) \<Longrightarrow> slot_ok (aa_config a) (aa_connections a ! i)"
  by (simp add: acc_inv_def list_all_length)

lemma with_connection_inv:
  assumes "acc_inv a" "\<And>c. slot_ok (aa_config a) c \<Longrightarrow> slot_ok (aa_config a) (f c)"
    "\<And>c. is_active (f c) \<Longrightarrow> is_active c" "\<And>c. pc_remote_comp_id (f c) = pc_remote_comp_id c"
  shows "acc_inv (with_connection i f a)"
proof (cases "update_first (\<lambda>c. pc_id c = i) f (aa_connections a)")
  case None
  then show ?thesis using assms(1) by (simp add: with_connection_def)
next
  case (Some cs)
  from update_first_Some [OF this] obtain j where j: "j < length (aa_connections a)"
    "cs = (aa_connections a)[j := f (aa_connections a ! j)]" by blast
  show ?thesis
    using Some j(2) acc_inv_update [OF assms(1) j(1) assms(2) [OF slot_ok_nth [OF assms(1) j(1)]]] assms(3,4)
    by (simp add: with_connection_def)
qed

lemma accept_cases:
  obtains (rejected) err where "accept_connection now addr cid t a = reject a err"
  | (accepted) i s where "i < length (aa_connections a)" "pc_state (aa_connections a ! i) = Available"
      "is_comp_id_allowed a cid" "find_by_comp_id a cid = None" "\<not> ac_require_auth (aa_config a)"
      "s = new_session now (session_config_for (aa_config a) (aa_next_conn_id a) cid)"
      "accept_connection now addr cid t a =
        (Inr (aa_next_conn_id a),
         a\<lparr>aa_connections := (aa_connections a)[i := (aa_connections a ! i)
             \<lparr>pc_id := aa_next_conn_id a, pc_state := InUse, pc_session := Some s,
              pc_remote_comp_id := cid, pc_remote_address := addr, pc_connected_at_ms := t,
              pc_last_active_ms := t, pc_bytes_received := 0, pc_bytes_sent := 0\<rparr>],
           aa_next_conn_id := aa_next_conn_id a + 1, aa_total_accepted := aa_total_accepted a + 1\<rparr>)"
proof -
  let ?slot = "position (\<lambda>c. pc_state c = Available) (aa_connections a)"
  consider err where "accept_connection now addr cid t a = reject a err"
    | i where "\<not> ac_require_auth (aa_config a)" "is_comp_id_allowed a cid" "find_by_comp_id a cid = None"
        "?slot = Some i"
  proof (cases "\<not> ac_require_auth (aa_config a) \<and> is_comp_id_allowed a cid \<and> find_by_comp_id a cid = None")
    case True
    then show ?thesis using that by (cases ?slot) (simp_all add: accept_connection_def)
  next
    case False
    then have "accept_connection now addr cid t a = reject a
        (if ac_require_auth (aa_config a) then AuthRequired
         else if \<not> is_comp_id_allowed a cid then CompIdNotAllowed cid else AlreadyConnected cid)"
      by (auto simp: accept_connection_def simp del: not_None_eq)
    then show ?thesis by (rule that(1))
  qed
  then show ?thesis
  proof cases
    case 1
    then show ?thesis by (rule rejected)
  next
    case 2
    with position_Some [OF 2(4)] show ?thesis
      by (intro accepted) (simp_all add: accept_connection_def Let_def)
  qed
qed

lemma find_by_comp_None:
  "find_by_comp_id a cid = None \<longleftrightarrow> (\<forall>c \<in> set (aa_connections a). is_active c \<longrightarrow> pc_remote_comp_id c \<noteq> cid)"
  by (auto simp: find_by_comp_id_def find_None_iff)

lemma accept_inv: "acc_inv a \<Longrightarrow> acc_inv (snd (accept_connection now addr cid t a))"
proof (cases rule: accept_cases [where a = a and now = now and addr = addr and cid = cid and t = t])
  case (rejected err)
  then show "acc_inv a \<Longrightarrow> ?thesis" by (simp add: reject_def)
next
  case (accepted i s)
  assume inv: "acc_inv a"
  let ?c = "(aa_connections a ! i)\<lparr>pc_id := aa_next_conn_id a, pc_state := InUse, pc_session := Some s,
      pc_remote_comp_id := cid, pc_remote_address := addr, pc_connected_at_ms := t,
      pc_last_active_ms := t, pc_bytes_received := 0, pc_bytes_sent := 0\<rparr>"
  have "slot_ok (aa_config a) ?c"
    using accepted(3,6) by (auto simp: slot_ok_def new_session_def session_config_for_def is_comp_id_allowed_def split: if_splits)
  moreover have "\<forall>d \<in> set (aa_connections a). is_active d \<longrightarrow> pc_remote_comp_id d \<noteq> pc_remote_comp_id ?c"
    using accepted(4) by (simp add: find_by_comp_None)
  ultimately have "acc_inv (a\<lparr>aa_connections := (aa_connections a)[i := ?c]\<rparr>)"
    by (intro acc_inv_update [OF inv accepted(1)]) auto
  then show ?thesis using accepted(7) by simp
qed

lemma release_inv: "acc_inv a \<Longrightarrow> acc_inv (snd (release_connection i a))"
proof (cases "update_first (\<lambda>c. pc_id c = i \<and> pc_state c \<noteq> Available) clear_slot (aa_connections a)")
  case (Some cs)
  assume inv: "acc_inv a"
  from update_first_Some [OF Some] obtain j where j: "j < length (aa_connections a)"
    "cs = (aa_connections a)[j := clear_slot (aa_connections a ! j)]" by blast
  show ?thesis
    using Some j(2) acc_inv_update [OF inv j(1), of "clear_slot (aa_connections a ! j)"]
    by (simp add: release_connection_def)
qed (simp add: release_connection_def)

lemma evict_inv: "acc_inv a \<Longrightarrow> acc_inv (snd (evict_idle m t a))"
  by (auto simp: acc_inv_def evict_idle_def list_all_iff unique_comps_def split: if_splits)

lemma drain_inv: "acc_inv a \<Longrightarrow> acc_inv (snd (drain_connection i a))"
proof -
  assume inv: "acc_inv a"
  show ?thesis
  proof (cases "get_connection a i")
    case (Some c)
    show ?thesis
    proof (cases "pc_state c = InUse")
      case True
      have "with_connection i (\<lambda>c. c\<lparr>pc_state := Draining\<rparr>) a =
          with_connection i (\<lambda>c. if pc_state c = InUse then c\<lparr>pc_state := Draining\<rparr> else c) a"
      proof -
        have "find (\<lambda>c. pc_id c = i) cs = Some c \<Longrightarrow>
            update_first (\<lambda>c. pc_id c = i) (\<lambda>c. c\<lparr>pc_state := Draining\<rparr>) cs =
            update_first (\<lambda>c. pc_id c = i) (\<lambda>c. if pc_state c = InUse then c\<lparr>pc_state := Draining\<rparr> else c) cs" for cs
          using True by (induction cs) (auto split: if_splits)
        then show ?thesis using Some by (simp add: with_connection_def get_connection_def)
      qed
      moreover have "acc_inv (with_connection i (\<lambda>c. if pc_state c = InUse then c\<lparr>pc_state := Draining\<rparr> else c) a)"
        by (rule with_connection_inv [OF inv])
          (auto simp: slot_ok_def is_active_def split: if_splits option.splits)
      ultimately show ?thesis using Some True by (simp add: drain_connection_def)
    qed (simp add: drain_connection_def Some inv)
  qed (simp add: drain_connection_def inv)
qed

lemma acceptor_step_inv: "acc_inv a \<Longrightarrow> acc_inv (acceptor_step a e)"
proof (cases e)
  case (SessionEv i ev)
  assume inv: "acc_inv a"
  have "acc_inv (with_session i (\<lambda>s. session_step s ev) a)"
    unfolding with_session_def
    by (rule with_connection_inv [OF inv])
      (auto simp: slot_ok_def is_active_def session_step_config split: ConnectionState.splits option.splits)
  then show ?thesis using SessionEv by simp
next
  case (TrafficEv i rx tx now)
  assume inv: "acc_inv a"
  have "acc_inv (with_connection i (count_traffic rx tx now) a)"
    by (rule with_connection_inv [OF inv]) (auto simp: slot_ok_def is_active_def count_traffic_def split: ConnectionState.splits option.splits)
  then show ?thesis using TrafficEv by simp
qed (simp_all add: accept_inv release_inv drain_inv evict_inv)

interpretation acceptor_machine: machine acceptor_step acc_inv
  by unfold_locales (rule acceptor_step_inv)

lemma acceptor_step_aa_config: "aa_config (acceptor_step a e) = aa_config a"
  by (cases e) (auto simp: accept_connection_def reject_def release_connection_def drain_connection_def
      evict_idle_def with_session_def with_connection_def Let_def split: option.splits)

text \<open>Every slot is available or active.\<close>

lemma slot_ok_state: "slot_ok cfg c \<Longrightarrow> is_active c \<longleftrightarrow> pc_state c \<noteq> Available"
  by (auto simp: slot_ok_def is_active_def split: ConnectionState.splits)

lemma active_plus_available:
  "list_all (slot_ok cfg) cs \<Longrightarrow>
   length (filter is_active cs) + length (filter (\<lambda>c. pc_state c = Available) cs) = length cs"
  by (induction cs) (auto simp: slot_ok_state)

section \<open>The acceptor as a directory of clients\<close>

lemma find_by_comp_eq:
  assumes "unique_comps cs" "i < length cs" "is_active (cs ! i)" "pc_remote_comp_id (cs ! i) = k"
  shows "map_option pc_id (find (\<lambda>c. is_active c \<and> pc_remote_comp_id c = k) cs) = Some (pc_id (cs ! i))"
proof (cases "find (\<lambda>c. is_active c \<and> pc_remote_comp_id c = k) cs")
  case None
  then show ?thesis using assms by (auto simp: find_None_iff)
next
  case (Some c)
  then obtain j where "j < length cs" "c = cs ! j" "is_active c" "pc_remote_comp_id c = k"
    by (auto simp: find_Some_iff)
  then show ?thesis using assms Some by (auto simp: unique_comps_def)
qed

definition add_client :: "Acceptor \<Rightarrow> bytes \<Rightarrow> nat \<times> bytes \<times> u64 \<Rightarrow> (u64 \<times> Acceptor) option" where
  "add_client a k x =
     (let (now, addr, t) = x in
      case accept_connection now addr k t a of (Inr i, a') \<Rightarrow> Some (i, a') | (Inl _, _) \<Rightarrow> None)"

lemma add_client_Some:
  assumes "acc_inv a" "add_client a k x = Some (v, a')"
  shows "acc_inv a' \<and> find_by_comp_id a' k = Some v \<and> (k' \<noteq> k \<longrightarrow> find_by_comp_id a' k' = find_by_comp_id a k')"
proof -
  obtain now addr t where x: "x = (now, addr, t)" by (cases x)
  have acc: "accept_connection now addr k t a = (Inr v, a')"
    using assms(2) x by (auto simp: add_client_def split: prod.splits sum.splits)
  have inv: "acc_inv a'" using accept_inv [OF assms(1), of now addr k t] acc by simp
  show ?thesis
  proof (cases rule: accept_cases [where a = a and now = now and addr = addr and cid = k and t = t])
    case (rejected err)
    then show ?thesis using acc by (simp add: reject_def)
  next
    case (accepted i s)
    let ?cs = "aa_connections a"
    let ?c = "(?cs ! i)\<lparr>pc_id := aa_next_conn_id a, pc_state := InUse, pc_session := Some s,
      pc_remote_comp_id := k, pc_remote_address := addr, pc_connected_at_ms := t,
      pc_last_active_ms := t, pc_bytes_received := 0, pc_bytes_sent := 0\<rparr>"
    have a': "aa_connections a' = ?cs[i := ?c]" "v = aa_next_conn_id a" using acc accepted(7) by auto
    have u: "unique_comps (?cs[i := ?c])" using inv a'(1) by (simp add: acc_inv_def)
    have "find_by_comp_id a' k = Some v"
      using find_by_comp_eq [OF u, of i k] accepted(1) a' by (simp add: find_by_comp_id_def is_active_def)
    moreover have "find_by_comp_id a' k' = find_by_comp_id a k'" if "k' \<noteq> k"
    proof -
      have "find P (xs[i := y]) = find P xs" if "i < length xs" "\<not> P (xs ! i)" "\<not> P y" for P and xs :: "PooledConnection list" and y
        using that by (induction xs arbitrary: i) (auto split: nat.splits)
      from this [OF accepted(1), of "\<lambda>c. is_active c \<and> pc_remote_comp_id c = k'" ?c] show ?thesis
        using a'(1) accepted(2) that by (simp add: find_by_comp_id_def is_active_def)
    qed
    ultimately show ?thesis using inv by blast
  qed
qed

interpretation clients: directory acc_inv find_by_comp_id add_client
  by unfold_locales (use add_client_Some in blast)+

section \<open>What keeps a client in its slot\<close>

text \<open>
  A client stays in its slot through every event that is not an eviction or the release of its own
  connection: accepts of others, releases of other connections, drains, session events and traffic.
\<close>

fun leaves_slot :: "u64 \<Rightarrow> AcceptorEvent \<Rightarrow> bool" where
  "leaves_slot i (ReleaseEv j) \<longleftrightarrow> j \<noteq> i"
| "leaves_slot i (EvictEv m t) \<longleftrightarrow> False"
| "leaves_slot i e \<longleftrightarrow> True"

definition occupies :: "u64 \<Rightarrow> bytes \<Rightarrow> PooledConnection \<Rightarrow> bool" where
  "occupies i cid c \<longleftrightarrow> is_active c \<and> pc_remote_comp_id c = cid \<and> pc_id c = i"

definition seated :: "u64 \<Rightarrow> bytes \<Rightarrow> Acceptor \<Rightarrow> bool" where
  "seated i cid a \<longleftrightarrow> (\<exists>c \<in> set (aa_connections a). occupies i cid c)"

lemma seated_found: "acc_inv a \<Longrightarrow> seated i cid a \<Longrightarrow> find_by_comp_id a cid = Some i"
  using find_by_comp_eq [of "aa_connections a"]
  by (fastforce simp: seated_def occupies_def acc_inv_def find_by_comp_id_def in_set_conv_nth)

lemma found_seated: "find_by_comp_id a cid = Some i \<Longrightarrow> seated i cid a"
  by (auto simp: find_by_comp_id_def seated_def occupies_def find_Some_iff intro!: bexI [OF _ nth_mem])

lemma seated_counters [simp]:
  "seated i cid (a\<lparr>aa_connections := cs\<rparr>) \<longleftrightarrow> (\<exists>c \<in> set cs. occupies i cid c)"
  "seated i cid (a\<lparr>aa_total_rejected := n\<rparr>) = seated i cid a"
  "seated i cid (a\<lparr>aa_total_accepted := n\<rparr>) = seated i cid a"
  "seated i cid (a\<lparr>aa_next_conn_id := k\<rparr>) = seated i cid a"
  by (simp_all add: seated_def)

lemma occupied_update:
  assumes "\<exists>c \<in> set cs. P c" "k < length cs" "P (cs ! k) \<Longrightarrow> P c'"
  shows "\<exists>c \<in> set (cs[k := c']). P c"
proof -
  obtain j where "j < length cs" "P (cs ! j)" using assms(1) by (auto simp: in_set_conv_nth)
  then have "j < length (cs[k := c'])" "P (cs[k := c'] ! j)" using assms(2,3) by (auto simp: nth_list_update)
  then show ?thesis using nth_mem by blast
qed

lemma with_connection_seated:
  assumes "seated i cid a" "\<And>c. occupies i cid c \<Longrightarrow> occupies i cid (f c)"
  shows "seated i cid (with_connection j f a)"
proof (cases "update_first (\<lambda>c. pc_id c = j) f (aa_connections a)")
  case (Some cs)
  from update_first_Some [OF Some] obtain k where "k < length (aa_connections a)"
    "cs = (aa_connections a)[k := f (aa_connections a ! k)]" by blast
  then show ?thesis using Some assms(1) occupied_update assms(2)
    by (simp add: with_connection_def) (simp add: seated_def occupied_update assms(2))
qed (simp add: with_connection_def assms(1))

lemma step_seated:
  assumes "seated i cid a" "leaves_slot i e" shows "seated i cid (acceptor_step a e)"
proof (cases e)
  case (AcceptEv now addr k t)
  show ?thesis
  proof (cases rule: accept_cases [where a = a and now = now and addr = addr and cid = k and t = t])
    case (rejected err)
    then show ?thesis using AcceptEv assms(1) by (simp add: reject_def)
  next
    case (accepted j s)
    have "\<not> occupies i cid (aa_connections a ! j)" using accepted(2) by (simp add: occupies_def is_active_def)
    then show ?thesis using AcceptEv accepted(7) assms(1) occupied_update [OF _ accepted(1), of "occupies i cid"]
      by (simp add: seated_def)
  qed
next
  case (ReleaseEv j)
  show ?thesis
  proof (cases "update_first (\<lambda>c. pc_id c = j \<and> pc_state c \<noteq> Available) clear_slot (aa_connections a)")
    case (Some cs)
    from update_first_Some [OF Some] obtain k where k: "k < length (aa_connections a)"
      "pc_id (aa_connections a ! k) = j" "cs = (aa_connections a)[k := clear_slot (aa_connections a ! k)]" by blast
    then have "\<not> occupies i cid (aa_connections a ! k)" using assms(2) ReleaseEv by (auto simp: occupies_def)
    then show ?thesis using ReleaseEv Some k(3) assms(1) occupied_update [OF _ k(1), of "occupies i cid"]
      by (simp add: release_connection_def seated_def)
  qed (simp add: ReleaseEv release_connection_def assms(1))
next
  case (DrainEv j)
  then show ?thesis using assms(1)
    by (auto simp: drain_connection_def occupies_def is_active_def intro: with_connection_seated split: option.split)
next
  case (SessionEv j ev)
  then show ?thesis using assms(1)
    by (auto simp: with_session_def occupies_def is_active_def intro: with_connection_seated)
next
  case (TrafficEv j rx tx now)
  then show ?thesis using assms(1)
    by (auto simp: count_traffic_def occupies_def is_active_def intro: with_connection_seated)
qed (use assms in simp)

lemma run_seated: "seated i cid a \<Longrightarrow> list_all (leaves_slot i) es \<Longrightarrow> seated i cid (foldl acceptor_step a es)"
  by (induction es arbitrary: a) (simp_all add: step_seated)

lemma seated_refuses:
  assumes "acc_inv a" "seated i cid a" "\<not> ac_require_auth (aa_config a)" "is_comp_id_allowed a cid"
  shows "accept_connection now addr cid t a = reject a (AlreadyConnected cid)"
  using seated_found [OF assms(1,2)] assms(3,4) by (simp add: accept_connection_def)

section \<open>Connection ids\<close>

definition ids_ok :: "Acceptor \<Rightarrow> bool" where
  "ids_ok a \<longleftrightarrow> distinct (map pc_id (aa_connections a)) \<and>
     (\<forall>c \<in> set (aa_connections a). unat (pc_id c) < unat (aa_next_conn_id a))"

lemma ids_update:
  assumes "ids_ok a" "i < length (aa_connections a)" "pc_id c = pc_id (aa_connections a ! i)"
  shows "ids_ok (a\<lparr>aa_connections := (aa_connections a)[i := c]\<rparr>)"
proof -
  have "map pc_id ((aa_connections a)[i := c]) = map pc_id (aa_connections a)"
    using assms(2,3) by (simp add: map_update list_update_same_conv)
  moreover have "set ((aa_connections a)[i := c]) \<subseteq> insert c (set (aa_connections a))"
    by (rule set_update_subset_insert)
  ultimately show ?thesis using assms by (auto simp: ids_ok_def)
qed

lemma with_connection_ids:
  assumes "ids_ok a" "\<And>c. pc_id (f c) = pc_id c" shows "ids_ok (with_connection i f a)"
proof (cases "update_first (\<lambda>c. pc_id c = i) f (aa_connections a)")
  case (Some cs)
  from update_first_Some [OF Some] obtain j where "j < length (aa_connections a)"
    "cs = (aa_connections a)[j := f (aa_connections a ! j)]" by blast
  then show ?thesis using Some ids_update [OF assms(1)] assms(2) by (simp add: with_connection_def)
qed (simp add: with_connection_def assms(1))

lemma accept_ids:
  assumes "ids_ok a" "unat (aa_next_conn_id a) + 1 < 2 ^ 64"
  shows "ids_ok (snd (accept_connection now addr cid t a))"
proof (cases rule: accept_cases [where a = a and now = now and addr = addr and cid = cid and t = t])
  case (rejected err)
  then show ?thesis using assms(1) by (simp add: reject_def ids_ok_def)
next
  case (accepted i s)
  have n: "unat (aa_next_conn_id a + 1) = unat (aa_next_conn_id a) + 1" by (rule unat_Suc_word [OF assms(2)])
  have "aa_next_conn_id a \<notin> pc_id ` set (aa_connections a)" using assms(1) by (auto simp: ids_ok_def)
  then have "distinct ((map pc_id (aa_connections a))[i := aa_next_conn_id a])"
    using assms(1) by (intro distinct_list_update) (auto simp: ids_ok_def)
  then show ?thesis using accepted(7) assms(1) n
    by (auto simp: ids_ok_def map_update dest!: subsetD [OF set_update_subset_insert])
qed

lemma acceptor_step_next:
  "aa_next_conn_id (acceptor_step a e) = aa_next_conn_id a \<or> aa_next_conn_id (acceptor_step a e) = aa_next_conn_id a + 1"
  by (cases e) (auto simp: accept_connection_def reject_def release_connection_def drain_connection_def
      evict_idle_def with_session_def with_connection_def Let_def split: option.splits)

lemma acceptor_step_ids:
  assumes "ids_ok a" "unat (aa_next_conn_id a) + 1 < 2 ^ 64" shows "ids_ok (acceptor_step a e)"
proof (cases e)
  case (ReleaseEv i)
  show ?thesis
  proof (cases "update_first (\<lambda>c. pc_id c = i \<and> pc_state c \<noteq> Available) clear_slot (aa_connections a)")
    case (Some cs)
    from update_first_Some [OF Some] obtain j where "j < length (aa_connections a)"
      "cs = (aa_connections a)[j := clear_slot (aa_connections a ! j)]" by blast
    then show ?thesis using Some ReleaseEv ids_update [OF assms(1)] by (simp add: release_connection_def)
  qed (simp add: ReleaseEv release_connection_def assms(1))
next
  case (EvictEv m t)
  have "pc_id \<circ> (\<lambda>c. if is_idle m t c then clear_slot c else c) = pc_id" by auto
  then show ?thesis using assms(1) EvictEv by (auto simp: evict_idle_def ids_ok_def split: if_splits)
qed (use assms in \<open>auto simp: accept_ids drain_connection_def with_session_def with_connection_ids
      count_traffic_def split: option.split\<close>)

lemma acceptor_run_ids:
  "ids_ok a \<Longrightarrow> unat (aa_next_conn_id a) + length es < 2 ^ 64 \<Longrightarrow> ids_ok (foldl acceptor_step a es)"
proof (induction es arbitrary: a)
  case Nil
  then show ?case by simp
next
  case (Cons e es)
  have "unat (aa_next_conn_id (acceptor_step a e)) \<le> unat (aa_next_conn_id a) + 1"
    using acceptor_step_next [of a e] Cons.prems(2) unat_Suc_word [of "aa_next_conn_id a"] by auto
  then show ?case using Cons acceptor_step_ids by auto
qed

lemma new_acceptor_ids:
  assumes "ac_connection_pool_size c < 2 ^ 64"
  shows "ids_ok (new_acceptor_pool c)" "unat (aa_next_conn_id (new_acceptor_pool c)) = ac_connection_pool_size c"
proof -
  have "inj_on (\<lambda>i. of_nat i :: u64) {0..<ac_connection_pool_size c}"
  proof (intro inj_onI)
    fix i j assume "i \<in> {0..<ac_connection_pool_size c}" "j \<in> {0..<ac_connection_pool_size c}" "(of_nat i :: u64) = of_nat j"
    then have "unat (of_nat i :: u64) = unat (of_nat j :: u64)" "i < 2 ^ 64" "j < 2 ^ 64" using assms by auto
    then show "i = j" by (simp add: word_norm)
  qed
  then show "ids_ok (new_acceptor_pool c)" "unat (aa_next_conn_id (new_acceptor_pool c)) = ac_connection_pool_size c"
    using assms by (auto simp: ids_ok_def new_acceptor_pool_def Let_def empty_slot_def comp_def
        distinct_map word_norm)
qed

section \<open>Properties of the acceptor\<close>

text \<open>
  C7. The pool through any history. After any sequence of accepts, releases, drains, evictions,
  session events and traffic from a new acceptor: no slot is lost (in use plus available is the
  pool size), every client in use has an allowed CompID, no CompID is in use twice, and its slot
  holds a session in the acceptor's role for that CompID.
\<close>

theorem acceptor_pool_sound:
  "let a = foldl acceptor_step (new_acceptor_pool c) es in
   as_active_connections (stats a) + as_pool_available (stats a) = ac_connection_pool_size c \<and>
   unique_comps (aa_connections a) \<and> list_all (slot_ok c) (aa_connections a)"
proof -
  let ?a = "foldl acceptor_step (new_acceptor_pool c) es"
  have inv: "acc_inv ?a" by (rule acceptor_machine.run_inv [OF new_acceptor_inv])
  have "aa_config ?a = aa_config (new_acceptor_pool c)"
    by (rule acceptor_machine.run_const [OF acceptor_step_aa_config new_acceptor_inv])
  then have "aa_config ?a = c" by (simp add: new_acceptor_pool_def Let_def)
  with inv have "list_all (slot_ok c) (aa_connections ?a)" "unique_comps (aa_connections ?a)"
    "length (aa_connections ?a) = ac_connection_pool_size c" by (simp_all add: acc_inv_def)
  then show ?thesis using active_plus_available [of c "aa_connections ?a"]
    by (simp add: Let_def stats_def active_count_def)
qed

text \<open>
  The acceptor is a directory. After accepting any list of clients one after the other, some of
  them refused, each CompID that was accepted is found under the id that was returned for it, and
  every other CompID is found as before.
\<close>

theorem accepted_clients_found:
  assumes "a = foldl acceptor_step (new_acceptor_pool c) es"
  shows "find_by_comp_id (snd (clients.add_all a ks)) k =
    (find_by_comp_id a ++ map_of (rev (fst (clients.add_all a ks)))) k"
  using clients.find_add_all acceptor_machine.run_inv [OF new_acceptor_inv] assms by metis

theorem accepted_clients_found_witness:
  "let c = default_acceptor_config\<lparr>ac_connection_pool_size := 2\<rparr>;
       a = foldl acceptor_step (new_acceptor_pool c) [];
       ks = [([65], 0, [49], 5), ([65], 0, [49], 6), ([66], 0, [49], 7), ([67], 0, [49], 8)] in
   fst (clients.add_all a ks) = [([65], 2), ([66], 3)] \<and>
   find_by_comp_id (snd (clients.add_all a ks)) [66] = Some 3"
proof -
  let ?c = "default_acceptor_config\<lparr>ac_connection_pool_size := 2\<rparr>"
  let ?ks = "[([65], 0, [49], 5), ([65], 0, [49], 6), ([66], 0, [49], 7), ([67], 0, [49], 8)]"
  have p: "new_acceptor_pool ?c = \<lparr>aa_config = ?c, aa_connections = [empty_slot 0, empty_slot 1],
      aa_next_conn_id = 2, aa_total_accepted = 0, aa_total_rejected = 0\<rparr>"
    by (simp add: new_acceptor_pool_def Let_def upt_rec)
  have "fst (clients.add_all (new_acceptor_pool ?c) ?ks) = [([65], 2), ([66], 3)]"
    unfolding p by (simp add: clients.add_all.simps add_client_def accept_connection_def reject_def Let_def default_acceptor_config_def
        is_comp_id_allowed_def find_by_comp_id_def is_active_def empty_slot_def)
  then show ?thesis
    using accepted_clients_found [of _ ?c "[]" ?ks "[66]"] by (simp add: Let_def)
qed

text \<open>
  Connection ids identify connections. While the id counter does not wrap, no two slots ever
  carry the same id, so a lookup by id has at most one match.
\<close>

theorem connection_ids_unique:
  assumes "ac_connection_pool_size c + length es < 2 ^ 64"
  shows "distinct (map pc_id (aa_connections (foldl acceptor_step (new_acceptor_pool c) es)))"
proof -
  have "ac_connection_pool_size c < 2 ^ 64" using assms by simp
  note n = new_acceptor_ids [OF this]
  have "ids_ok (foldl acceptor_step (new_acceptor_pool c) es)"
    using assms n(2) by (intro acceptor_run_ids [OF n(1)]) simp
  then show ?thesis by (simp add: ids_ok_def)
qed

theorem connection_ids_unique_witness:
  "distinct (map pc_id (aa_connections (foldl acceptor_step (new_acceptor_pool default_acceptor_config)
     [AcceptEv 0 [] [65] 0, ReleaseEv 256, AcceptEv 0 [] [66] 0])))"
  by (rule connection_ids_unique) (simp add: default_acceptor_config_def)

text \<open>
  When a connection is accepted. From any reachable state, an accept succeeds exactly when
  authentication is not required, the CompID is allowed and not in use, and fewer connections are
  in use than the pool has slots. The configured \<open>max_connections\<close> plays no part.
\<close>

theorem accept_condition:
  assumes "a = foldl acceptor_step (new_acceptor_pool c) es"
  shows "(\<exists>i. fst (accept_connection now addr cid t a) = Inr i) \<longleftrightarrow>
    \<not> ac_require_auth c \<and> is_comp_id_allowed a cid \<and> find_by_comp_id a cid = None \<and>
    active_count a < ac_connection_pool_size c"
proof -
  have inv: "acc_inv a" using acceptor_machine.run_inv [OF new_acceptor_inv] assms by blast
  have "aa_config a = aa_config (new_acceptor_pool c)"
    using acceptor_machine.run_const [of aa_config, OF acceptor_step_aa_config new_acceptor_inv] assms by blast
  then have cfg: "aa_config a = c" by (simp add: new_acceptor_pool_def Let_def)
  let ?slot = "position (\<lambda>c. pc_state c = Available) (aa_connections a)"
  have "length (filter is_active (aa_connections a)) +
      length (filter (\<lambda>c. pc_state c = Available) (aa_connections a)) = ac_connection_pool_size c"
    using active_plus_available inv cfg by (metis acc_inv_def)
  then have "?slot = None \<longleftrightarrow> \<not> active_count a < ac_connection_pool_size c"
    by (cases "filter (\<lambda>c. pc_state c = Available) (aa_connections a)")
      (auto simp: position_None active_count_def filter_empty_conv filter_eq_Cons_iff)
  moreover have "(\<exists>i. fst (accept_connection now addr cid t a) = Inr i) \<longleftrightarrow>
      \<not> ac_require_auth c \<and> is_comp_id_allowed a cid \<and> find_by_comp_id a cid = None \<and> ?slot \<noteq> None"
    using cfg by (cases ?slot) (auto simp: accept_connection_def reject_def Let_def)
  ultimately show ?thesis by blast
qed

theorem accept_condition_witness:
  "\<exists>i. fst (accept_connection 0 [] [65] 0 (foldl acceptor_step
      (new_acceptor_pool (default_acceptor_config\<lparr>ac_connection_pool_size := 1, ac_max_connections := 0\<rparr>)) [])) = Inr i"
  by (subst accept_condition [OF refl])
    (simp add: default_acceptor_config_def new_acceptor_pool_def is_comp_id_allowed_def find_by_comp_id_def
      empty_slot_def is_active_def active_count_def)

end
