(* ===== verification/Pool.thy ===== *)
theory Pool
  imports Prelude
begin

text \<open>
  \<open>src/src/pool.rs\<close>: the slab pool with its free list, an intrusive stack of slot indices, and the
  three-tier pool. The first part is the pool used by one thread at a time, as a refinement of a
  stack of free slots; the second is the same operations as interleaved atomic actions of several
  threads.
\<close>

section \<open>The pool\<close>

text \<open>\<open>page_touch\<close> is not kept: writing zeros into zeroed storage does not change it.\<close>

definition END_OF_LIST :: u32 where "END_OF_LIST = 0xFFFFFFFF"

record BufferPool =
  bp_storage :: bytes
  bp_slot_size :: nat
  bp_capacity :: u32
  bp_free_list :: "u32 list"
  bp_free_head :: u32

definition new_pool :: "nat \<Rightarrow> u32 \<Rightarrow> BufferPool" where
  "new_pool slot_size capacity =
     \<lparr>bp_storage = replicate (slot_size * unat capacity) 0, bp_slot_size = slot_size, bp_capacity = capacity,
      bp_free_list = map (\<lambda>i. if i + 1 < unat capacity then of_nat (i + 1) else END_OF_LIST) [0..<unat capacity],
      bp_free_head = 0\<rparr>"

text \<open>Without contention the compare-exchange succeeds (after finitely many spurious failures).\<close>

definition allocate :: "BufferPool \<Rightarrow> (u32 option \<times> BufferPool) run" where
  "allocate p =
     (let head = bp_free_head p in
      if head = END_OF_LIST then Some (None, p)
      else Option.bind (get_at (bp_free_list p) (unat head)) (\<lambda>next.
        Some (Some head, p\<lparr>bp_free_head := next\<rparr>)))"

definition deallocate :: "u32 \<Rightarrow> BufferPool \<Rightarrow> BufferPool run" where
  "deallocate handle p =
     Option.bind (set_at (bp_free_list p) (unat handle) (bp_free_head p)) (\<lambda>fl.
       Some (p\<lparr>bp_free_list := fl, bp_free_head := handle\<rparr>))"

definition get_slot :: "BufferPool \<Rightarrow> u32 \<Rightarrow> bytes run" where
  "get_slot p handle = slice (bp_storage p) (unat handle * bp_slot_size p) (bp_slot_size p)"

text \<open>Writing through \<open>get_mut\<close>, from the start of the slot.\<close>

definition put_slot :: "BufferPool \<Rightarrow> u32 \<Rightarrow> bytes \<Rightarrow> BufferPool run" where
  "put_slot p handle data =
     (if unat handle * bp_slot_size p + bp_slot_size p \<le> length (bp_storage p) \<and> length data \<le> bp_slot_size p
      then map_option (\<lambda>st. p\<lparr>bp_storage := st\<rparr>)
        (copy_at (bp_storage p) (unat handle * bp_slot_size p) data)
      else None)"

section \<open>TieredPool\<close>

record TieredPool =
  tp_small :: BufferPool
  tp_medium :: BufferPool
  tp_large :: BufferPool

datatype Tier = Small | Medium | Large

definition new_tiered_pool :: TieredPool where
  "new_tiered_pool =
     \<lparr>tp_small = new_pool 256 1048576, tp_medium = new_pool 4096 262144, tp_large = new_pool 65536 16384\<rparr>"

definition tiered_allocate :: "TieredPool \<Rightarrow> nat \<Rightarrow> ((u32 \<times> Tier) option \<times> TieredPool) run" where
  "tiered_allocate t sz =
     (if sz \<le> 256 then
        map_option (\<lambda>(h, p). (map_option (\<lambda>h. (h, Small)) h, t\<lparr>tp_small := p\<rparr>)) (allocate (tp_small t))
      else if sz \<le> 4096 then
        map_option (\<lambda>(h, p). (map_option (\<lambda>h. (h, Medium)) h, t\<lparr>tp_medium := p\<rparr>)) (allocate (tp_medium t))
      else if sz \<le> 65536 then
        map_option (\<lambda>(h, p). (map_option (\<lambda>h. (h, Large)) h, t\<lparr>tp_large := p\<rparr>)) (allocate (tp_large t))
      else Some (None, t))"

section \<open>Refinement to a stack of free slots\<close>

text \<open>The chain that starts at \<open>head\<close> in the next-pointers \<open>fl\<close> is the list \<open>xs\<close> of slots.\<close>

fun chain :: "u32 list \<Rightarrow> u32 \<Rightarrow> u32 list \<Rightarrow> bool" where
  "chain fl head [] \<longleftrightarrow> head = END_OF_LIST"
| "chain fl head (x # xs) \<longleftrightarrow>
     head = x \<and> x \<noteq> END_OF_LIST \<and> unat x < length fl \<and> chain fl (fl ! unat x) xs"

definition free_stack :: "BufferPool \<Rightarrow> u32 list \<Rightarrow> bool" where
  "free_stack p xs \<longleftrightarrow> chain (bp_free_list p) (bp_free_head p) xs \<and> distinct xs \<and>
     length (bp_free_list p) = unat (bp_capacity p) \<and>
     length (bp_storage p) = bp_slot_size p * unat (bp_capacity p)"

lemma chain_unique: "chain fl h xs \<Longrightarrow> chain fl h ys \<Longrightarrow> xs = ys"
proof (induction xs arbitrary: h ys)
  case Nil
  then show ?case by (cases ys) auto
next
  case (Cons x xs)
  then show ?case by (cases ys) auto
qed

lemma chain_update: "unat h \<notin> unat ` set xs \<Longrightarrow> chain (fl[unat h := v]) h' xs = chain fl h' xs"
  by (induction xs arbitrary: h') (auto simp: nth_list_update)

lemma chain_bound: "chain fl h xs \<Longrightarrow> x \<in> set xs \<Longrightarrow> unat x < length fl \<and> x \<noteq> END_OF_LIST"
  by (induction xs arbitrary: h) auto

lemma allocate_refines:
  assumes "free_stack p xs"
  shows "\<exists>p'. allocate p = Some (case xs of [] \<Rightarrow> None | x # _ \<Rightarrow> Some x, p') \<and> free_stack p' (tl xs) \<and>
    bp_capacity p' = bp_capacity p \<and> bp_storage p' = bp_storage p \<and> bp_slot_size p' = bp_slot_size p"
  using assms by (cases xs) (auto simp: free_stack_def allocate_def Let_def get_at_def)

lemma deallocate_refines:
  assumes "free_stack p xs" "unat h < unat (bp_capacity p)" "h \<notin> set xs"
  shows "\<exists>p'. deallocate h p = Some p' \<and> free_stack p' (h # xs) \<and>
    bp_capacity p' = bp_capacity p \<and> bp_storage p' = bp_storage p \<and> bp_slot_size p' = bp_slot_size p"
proof -
  have "unat h \<notin> unat ` set xs" using assms(3) by (auto dest: word_unat_eq_iff [THEN iffD2])
  moreover have "h \<noteq> END_OF_LIST"
  proof -
    have "unat (bp_capacity p) < 2 ^ 32" using unsigned_less [of "bp_capacity p"] by simp
    then have "unat h < unat END_OF_LIST" using assms(2) by (simp add: END_OF_LIST_def)
    then show ?thesis by auto
  qed
  ultimately show ?thesis using assms
    by (auto simp: free_stack_def deallocate_def set_at_def chain_update)
qed

text \<open>
  The interface of an allocator, and what it gives a client that keeps the handles it was given and
  returns only those: the handles it holds are distinct and never among the free ones, and no
  handle is lost.
\<close>

datatype AllocOp = AllocOp | FreeOp nat

locale allocator =
  fixes ok :: "'s \<Rightarrow> bool"
    and free :: "'s \<Rightarrow> 'h set"
    and alloc :: "'s \<Rightarrow> ('h option \<times> 's) run"
    and dealloc :: "'h \<Rightarrow> 's \<Rightarrow> 's run"
    and handles :: "'s \<Rightarrow> 'h set"
  assumes alloc_law: "ok s \<Longrightarrow> \<exists>r s'. alloc s = Some (r, s') \<and> ok s' \<and> handles s' = handles s \<and>
      (case r of None \<Rightarrow> free s = {} \<and> free s' = {} | Some h \<Rightarrow> h \<in> free s \<and> free s' = free s - {h})"
    and dealloc_law: "ok s \<Longrightarrow> h \<in> handles s \<Longrightarrow> h \<notin> free s \<Longrightarrow>
      \<exists>s'. dealloc h s = Some s' \<and> ok s' \<and> handles s' = handles s \<and> free s' = insert h (free s)"
begin

text \<open>A client step on the allocator and the list of held handles; freeing picks one by position.\<close>

definition client_step :: "'s \<times> 'h list \<Rightarrow> AllocOp \<Rightarrow> ('s \<times> 'h list) run" where
  "client_step c opr =
     (case opr of
        AllocOp \<Rightarrow> map_option (\<lambda>(r, s). (s, case r of None \<Rightarrow> snd c | Some h \<Rightarrow> h # snd c)) (alloc (fst c))
      | FreeOp i \<Rightarrow>
          (if i < length (snd c)
           then map_option (\<lambda>s. (s, take i (snd c) @ drop (Suc i) (snd c))) (dealloc (snd c ! i) (fst c))
           else Some c))"

fun client_run :: "'s \<times> 'h list \<Rightarrow> AllocOp list \<Rightarrow> ('s \<times> 'h list) run" where
  "client_run c [] = Some c"
| "client_run c (x # xs) = Option.bind (client_step c x) (\<lambda>c. client_run c xs)"

definition held_ok :: "'s \<times> 'h list \<Rightarrow> 'h set \<Rightarrow> bool" where
  "held_ok c U \<longleftrightarrow> ok (fst c) \<and> distinct (snd c) \<and> set (snd c) \<inter> free (fst c) = {} \<and>
     set (snd c) \<union> free (fst c) = U \<and> U \<subseteq> handles (fst c)"

lemma client_step_ok:
  assumes "held_ok c U" shows "\<exists>c'. client_step c x = Some c' \<and> held_ok c' U"
proof (cases x)
  case AllocOp
  obtain r s' where a: "alloc (fst c) = Some (r, s')" "ok s'" "handles s' = handles (fst c)"
    "case r of None \<Rightarrow> free (fst c) = {} \<and> free s' = {} | Some h \<Rightarrow> h \<in> free (fst c) \<and> free s' = free (fst c) - {h}"
    using alloc_law [of "fst c"] assms unfolding held_ok_def by blast
  then show ?thesis using assms AllocOp
    by (cases r) (auto simp: client_step_def held_ok_def)
next
  case (FreeOp i)
  show ?thesis
  proof (cases "i < length (snd c)")
    case True
    let ?h = "snd c ! i" and ?rest = "take i (snd c) @ drop (Suc i) (snd c)"
    define xs ys where "xs = take i (snd c)" and "ys = drop (Suc i) (snd c)"
    have eq: "snd c = xs @ ?h # ys" unfolding xs_def ys_def by (rule id_take_nth_drop [OF True])
    have "distinct (snd c)" using assms by (simp add: held_ok_def)
    then have "distinct (xs @ ?h # ys)" by (subst (asm) eq)
    moreover have "set (snd c) = insert ?h (set (xs @ ys))" by (subst eq) auto
    ultimately have rest: "distinct ?rest" "?h \<notin> set ?rest" "set (snd c) = insert ?h (set ?rest)"
      unfolding xs_def [symmetric] ys_def [symmetric] by auto
    have "?h \<in> handles (fst c)" "?h \<notin> free (fst c)"
      using assms nth_mem [OF True] by (auto simp: held_ok_def)
    then obtain s' where "dealloc ?h (fst c) = Some s'" "ok s'" "handles s' = handles (fst c)"
      "free s' = insert ?h (free (fst c))"
      using dealloc_law assms by (meson held_ok_def)
    then show ?thesis using assms FreeOp True rest by (auto simp: client_step_def held_ok_def)
  next
    case False
    then show ?thesis using assms FreeOp by (simp add: client_step_def)
  qed
qed

lemma client_run_ok: "held_ok c U \<Longrightarrow> \<exists>c'. client_run c xs = Some c' \<and> held_ok c' U"
proof (induction xs arbitrary: c)
  case (Cons x xs)
  from client_step_ok [OF Cons.prems, of x] obtain c1 where "client_step c x = Some c1" "held_ok c1 U" by blast
  then show ?case using Cons.IH by simp
qed simp

end

definition free_slots :: "BufferPool \<Rightarrow> u32 set" where
  "free_slots p = {h. \<exists>xs. free_stack p xs \<and> h \<in> set xs}"

definition slots :: "BufferPool \<Rightarrow> u32 set" where
  "slots p = {h. unat h < unat (bp_capacity p)}"

lemma free_slots_eq: "free_stack p xs \<Longrightarrow> free_slots p = set xs"
  by (auto simp: free_slots_def free_stack_def dest: chain_unique)

interpretation buffer_pool: allocator "\<lambda>p. \<exists>xs. free_stack p xs" free_slots allocate deallocate slots
proof
  fix p assume "\<exists>xs. free_stack p xs"
  then obtain xs where xs: "free_stack p xs" ..
  from allocate_refines [OF xs] obtain p' where p': "allocate p = Some (case xs of [] \<Rightarrow> None | x # _ \<Rightarrow> Some x, p')"
    "free_stack p' (tl xs)" "bp_capacity p' = bp_capacity p" by blast
  have "distinct xs" using xs by (simp add: free_stack_def)
  with p' show "\<exists>r s'. allocate p = Some (r, s') \<and> (\<exists>xs. free_stack s' xs) \<and> slots s' = slots p \<and>
      (case r of None \<Rightarrow> free_slots p = {} \<and> free_slots s' = {}
       | Some h \<Rightarrow> h \<in> free_slots p \<and> free_slots s' = free_slots p - {h})"
    using free_slots_eq [OF xs] free_slots_eq [OF p'(2)]
    by (cases xs) (auto simp: slots_def)
next
  fix p h assume "\<exists>xs. free_stack p xs" "h \<in> slots p" "h \<notin> free_slots p"
  then obtain xs where xs: "free_stack p xs" "h \<notin> set xs" "unat h < unat (bp_capacity p)"
    using free_slots_eq by (auto simp: slots_def)
  from deallocate_refines [OF xs(1,3,2)] obtain p' where p': "deallocate h p = Some p'"
    "free_stack p' (h # xs)" "bp_capacity p' = bp_capacity p" by blast
  then show "\<exists>s'. deallocate h p = Some s' \<and> (\<exists>xs. free_stack s' xs) \<and> slots s' = slots p \<and>
      free_slots s' = insert h (free_slots p)"
    using free_slots_eq [OF xs(1)] free_slots_eq [OF p'(2)] by (auto simp: slots_def)
qed

text \<open>A new pool with at least one slot has all its slots free, in order.\<close>

lemma new_pool_chain:
  assumes "fl = map (\<lambda>i. if i + 1 < n then of_nat (i + 1) else END_OF_LIST) [0..<n]" "n < 2 ^ 32" "i < n"
  shows "chain fl (of_nat i) (map of_nat [i..<n])"
  using assms(3)
proof (induction "n - i" arbitrary: i)
  case 0
  then show ?case by simp
next
  case (Suc m)
  have i: "unat (of_nat i :: u32) = i" using Suc.prems assms(2) by (simp add: word_norm)
  then have ne: "of_nat i \<noteq> END_OF_LIST" using Suc.prems assms(2) by (auto simp: END_OF_LIST_def)
  have up: "[i..<n] = i # [Suc i..<n]" using Suc.prems by (simp add: upt_conv_Cons)
  have nx: "fl ! i = (if i + 1 < n then of_nat (i + 1) else END_OF_LIST)"
    using Suc.prems by (simp add: assms(1))
  have len: "length fl = n" by (simp add: assms(1))
  show ?case
  proof (cases "Suc i < n")
    case True
    have "m = n - Suc i" using Suc.hyps(2) by simp
    from Suc.hyps(1) [OF this True] show ?thesis using i ne up nx True len Suc.prems by simp
  next
    case False
    then show ?thesis using i ne up nx len Suc.prems by simp
  qed
qed

lemma new_pool_free:
  assumes "0 < capacity"
  shows "free_stack (new_pool slot_size capacity) (map of_nat [0..<unat capacity])"
proof -
  have n: "unat capacity < 2 ^ 32" using unsigned_less [of capacity] by simp
  have "0 < unat capacity" using assms by (simp add: word_less_nat_alt)
  then have "chain (bp_free_list (new_pool slot_size capacity)) (of_nat 0) (map of_nat [0..<unat capacity])"
    by (intro new_pool_chain [OF _ n]) (simp_all add: new_pool_def)
  moreover have "inj_on (\<lambda>i. of_nat i :: u32) {0..<unat capacity}"
  proof (intro inj_onI)
    fix i j assume "i \<in> {0..<unat capacity}" "j \<in> {0..<unat capacity}" "(of_nat i :: u32) = of_nat j"
    then have "unat (of_nat i :: u32) = unat (of_nat j :: u32)" "i < 2 ^ 32" "j < 2 ^ 32" using n by auto
    then show "i = j" by (simp add: word_norm)
  qed
  ultimately show ?thesis by (simp add: free_stack_def new_pool_def distinct_map)
qed

section \<open>Interleaved use\<close>

text \<open>
  Each atomic access is one step. A thread between operations is \<open>Idle\<close>; in \<open>allocate\<close> it has
  loaded the head, or the head and its successor; in \<open>deallocate\<close> of a handle it has loaded the
  head, or also stored it. A compare-exchange may fail also when the head is unchanged.
\<close>

datatype pc =
  Idle | ALoad | ANext u32 | ACas u32 u32 | DLoad u32 | DStore u32 u32 | DCas u32 u32

record PoolConf =
  cf_head :: u32
  cf_next :: "u32 list"
  cf_pc :: "nat \<Rightarrow> pc"
  cf_held :: "nat \<Rightarrow> u32 list"

definition goto :: "nat \<Rightarrow> pc \<Rightarrow> PoolConf \<Rightarrow> PoolConf" where
  "goto t q c = c\<lparr>cf_pc := (cf_pc c)(t := q)\<rparr>"

inductive pool_step :: "PoolConf \<Rightarrow> PoolConf \<Rightarrow> bool" where
  start_alloc: "cf_pc c t = Idle \<Longrightarrow> pool_step c (goto t ALoad c)"
| alloc_load: "cf_pc c t = ALoad \<Longrightarrow> cf_head c \<noteq> END_OF_LIST \<Longrightarrow> pool_step c (goto t (ANext (cf_head c)) c)"
| alloc_none: "cf_pc c t = ALoad \<Longrightarrow> cf_head c = END_OF_LIST \<Longrightarrow> pool_step c (goto t Idle c)"
| alloc_next: "cf_pc c t = ANext h \<Longrightarrow> unat h < length (cf_next c) \<Longrightarrow>
    pool_step c (goto t (ACas h (cf_next c ! unat h)) c)"
| alloc_cas: "cf_pc c t = ACas h n \<Longrightarrow> cf_head c = h \<Longrightarrow>
    pool_step c (goto t Idle (c\<lparr>cf_head := n, cf_held := (cf_held c)(t := h # cf_held c t)\<rparr>))"
| alloc_fail: "cf_pc c t = ACas h n \<Longrightarrow> pool_step c (goto t ALoad c)"
| start_free: "cf_pc c t = Idle \<Longrightarrow> h \<in> set (cf_held c t) \<Longrightarrow>
    pool_step c (goto t (DLoad h) (c\<lparr>cf_held := (cf_held c)(t := remove1 h (cf_held c t))\<rparr>))"
| free_load: "cf_pc c t = DLoad h \<Longrightarrow> pool_step c (goto t (DStore h (cf_head c)) c)"
| free_store: "cf_pc c t = DStore h hd' \<Longrightarrow> unat h < length (cf_next c) \<Longrightarrow>
    pool_step c (goto t (DCas h hd') (c\<lparr>cf_next := (cf_next c)[unat h := hd']\<rparr>))"
| free_cas: "cf_pc c t = DCas h hd' \<Longrightarrow> cf_head c = hd' \<Longrightarrow> pool_step c (goto t Idle (c\<lparr>cf_head := h\<rparr>))"
| free_fail: "cf_pc c t = DCas h hd' \<Longrightarrow> pool_step c (goto t (DLoad h) c)"

definition pool_init :: "u32 \<Rightarrow> PoolConf" where
  "pool_init capacity =
     \<lparr>cf_head = bp_free_head (new_pool 0 capacity), cf_next = bp_free_list (new_pool 0 capacity),
      cf_pc = (\<lambda>_. Idle), cf_held = (\<lambda>_. [])\<rparr>"

inductive pool_reachable :: "u32 \<Rightarrow> PoolConf \<Rightarrow> bool" for capacity where
  init: "pool_reachable capacity (pool_init capacity)"
| step: "pool_reachable capacity c \<Longrightarrow> pool_step c c' \<Longrightarrow> pool_reachable capacity c'"

text \<open>A scheduler's view of the same steps: thread \<open>t\<close> starts an operation or performs its next access.\<close>

datatype PoolCmd = BeginAlloc | BeginFree u32 | Advance

definition pool_act :: "PoolConf \<Rightarrow> nat \<Rightarrow> PoolCmd \<Rightarrow> PoolConf option" where
  "pool_act c t cmd =
     (case cmd of
        BeginAlloc \<Rightarrow> (if cf_pc c t = Idle then Some (goto t ALoad c) else None)
      | BeginFree h \<Rightarrow>
          (if cf_pc c t = Idle \<and> h \<in> set (cf_held c t)
           then Some (goto t (DLoad h) (c\<lparr>cf_held := (cf_held c)(t := remove1 h (cf_held c t))\<rparr>)) else None)
      | Advance \<Rightarrow>
          (case cf_pc c t of
             Idle \<Rightarrow> None
           | ALoad \<Rightarrow> Some (if cf_head c = END_OF_LIST then goto t Idle c else goto t (ANext (cf_head c)) c)
           | ANext h \<Rightarrow> (if unat h < length (cf_next c) then Some (goto t (ACas h (cf_next c ! unat h)) c) else None)
           | ACas h n \<Rightarrow> Some (if cf_head c = h
               then goto t Idle (c\<lparr>cf_head := n, cf_held := (cf_held c)(t := h # cf_held c t)\<rparr>) else goto t ALoad c)
           | DLoad h \<Rightarrow> Some (goto t (DStore h (cf_head c)) c)
           | DStore h hd' \<Rightarrow> (if unat h < length (cf_next c)
               then Some (goto t (DCas h hd') (c\<lparr>cf_next := (cf_next c)[unat h := hd']\<rparr>)) else None)
           | DCas h hd' \<Rightarrow> Some (if cf_head c = hd' then goto t Idle (c\<lparr>cf_head := h\<rparr>) else goto t (DLoad h) c)))"

lemma pool_act_step: "pool_act c t cmd = Some c' \<Longrightarrow> pool_step c c'"
  by (auto simp: pool_act_def intro: pool_step.intros split: PoolCmd.splits pc.splits if_splits)

fun pool_exec :: "PoolConf \<Rightarrow> (nat \<times> PoolCmd) list \<Rightarrow> PoolConf option" where
  "pool_exec c [] = Some c"
| "pool_exec c ((t, cmd) # xs) = Option.bind (pool_act c t cmd) (\<lambda>c. pool_exec c xs)"

lemma pool_exec_reachable:
  "pool_exec c xs = Some c' \<Longrightarrow> pool_reachable cap c \<Longrightarrow> pool_reachable cap c'"
  by (induction c xs rule: pool_exec.induct)
    (auto simp: Option.bind_eq_Some_conv dest: pool_act_step intro: pool_reachable.step)

subsection \<open>Serialised allocation\<close>

text \<open>
  What a configuration must keep when allocations do not overlap: the free chain, the handles of each
  thread (held, or on their way back in a deallocation), and what a thread inside an operation knows.
\<close>

definition allocating :: "pc \<Rightarrow> bool" where
  "allocating q \<longleftrightarrow> (case q of ALoad \<Rightarrow> True | ANext _ \<Rightarrow> True | ACas _ _ \<Rightarrow> True | _ \<Rightarrow> False)"

definition serial :: "PoolConf \<Rightarrow> bool" where
  "serial c \<longleftrightarrow> (\<forall>t u. allocating (cf_pc c t) \<and> allocating (cf_pc c u) \<longrightarrow> t = u)"

inductive serial_reachable :: "u32 \<Rightarrow> PoolConf \<Rightarrow> bool" for capacity where
  serial_init: "serial_reachable capacity (pool_init capacity)"
| serial_step: "serial_reachable capacity c \<Longrightarrow> pool_step c c' \<Longrightarrow> serial c' \<Longrightarrow> serial_reachable capacity c'"

definition transit :: "pc \<Rightarrow> u32 list" where
  "transit q = (case q of DLoad h \<Rightarrow> [h] | DStore h _ \<Rightarrow> [h] | DCas h _ \<Rightarrow> [h] | _ \<Rightarrow> [])"

definition owned :: "PoolConf \<Rightarrow> nat \<Rightarrow> u32 list" where
  "owned c t = transit (cf_pc c t) @ cf_held c t"

definition knows :: "u32 list \<Rightarrow> u32 list \<Rightarrow> pc \<Rightarrow> bool" where
  "knows fl xs q \<longleftrightarrow>
     (case q of ANext h \<Rightarrow> h \<in> set xs | ACas h n \<Rightarrow> h \<in> set xs \<and> fl ! unat h = n
      | DCas h hd' \<Rightarrow> fl ! unat h = hd' | _ \<Rightarrow> True)"

definition slots_split :: "u32 \<Rightarrow> PoolConf \<Rightarrow> u32 list \<Rightarrow> bool" where
  "slots_split capacity c xs \<longleftrightarrow>
     (\<forall>t. distinct (owned c t) \<and> set (owned c t) \<inter> set xs = {} \<and> (\<forall>h \<in> set (owned c t). h < capacity)) \<and>
     (\<forall>t u. t \<noteq> u \<longrightarrow> set (owned c t) \<inter> set (owned c u) = {})"

definition conf_inv :: "u32 \<Rightarrow> PoolConf \<Rightarrow> u32 list \<Rightarrow> bool" where
  "conf_inv capacity c xs \<longleftrightarrow> chain (cf_next c) (cf_head c) xs \<and> distinct xs \<and>
     length (cf_next c) = unat capacity \<and> slots_split capacity c xs \<and> (\<forall>t. knows (cf_next c) xs (cf_pc c t))"

lemma goto_simps [simp]:
  "cf_head (goto t q c) = cf_head c" "cf_next (goto t q c) = cf_next c" "cf_held (goto t q c) = cf_held c"
  "cf_pc (goto t q c) = (cf_pc c)(t := q)"
  by (simp_all add: goto_def)

lemma owned_goto [simp]: "owned (goto t q c) u = (if u = t then transit q @ cf_held c t else owned c u)"
  by (simp add: owned_def)

lemma transit_simps [simp]:
  "transit Idle = []" "transit ALoad = []" "transit (ANext h) = []" "transit (ACas h n) = []"
  "transit (DLoad h) = [h]" "transit (DStore h n) = [h]" "transit (DCas h n) = [h]"
  by (simp_all add: transit_def)

lemma knows_simps [simp]:
  "knows fl xs Idle" "knows fl xs ALoad" "knows fl xs (DLoad h)" "knows fl xs (DStore h n)"
  "knows fl xs (ANext h) \<longleftrightarrow> h \<in> set xs" "knows fl xs (ACas h n) \<longleftrightarrow> h \<in> set xs \<and> fl ! unat h = n"
  "knows fl xs (DCas h n) \<longleftrightarrow> fl ! unat h = n"
  by (simp_all add: knows_def)

text \<open>Moving a thread on without changing what it owns.\<close>

lemma conf_goto:
  assumes "conf_inv capacity c xs" "transit q = transit (cf_pc c t)" "knows (cf_next c) xs q"
  shows "conf_inv capacity (goto t q c) xs"
proof -
  have "owned (goto t q c) = owned c" using assms(2) by (auto simp: fun_eq_iff owned_def)
  then show ?thesis using assms(1,3) by (simp add: conf_inv_def slots_split_def)
qed

lemma slots_split_owned:
  "slots_split capacity c xs \<Longrightarrow> h \<in> set (owned c t) \<Longrightarrow> h < capacity \<and> h \<notin> set xs \<and> (\<forall>u. u \<noteq> t \<longrightarrow> h \<notin> set (owned c u))"
  unfolding slots_split_def by blast

lemma slots_split_give:
  assumes "slots_split capacity c xs" "h < capacity" "\<And>u. h \<notin> set (owned c' u)" "\<And>u. distinct (owned c' u)"
    and "\<And>u. set (owned c' u) \<subseteq> set (owned c u)"
  shows "slots_split capacity c' (h # xs)"
  unfolding slots_split_def
proof (intro conjI allI impI)
  fix t
  have t: "set (owned c t) \<inter> set xs = {}" "\<forall>h \<in> set (owned c t). h < capacity"
    using assms(1) unfolding slots_split_def by blast+
  show "set (owned c' t) \<inter> set (h # xs) = {}" "\<forall>h \<in> set (owned c' t). h < capacity"
    using t assms(3) [of t] assms(5) [of t] by auto
next
  fix t u :: nat assume "t \<noteq> u"
  then have "set (owned c t) \<inter> set (owned c u) = {}" using assms(1) unfolding slots_split_def by blast
  then show "set (owned c' t) \<inter> set (owned c' u) = {}" using assms(5) [of t] assms(5) [of u] by blast
qed (rule assms(4))

lemma conf_start_free:
  assumes "conf_inv capacity c xs" "cf_pc c t = Idle" "h \<in> set (cf_held c t)"
  shows "conf_inv capacity (goto t (DLoad h) (c\<lparr>cf_held := (cf_held c)(t := remove1 h (cf_held c t))\<rparr>)) xs"
    (is "conf_inv capacity ?c xs")
proof -
  have d: "distinct (cf_held c t)" using assms(1,2) by (auto simp: conf_inv_def slots_split_def owned_def dest: spec [of _ t])
  then have s: "set (owned ?c u) = set (owned c u)" "distinct (owned ?c u) = distinct (owned c u)" for u
    using assms(2,3) by (auto simp: owned_def)
  show ?thesis using assms(1) unfolding conf_inv_def slots_split_def s by simp
qed

lemma conf_cas:
  assumes inv: "conf_inv capacity c xs" and "serial c" "cf_pc c t = ACas h n" "cf_head c = h"
  shows "conf_inv capacity (goto t Idle (c\<lparr>cf_head := n, cf_held := (cf_held c)(t := h # cf_held c t)\<rparr>)) (tl xs)"
    (is "conf_inv capacity ?c _")
proof -
  have k: "h \<in> set xs" "cf_next c ! unat h = n" using inv assms(3) by (auto simp: conf_inv_def dest: spec [of _ t])
  then obtain ys where xs: "xs = h # ys" using inv assms(4) by (cases xs) (auto simp: conf_inv_def)
  have c: "chain (cf_next c) n ys" "distinct ys" "h \<notin> set ys" "h < capacity" 
    using inv xs k by (auto simp: conf_inv_def word_less_nat_alt)
  have o: "owned ?c u = (if u = t then h # owned c t else owned c u)" for u
    using assms(3) by (auto simp: owned_def)
  have "slots_split capacity ?c ys"
    using inv xs c unfolding conf_inv_def slots_split_def o by auto
  moreover have "knows (cf_next c) ys (cf_pc ?c u)" for u
  proof (cases "u = t")
    case False
    then have "\<not> allocating (cf_pc c u)" using assms(2,3) by (auto simp: serial_def allocating_def)
    then show ?thesis using inv False by (auto simp: conf_inv_def allocating_def knows_def split: pc.splits dest: spec [of _ u])
  qed simp
  ultimately show ?thesis using inv xs c by (simp add: conf_inv_def)
qed

lemma conf_store:
  assumes inv: "conf_inv capacity c xs" and "cf_pc c t = DStore h hd'"
  shows "conf_inv capacity (goto t (DCas h hd') (c\<lparr>cf_next := (cf_next c)[unat h := hd']\<rparr>)) xs"
    (is "conf_inv capacity ?c xs")
proof -
  have "h \<in> set (owned c t)" using assms(2) by (simp add: owned_def)
  then have h: "h < capacity" "h \<notin> set xs" "\<And>u. u \<noteq> t \<Longrightarrow> h \<notin> set (owned c u)"
    using inv slots_split_owned unfolding conf_inv_def by blast+
  then have n: "unat h \<notin> unat ` set xs" by (auto dest: word_unat_eq_iff [THEN iffD2])
  have "owned ?c = owned c" using assms(2) by (auto simp: fun_eq_iff owned_def)
  then have "slots_split capacity ?c xs" using inv by (simp add: conf_inv_def slots_split_def)
  moreover have "knows ((cf_next c)[unat h := hd']) xs (cf_pc ?c u)" for u
  proof (cases "u = t")
    case True
    then show ?thesis using h(1) inv by (simp add: conf_inv_def word_less_nat_alt)
  next
    case False
    have upd: "(cf_next c)[unat h := hd'] ! unat g = cf_next c ! unat g" if "g \<noteq> h" for g
      using that by (metis nth_list_update_neq word_unat_eq_iff)
    have "knows (cf_next c) xs (cf_pc c u)" using inv by (simp add: conf_inv_def)
    moreover have "g \<noteq> h" if "cf_pc c u = DCas g m" for g m using h(3) [OF False] that by (auto simp: owned_def)
    moreover have "g \<noteq> h" if "g \<in> set xs" for g using that h(2) by auto
    ultimately show ?thesis using False by (cases "cf_pc c u") (simp_all add: upd)
  qed
  ultimately show ?thesis using inv n by (simp add: conf_inv_def chain_update)
qed

lemma conf_free:
  assumes inv: "conf_inv capacity c xs" and "cf_pc c t = DCas h hd'" "cf_head c = hd'"
  shows "conf_inv capacity (goto t Idle (c\<lparr>cf_head := h\<rparr>)) (h # xs)"
    (is "conf_inv capacity ?c _")
proof -
  have "h \<in> set (owned c t)" using assms(2) by (simp add: owned_def)
  then have h: "h < capacity" "h \<notin> set xs" "\<And>u. u \<noteq> t \<Longrightarrow> h \<notin> set (owned c u)"
    using inv slots_split_owned unfolding conf_inv_def by blast+
  have "unat capacity < 2 ^ 32" using unsigned_less [of capacity] by simp
  then have "unat h < unat END_OF_LIST" using h(1) by (simp add: END_OF_LIST_def word_less_nat_alt)
  then have e: "h \<noteq> END_OF_LIST" by auto
  have n: "cf_next c ! unat h = hd'" using inv assms(2) by (auto simp: conf_inv_def dest: spec [of _ t])
  have o: "owned c t = h # cf_held c t" "\<And>u. owned ?c u = (if u = t then cf_held c t else owned c u)"
    using assms(2) by (auto simp: owned_def)
  have split: "slots_split capacity c xs" using inv by (simp add: conf_inv_def)
  then have "distinct (owned c t)" unfolding slots_split_def by blast
  then have "h \<notin> set (owned ?c u)" "distinct (owned ?c u)" "set (owned ?c u) \<subseteq> set (owned c u)" for u
    using h(3) split o by (auto simp: slots_split_def)
  then have "slots_split capacity ?c (h # xs)" by (rule slots_split_give [OF split h(1)])
  moreover have "knows (cf_next c) (h # xs) (cf_pc ?c u)" for u
    using inv by (auto simp: conf_inv_def knows_def split: pc.splits dest: spec [of _ u])
  ultimately show ?thesis using inv h e n assms(3) by (simp add: conf_inv_def word_less_nat_alt)
qed

lemma conf_step:
  assumes "pool_step c c'" "conf_inv capacity c xs" "serial c"
  shows "\<exists>ys. conf_inv capacity c' ys"
  using assms
proof (cases rule: pool_step.cases)
  case (alloc_load t)
  then have "cf_head c \<in> set xs" using assms(2) by (cases xs) (auto simp: conf_inv_def)
  then show ?thesis using alloc_load assms(2) conf_goto [of capacity c xs "ANext (cf_head c)" t] by auto
next
  case (alloc_next t h)
  then have "h \<in> set xs" using assms(2) by (auto simp: conf_inv_def dest: spec [of _ t])
  then show ?thesis using alloc_next assms(2) conf_goto [of capacity c xs "ACas h (cf_next c ! unat h)" t] by auto
qed (use assms in \<open>force intro: conf_goto conf_start_free conf_cas conf_store conf_free\<close>)+

lemma pool_init_inv:
  assumes "0 < capacity"
  shows "conf_inv capacity (pool_init capacity) (map of_nat [0..<unat capacity])" "serial (pool_init capacity)"
  using new_pool_free [OF assms, of 0]
  by (simp_all add: conf_inv_def slots_split_def pool_init_def free_stack_def owned_def serial_def allocating_def)
    (simp_all add: new_pool_def)

lemma serial_reachable_inv:
  assumes "serial_reachable capacity c" "0 < capacity"
  shows "(\<exists>xs. conf_inv capacity c xs) \<and> serial c"
  using assms
proof (induction rule: serial_reachable.induct)
  case serial_init
  then show ?case using pool_init_inv by blast
next
  case (serial_step c c')
  then show ?case using conf_step by blast
qed

text \<open>A run of the scheduler in which every configuration is serial.\<close>

fun serial_exec :: "PoolConf \<Rightarrow> (nat \<times> PoolCmd) list \<Rightarrow> PoolConf option" where
  "serial_exec c [] = Some c"
| "serial_exec c ((t, cmd) # xs) =
     Option.bind (pool_act c t cmd) (\<lambda>c. if serial c then serial_exec c xs else None)"

lemma serial_exec_reachable:
  "serial_exec c xs = Some c' \<Longrightarrow> serial_reachable capacity c \<Longrightarrow> serial_reachable capacity c'"
  by (induction c xs rule: serial_exec.induct)
    (auto simp: Option.bind_eq_Some_conv dest: pool_act_step intro: serial_step split: if_splits)

lemma serial_one [simp]: "serial \<lparr>cf_head = h, cf_next = n, cf_pc = (\<lambda>_. Idle)(a := p), cf_held = e\<rparr>"
  by (simp add: serial_def allocating_def)

lemma serial_two [simp]:
  "a \<noteq> b \<Longrightarrow> serial \<lparr>cf_head = h, cf_next = n, cf_pc = (\<lambda>_. Idle)(a := p, b := q), cf_held = e\<rparr> \<longleftrightarrow>
     \<not> (allocating p \<and> allocating q)"
  by (auto simp: serial_def allocating_def)

lemma allocating_simps [simp]:
  "\<not> allocating Idle" "allocating ALoad" "allocating (ANext h)" "allocating (ACas h n)"
  "\<not> allocating (DLoad h)" "\<not> allocating (DStore h n)" "\<not> allocating (DCas h n)"
  by (simp_all add: allocating_def)

section \<open>Properties of the pool\<close>

text \<open>
  C8. One thread at a time, the pool hands out every slot at most once. For any sequence of
  allocations and of deallocations of held handles on a new pool with at least one slot, nothing
  panics, the held handles are distinct, none of them is free, and held and free handles together
  are exactly the slots of the pool.
\<close>

theorem pool_no_double_allocation:
  assumes "0 < capacity"
  shows "\<exists>p held. buffer_pool.client_run (new_pool slot_size capacity, []) ops = Some (p, held) \<and>
    distinct held \<and> set held \<inter> free_slots p = {} \<and> set held \<union> free_slots p = {h. unat h < unat capacity}"
proof -
  let ?p = "new_pool slot_size capacity"
  note f = new_pool_free [OF assms, of slot_size]
  have "set (map of_nat [0..<unat capacity]) = {h :: u32. unat h < unat capacity}"
  proof -
    have "h = of_nat (unat h)" for h :: u32 by simp
    then have "h \<in> set (map of_nat [0..<unat capacity])" if "unat h < unat capacity" for h :: u32
      using that by (metis (no_types) atLeastLessThan_iff image_eqI le0 set_map set_upt)
    moreover have "unat (of_nat i :: u32) < unat capacity" if "i < unat capacity" for i
    proof -
      have "unat capacity < 2 ^ 32" using unsigned_less [of capacity] by simp
      then show ?thesis using that by (simp add: word_norm)
    qed
    ultimately show ?thesis by auto
  qed
  then have u: "free_slots ?p = {h. unat h < unat capacity}" using free_slots_eq [OF f] by simp
  have "buffer_pool.held_ok (?p, []) (free_slots ?p)"
    unfolding buffer_pool.held_ok_def using f u by (auto simp: slots_def new_pool_def)
  from buffer_pool.client_run_ok [OF this, of ops] show ?thesis
    unfolding buffer_pool.held_ok_def u by auto
qed

theorem pool_no_double_allocation_witness:
  "\<exists>p held. buffer_pool.client_run (new_pool 64 2, []) [AllocOp, AllocOp, AllocOp, FreeOp 1, AllocOp] = Some (p, held) \<and>
    distinct held \<and> set held \<inter> free_slots p = {} \<and> set held \<union> free_slots p = {h. unat h < unat (2 :: u32)}"
  by (rule pool_no_double_allocation) simp

text \<open>
  C32. With several threads the same slot can be handed out twice. The compare-exchange of
  \<open>allocate\<close> compares only the index of the head (the ABA problem): from a pool of two slots a run
  of atomic steps of two threads reaches a state in which both threads hold slot 1.
\<close>

theorem pool_aba:
  "\<exists>c. pool_reachable 2 c \<and> 1 \<in> set (cf_held c 1) \<and> 1 \<in> set (cf_held c 2)"
proof -
  let ?A = "\<lambda>t. (t, Advance)" and ?B = "\<lambda>t. (t, BeginAlloc)"
  let ?sched = "[?B 1, ?A 1, ?A 1,
     ?B 2, ?A 2, ?A 2, ?A 2, ?B 2, ?A 2, ?A 2, ?A 2, (2, BeginFree 0), ?A 2, ?A 2, ?A 2,
     ?A 1, ?B 1, ?A 1, ?A 1, ?A 1]"
  have i: "pool_init 2 = \<lparr>cf_head = 0, cf_next = [1, END_OF_LIST], cf_pc = (\<lambda>_. Idle), cf_held = (\<lambda>_. [])\<rparr>"
    by (simp add: pool_init_def new_pool_def upt_rec)
  have "\<exists>c. pool_exec (pool_init 2) ?sched = Some c \<and> 1 \<in> set (cf_held c 1) \<and> 1 \<in> set (cf_held c 2)"
    unfolding i by (simp add: pool_act_def goto_def END_OF_LIST_def)
  then show ?thesis using pool_exec_reachable [OF _ pool_reachable.init] by blast
qed

text \<open>
  C9. Overlapping allocations are all it takes to break the pool. In every interleaving of atomic steps
  in which no two threads are inside \<open>allocate\<close> at once (deallocations may overlap each other and
  the allocation in any way), no handle is ever held twice, by one thread or by two, every held handle is a
  slot of the pool, and no step indexes the free list out of range.
\<close>

theorem serial_allocations_safe:
  assumes "serial_reachable capacity c" "0 < capacity"
  shows "distinct (cf_held c t) \<and> (\<forall>h \<in> set (cf_held c t). h < capacity) \<and>
    (\<forall>u. u \<noteq> t \<longrightarrow> set (cf_held c t) \<inter> set (cf_held c u) = {}) \<and>
    (\<forall>h hd'. cf_pc c t = ANext h \<or> cf_pc c t = DStore h hd' \<longrightarrow> unat h < length (cf_next c))"
proof -
  obtain xs where inv: "conf_inv capacity c xs" using serial_reachable_inv [OF assms] by blast
  then have split: "slots_split capacity c xs" by (simp add: conf_inv_def)
  have held: "set (cf_held c u) \<subseteq> set (owned c u)" for u by (simp add: owned_def)
  have "distinct (owned c t)" using split unfolding slots_split_def by blast
  then have "distinct (cf_held c t)" by (simp add: owned_def)
  moreover have "\<forall>h \<in> set (cf_held c t). h < capacity" using split held unfolding slots_split_def by blast
  moreover have "\<forall>u. u \<noteq> t \<longrightarrow> set (cf_held c t) \<inter> set (cf_held c u) = {}"
    using split held unfolding slots_split_def by blast
  moreover have "unat h < length (cf_next c)" if "cf_pc c t = ANext h" for h
  proof -
    have "knows (cf_next c) xs (cf_pc c t)" using inv unfolding conf_inv_def by blast
    then show ?thesis using that inv chain_bound [of "cf_next c" "cf_head c" xs h] unfolding conf_inv_def by (simp add: knows_def)
  qed
  moreover have "unat h < length (cf_next c)" if "cf_pc c t = DStore h hd'" for h hd'
  proof -
    have "h \<in> set (owned c t)" using that by (simp add: owned_def)
    then show ?thesis using slots_split_owned [OF split] inv by (simp add: conf_inv_def word_less_nat_alt)
  qed
  ultimately show ?thesis by blast
qed

theorem serial_allocations_safe_witness:
  "\<exists>c. serial_reachable 2 c \<and> cf_held c 1 = [1] \<and> cf_held c 2 = [0] \<and> set (cf_held c 2) \<inter> set (cf_held c 1) = {}"
proof -
  let ?A = "\<lambda>t. (t, Advance)" and ?B = "\<lambda>t. (t, BeginAlloc)"
  let ?race = "[?B 1, ?A 1, ?A 1, ?A 1, (1, BeginFree 0), ?B 2, ?A 2, ?A 1, ?A 2, ?A 1, ?A 1, ?A 2]"
  let ?mid = "\<lparr>cf_head = 0, cf_next = [1, END_OF_LIST], cf_pc = (\<lambda>_. Idle)(1 := Idle, 2 := ALoad),
    cf_held = (\<lambda>_. [])(1 := [])\<rparr>"
  have i: "pool_init 2 = \<lparr>cf_head = 0, cf_next = [1, END_OF_LIST], cf_pc = (\<lambda>_. Idle), cf_held = (\<lambda>_. [])\<rparr>"
    by (simp add: pool_init_def new_pool_def upt_rec)
  have "serial_exec (pool_init 2) ?race = Some ?mid"
    unfolding i by (simp add: pool_act_def goto_def END_OF_LIST_def)
  then have "serial_reachable 2 ?mid" by (rule serial_exec_reachable [OF _ serial_init])
  moreover have "\<exists>c. serial_exec ?mid [?A 2, ?A 2, ?A 2, ?B 1, ?A 1, ?A 1, ?A 1] = Some c \<and> cf_held c 1 = [1] \<and> cf_held c 2 = [0]"
    by (simp add: pool_act_def goto_def END_OF_LIST_def)
  ultimately obtain c where c: "serial_reachable 2 c" "cf_held c 1 = [1]" "cf_held c 2 = [0]"
    using serial_exec_reachable by blast
  then show ?thesis using serial_allocations_safe [OF c(1), of 2] by auto
qed

end
