(* ===== verification/Journal.thy ===== *)
theory Journal
  imports Prelude
begin

unbundle bit_operations_syntax

text \<open>
  \<open>src/src/journal.rs\<close>: the memory-mapped circular journal. The mapped file is a list of bytes
  of the journal's capacity, in the little-endian layout of \<open>repr(C)\<close>; what opening the file, setting
  its length, mapping it and flushing the map return are arguments of the operations that do so. Offsets given by a caller are 64-bit and wrap when the
  code adds to them.
\<close>

section \<open>Integrity codes\<close>

definition crc_bit :: "u32 \<Rightarrow> u32" where
  "crc_bit crc = (if crc AND 1 \<noteq> 0 then drop_bit 1 crc XOR 0xEDB88320 else drop_bit 1 crc)"

definition crc_byte :: "u32 \<Rightarrow> byte \<Rightarrow> u32" where
  "crc_byte crc b = (crc_bit ^^ 8) (crc XOR ucast b)"

definition crc32_simple :: "bytes \<Rightarrow> u32" where
  "crc32_simple data = foldl crc_byte 0xFFFFFFFF data XOR 0xFFFFFFFF"

definition fnv_byte :: "u64 \<Rightarrow> byte \<Rightarrow> u64" where
  "fnv_byte hash b = (hash XOR ucast b) * 0x100000001b3"

definition session_hash :: "bytes \<Rightarrow> bytes \<Rightarrow> u64" where
  "session_hash sender target =
     (let hash = foldl fnv_byte 0xcbf29ce484222325 sender; hash = fnv_byte hash 124 in
      foldl fnv_byte hash target)"

section \<open>The journal\<close>

record JournalEntryHeader =
  jh_session_hash :: u64
  jh_seq_num :: u64
  jh_body_length :: u32
  jh_crc32 :: u32

definition HEADER_SIZE :: nat where "HEADER_SIZE = 24"

datatype SyncPolicy = NoSync | Batch u32 | EveryMessage

record Journal =
  jn_mmap :: bytes
  jn_write_offset :: nat
  jn_capacity :: nat
  jn_sync_policy :: SyncPolicy
  jn_entry_count :: u64

definition encode_header :: "JournalEntryHeader \<Rightarrow> bytes" where
  "encode_header h =
     le_u64 (jh_session_hash h) @ le_u64 (jh_seq_num h) @ le_u32 (jh_body_length h) @ le_u32 (jh_crc32 h)"

definition decode_header :: "bytes \<Rightarrow> JournalEntryHeader" where
  "decode_header bs =
     \<lparr>jh_session_hash = of_nat (le_dec (take 8 bs)), jh_seq_num = of_nat (le_dec (take 8 (drop 8 bs))),
      jh_body_length = of_nat (le_dec (take 4 (drop 16 bs))),
      jh_crc32 = of_nat (le_dec (take 4 (drop 20 bs)))\<rparr>"

text \<open>
  \<open>opened\<close>, \<open>resized\<close> and \<open>mapped\<close> are what the operating system returns for the opening of the
  file (its contents), for \<open>set_len\<close> and for the memory map; each may be an error, which \<open>open\<close> passes
  on. The contents are cut or extended with zeros by \<open>set_len\<close>.
\<close>

definition opened_journal :: "bytes \<Rightarrow> nat \<Rightarrow> SyncPolicy \<Rightarrow> Journal" where
  "opened_journal file size_bytes sync_policy =
     \<lparr>jn_mmap = take size_bytes (file @ replicate size_bytes 0), jn_write_offset = 0,
      jn_capacity = size_bytes, jn_sync_policy = sync_policy, jn_entry_count = 0\<rparr>"

definition open_journal ::
  "'e + bytes \<Rightarrow> 'e + unit \<Rightarrow> 'e + unit \<Rightarrow> nat \<Rightarrow> SyncPolicy \<Rightarrow> 'e + Journal" where
  "open_journal opened resized mapped size_bytes sync_policy =
     (case opened of Inl e \<Rightarrow> Inl e
      | Inr file \<Rightarrow>
     (case resized of Inl e \<Rightarrow> Inl e
      | Inr _ \<Rightarrow>
     (case mapped of Inl e \<Rightarrow> Inl e
      | Inr _ \<Rightarrow> Inr (opened_journal file size_bytes sync_policy))))"

text \<open>\<open>flush_result\<close> is what the operating system's flush returns.\<close>

definition append_entry ::
  "('e + unit) \<Rightarrow> u64 \<Rightarrow> u64 \<Rightarrow> bytes \<Rightarrow> Journal \<Rightarrow> (('e + nat) \<times> Journal) run" where
  "append_entry flush_result session seq_num message j =
     (let total_size = HEADER_SIZE + length message;
          offset = (if jn_write_offset j + total_size > jn_capacity j then 0 else jn_write_offset j);
          header = \<lparr>jh_session_hash = session, jh_seq_num = seq_num,
                    jh_body_length = of_nat (length message), jh_crc32 = crc32_simple message\<rparr> in
      Option.bind (copy_at (jn_mmap j) offset (encode_header header)) (\<lambda>m.
      Option.bind (copy_at m (offset + HEADER_SIZE) message) (\<lambda>m.
        let j = j\<lparr>jn_mmap := m, jn_write_offset := offset + total_size,
                  jn_entry_count := jn_entry_count j + 1\<rparr> in
        Some (if jn_sync_policy j = EveryMessage
              then (case flush_result of Inl e \<Rightarrow> Inl e | Inr _ \<Rightarrow> Inr offset) else Inr offset, j))))"

definition read_entry :: "Journal \<Rightarrow> u64 \<Rightarrow> (JournalEntryHeader \<times> bytes) option run" where
  "read_entry j offset =
     (if unat (offset + of_nat HEADER_SIZE) > jn_capacity j then Some None
      else if unat offset > length (jn_mmap j) then None
      else
        let header = decode_header (take HEADER_SIZE (drop (unat offset) (jn_mmap j)));
            body_start = unat offset + HEADER_SIZE;
            body_end = body_start + unat (jh_body_length header) in
        if body_end > jn_capacity j then Some None
        else
          Option.bind (slice (jn_mmap j) body_start (unat (jh_body_length header))) (\<lambda>body.
            if crc32_simple body \<noteq> jh_crc32 header then Some None else Some (Some (header, body))))"

section \<open>Lemmas\<close>

lemma length_encode_header [simp]: "length (encode_header h) = HEADER_SIZE"
  by (simp add: encode_header_def HEADER_SIZE_def)

lemma decode_encode_header: "decode_header (encode_header h @ rest) = h"
  by (simp add: decode_header_def encode_header_def)

interpretation header_codec: codec "\<lambda>_. True" encode_header "\<lambda>bs. Some (decode_header bs)"
  by unfold_locales (use decode_encode_header [of _ "[]"] in simp)

definition journal_ok :: "Journal \<Rightarrow> bool" where
  "journal_ok j \<longleftrightarrow> length (jn_mmap j) = jn_capacity j \<and> jn_write_offset j \<le> jn_capacity j \<and>
     jn_capacity j < 2 ^ 63"

definition entry_text :: "u64 \<Rightarrow> u64 \<Rightarrow> bytes \<Rightarrow> bytes" where
  "entry_text session seq_num message =
     encode_header \<lparr>jh_session_hash = session, jh_seq_num = seq_num,
       jh_body_length = of_nat (length message), jh_crc32 = crc32_simple message\<rparr> @ message"

lemma length_entry_text [simp]: "length (entry_text s n m) = HEADER_SIZE + length m"
  by (simp add: entry_text_def)

text \<open>Where an entry of a given size goes.\<close>

definition entry_offset :: "Journal \<Rightarrow> nat \<Rightarrow> nat" where
  "entry_offset j k = (if jn_write_offset j + k > jn_capacity j then 0 else jn_write_offset j)"

lemma append_eq:
  assumes "journal_ok j" "HEADER_SIZE + length m \<le> jn_capacity j"
  shows "\<exists>r j'. append_entry fr s n m j = Some (r, j') \<and>
    copy_at (jn_mmap j) (entry_offset j (HEADER_SIZE + length m)) (entry_text s n m) = Some (jn_mmap j') \<and>
    jn_write_offset j' = entry_offset j (HEADER_SIZE + length m) + HEADER_SIZE + length m \<and>
    jn_capacity j' = jn_capacity j \<and> jn_sync_policy j' = jn_sync_policy j \<and> journal_ok j' \<and>
    jn_entry_count j' = jn_entry_count j + 1 \<and>
    (\<forall>off. r = Inr off \<longrightarrow> off = entry_offset j (HEADER_SIZE + length m)) \<and>
    (jn_sync_policy j \<noteq> EveryMessage \<longrightarrow> r = Inr (entry_offset j (HEADER_SIZE + length m)))"
proof -
  let ?off = "entry_offset j (HEADER_SIZE + length m)"
  let ?h = "\<lparr>jh_session_hash = s, jh_seq_num = n, jh_body_length = of_nat (length m), jh_crc32 = crc32_simple m\<rparr>"
  have fit: "?off + HEADER_SIZE + length m \<le> length (jn_mmap j)"
    using assms by (auto simp: entry_offset_def journal_ok_def)
  then obtain m1 where m1: "copy_at (jn_mmap j) ?off (encode_header ?h) = Some m1" by (simp add: copy_at_def)
  have l1: "length m1 = length (jn_mmap j)" by (rule copy_at_length [OF m1])
  then obtain m2 where m2: "copy_at m1 (?off + HEADER_SIZE) m = Some m2" using fit by (simp add: copy_at_def)
  have "copy_at (jn_mmap j) ?off (entry_text s n m) = Some m2"
    using copy_at_copy_at [of "jn_mmap j" ?off "encode_header ?h" m] m1 m2 by (simp add: entry_text_def)
  moreover have "length m2 = length (jn_mmap j)" using copy_at_length [OF m2] l1 by simp
  moreover define j' where "j' = j\<lparr>jn_mmap := m2, jn_write_offset := ?off + (HEADER_SIZE + length m),
      jn_entry_count := jn_entry_count j + 1\<rparr>"
  moreover have "append_entry fr s n m j =
      Some (if jn_sync_policy j = EveryMessage
            then (case fr of Inl e \<Rightarrow> Inl e | Inr _ \<Rightarrow> Inr ?off) else Inr ?off, j')"
    unfolding append_entry_def Let_def entry_offset_def [symmetric] j'_def m1 Option.bind.simps m2 by simp
  ultimately show ?thesis
    using fit assms(1) by (cases fr) (simp_all add: journal_ok_def)
qed

lemma read_text:
  assumes "length (jn_mmap j) = jn_capacity j" "jn_capacity j < 2 ^ 63" "length m < 2 ^ 32"
    and "take (HEADER_SIZE + length m) (drop off (jn_mmap j)) = entry_text s n m"
    and "off + HEADER_SIZE + length m \<le> jn_capacity j"
  shows "read_entry j (of_nat off) =
    Some (Some (\<lparr>jh_session_hash = s, jh_seq_num = n, jh_body_length = of_nat (length m),
      jh_crc32 = crc32_simple m\<rparr>, m))"
proof -
  let ?h = "\<lparr>jh_session_hash = s, jh_seq_num = n, jh_body_length = of_nat (length m), jh_crc32 = crc32_simple m\<rparr>"
  have small: "off < 2 ^ 64" "off + HEADER_SIZE < 2 ^ 64" using assms(2,5) by simp_all
  have "of_nat off + of_nat HEADER_SIZE = (of_nat (off + HEADER_SIZE) :: u64)" by simp
  moreover have "unat (of_nat k :: u64) = k" if "k < 2 ^ 64" for k
    using that by (simp add: word_norm)
  ultimately have o: "unat (of_nat off :: u64) = off"
    "unat (of_nat off + of_nat HEADER_SIZE :: u64) = off + HEADER_SIZE"
    using small by metis+
  have len: "unat (of_nat (length m) :: u32) = length m" using assms(3) by (simp add: word_norm)
  have hd: "take HEADER_SIZE (drop off (jn_mmap j)) = encode_header ?h"
    using arg_cong [OF assms(4), of "take HEADER_SIZE"] by (simp add: entry_text_def)
  have body: "take (length m) (drop (off + HEADER_SIZE) (jn_mmap j)) = m"
    using arg_cong [OF assms(4), of "drop HEADER_SIZE"] by (simp add: entry_text_def drop_take add.commute)
  show ?thesis
    using o len hd body assms(1,5) decode_encode_header [of ?h "[]"]
    by (simp add: read_entry_def Let_def slice_def)
qed

text \<open>One step of the CRC is injective: the top bit of the result tells which branch was taken.\<close>

lemma crc_poly_top: "bit (0xEDB88320 :: u32) 31"
  by (simp add: bit_numeral_rec)

lemma xor_cancel: "(a XOR c = b XOR c) = (a = (b :: 'a::len word))"
  by (metis xor.assoc xor.right_neutral xor_self_eq)

lemma crc_bit_inj: "crc_bit x = crc_bit y \<Longrightarrow> x = y"
proof -
  assume eq: "crc_bit x = crc_bit y"
  have top: "bit (crc_bit z) 31 \<longleftrightarrow> bit z 0" for z
    using crc_poly_top
    by (auto simp: crc_bit_def bit_xor_iff bit_drop_bit_eq and_one_eq odd_iff_mod_2_eq_one bit_0 bit_word_iff_drop_bit_and
        dest: bit_imp_le_length)
  have b0: "bit x 0 = bit y 0" using top [of x] top [of y] eq by simp
  then have "drop_bit 1 x = drop_bit 1 y"
    using eq by (auto simp: crc_bit_def and_one_eq odd_iff_mod_2_eq_one bit_0 xor_cancel split: if_splits)
  then have "bit x (Suc n) = bit y (Suc n)" for n
    by (metis bit_drop_bit_eq comp_apply plus_1_eq_Suc add.commute)
  with b0 show "x = y" by (intro bit_eqI) (metis not0_implies_Suc)
qed

lemma crc_bits_inj: "(crc_bit ^^ k) x = (crc_bit ^^ k) y \<Longrightarrow> x = y"
  by (induction k) (auto dest: crc_bit_inj)

lemma crc_byte_inj:
  "crc_byte c b = crc_byte d b \<Longrightarrow> c = d" "crc_byte c a = crc_byte c b \<Longrightarrow> a = b"
proof -
  show "crc_byte c b = crc_byte d b \<Longrightarrow> c = d"
    unfolding crc_byte_def by (drule crc_bits_inj) (simp add: xor_cancel)
  assume "crc_byte c a = crc_byte c b"
  then have "c XOR ucast a = c XOR (ucast b :: u32)" unfolding crc_byte_def by (rule crc_bits_inj)
  then have "(ucast a :: u32) = ucast b" by (metis xor_cancel xor.commute)
  moreover have "(ucast (ucast z :: u32) :: byte) = z" for z by transfer simp
  ultimately show "a = b" by metis
qed

lemma crc_fold_inj: "foldl crc_byte c xs = foldl crc_byte d xs \<Longrightarrow> c = d"
  by (induction xs arbitrary: c d) (auto dest: crc_byte_inj(1))

lemma crc_single: "crc32_simple (pre @ a # post) = crc32_simple (pre @ b # post) \<Longrightarrow> a = b"
  by (auto simp: crc32_simple_def xor_cancel dest!: crc_fold_inj crc_byte_inj(2))

section \<open>A series of entries\<close>

type_synonym entry = "u64 \<times> u64 \<times> bytes"

fun entry_bytes :: "entry \<Rightarrow> bytes" where
  "entry_bytes (s, n, m) = entry_text s n m"

fun entry_read :: "entry \<Rightarrow> JournalEntryHeader \<times> bytes" where
  "entry_read (s, n, m) =
     (\<lparr>jh_session_hash = s, jh_seq_num = n, jh_body_length = of_nat (length m), jh_crc32 = crc32_simple m\<rparr>, m)"

fun append_all :: "entry list \<Rightarrow> Journal \<Rightarrow> ((unit + nat) list \<times> Journal) run" where
  "append_all [] j = Some ([], j)"
| "append_all ((s, n, m) # es) j =
     Option.bind (append_entry (Inr ()) s n m j) (\<lambda>(r, j).
       map_option (\<lambda>(rs, j). (r # rs, j)) (append_all es j))"

fun offsets :: "nat \<Rightarrow> entry list \<Rightarrow> nat list" where
  "offsets off [] = []"
| "offsets off (e # es) = off # offsets (off + length (entry_bytes e)) es"

lemma length_offsets [simp]: "length (offsets off es) = length es"
  by (induction es arbitrary: off) simp_all

lemma append_all_layout:
  "journal_ok j \<Longrightarrow> jn_write_offset j + length (concat (map entry_bytes es)) \<le> jn_capacity j \<Longrightarrow>
   \<exists>j'. append_all es j = Some (map Inr (offsets (jn_write_offset j) es), j') \<and> journal_ok j' \<and>
     jn_capacity j' = jn_capacity j \<and>
     jn_mmap j' = take (jn_write_offset j) (jn_mmap j) @ concat (map entry_bytes es) @
       drop (jn_write_offset j + length (concat (map entry_bytes es))) (jn_mmap j)"
proof (induction es arbitrary: j)
  case Nil
  then show ?case by simp
next
  case (Cons e es)
  obtain s n m where e: "e = (s, n, m)" by (cases e)
  let ?t = "HEADER_SIZE + length m" and ?rest = "concat (map entry_bytes es)"
  have fit: "jn_write_offset j + ?t + length ?rest \<le> jn_capacity j" using Cons.prems(2) e by simp
  then have off: "entry_offset j ?t = jn_write_offset j" by (simp add: entry_offset_def)
  obtain r j1 where a: "append_entry (Inr () :: unit + unit) s n m j = Some (r, j1)"
    "copy_at (jn_mmap j) (jn_write_offset j) (entry_text s n m) = Some (jn_mmap j1)"
    "jn_write_offset j1 = jn_write_offset j + ?t" "jn_capacity j1 = jn_capacity j" "journal_ok j1"
    using append_eq [of j m "Inr () :: unit + unit" s n] Cons.prems(1) fit off by (auto simp: add.assoc)
  have r: "r = Inr (jn_write_offset j)"
    using a(1) off by (auto simp: append_entry_def Let_def Option.bind_eq_Some_conv entry_offset_def split: if_splits)
  have mm: "jn_mmap j1 = take (jn_write_offset j) (jn_mmap j) @ entry_text s n m @ drop (jn_write_offset j + ?t) (jn_mmap j)"
    using a(2) by (auto simp: copy_at_def split: if_splits)
  have "jn_write_offset j1 + length ?rest \<le> jn_capacity j1" using fit a(3,4) by simp
  from Cons.IH [OF a(5) this] obtain j' where j': "append_all es j1 = Some (map Inr (offsets (jn_write_offset j1) es), j')"
    "journal_ok j'" "jn_capacity j' = jn_capacity j1"
    "jn_mmap j' = take (jn_write_offset j1) (jn_mmap j1) @ ?rest @ drop (jn_write_offset j1 + length ?rest) (jn_mmap j1)"
    by blast
  have w: "jn_write_offset j \<le> length (jn_mmap j)" using Cons.prems(1) by (simp add: journal_ok_def)
  have "take (jn_write_offset j1) (jn_mmap j1) = take (jn_write_offset j) (jn_mmap j) @ entry_text s n m"
    unfolding mm a(3) using w by (simp add: min_absorb2)
  moreover have "drop (jn_write_offset j1 + length ?rest) (jn_mmap j1) =
      drop (jn_write_offset j + ?t + length ?rest) (jn_mmap j)"
    unfolding mm a(3) using w by (simp add: min_absorb2 ac_simps)
  ultimately have mm': "jn_mmap j' = take (jn_write_offset j) (jn_mmap j) @ concat (map entry_bytes (e # es)) @
      drop (jn_write_offset j + length (concat (map entry_bytes (e # es)))) (jn_mmap j)"
    using j'(4) e by (simp add: add.assoc)
  have "append_all (e # es) j = Some (map Inr (offsets (jn_write_offset j) (e # es)), j')"
    unfolding e append_all.simps a(1) r using j'(1) a(3) by (simp add: add.assoc)
  then show ?case using j'(2,3) a(4) mm' by metis
qed

lemma offsets_split:
  "i < length es \<Longrightarrow>
   offsets off es ! i = off + length (concat (map entry_bytes (take i es))) \<and>
   concat (map entry_bytes es) = concat (map entry_bytes (take i es)) @ entry_bytes (es ! i) @
     concat (map entry_bytes (drop (Suc i) es))"
proof (induction es arbitrary: off i)
  case (Cons e es)
  then show ?case by (cases i) (auto simp: add.assoc)
qed simp

section \<open>Properties of the journal\<close>

text \<open>
  C10. Replay. Entries that fit between the write offset and the end of the journal are all written
  and all read back, each at the offset its append returned, with the header and the message it
  was appended with, after all the others have been appended.
\<close>

theorem journal_replay:
  assumes "journal_ok j" "jn_write_offset j + length (concat (map entry_bytes es)) \<le> jn_capacity j"
    and "\<forall>(s, n, m) \<in> set es. length m < 2 ^ 32"
  shows "\<exists>j'. append_all es j = Some (map Inr (offsets (jn_write_offset j) es), j') \<and>
    (\<forall>i < length es. read_entry j' (of_nat (offsets (jn_write_offset j) es ! i)) = Some (Some (entry_read (es ! i))))"
proof -
  from append_all_layout [OF assms(1,2)] obtain j' where j': "append_all es j = Some (map Inr (offsets (jn_write_offset j) es), j')"
    "journal_ok j'" "jn_capacity j' = jn_capacity j"
    "jn_mmap j' = take (jn_write_offset j) (jn_mmap j) @ concat (map entry_bytes es) @
       drop (jn_write_offset j + length (concat (map entry_bytes es))) (jn_mmap j)" by blast
  have "read_entry j' (of_nat (offsets (jn_write_offset j) es ! i)) = Some (Some (entry_read (es ! i)))"
    if i: "i < length es" for i
  proof -
    obtain s n m where e: "es ! i = (s, n, m)" by (cases "es ! i")
    note sp = offsets_split [OF i, of "jn_write_offset j"]
    let ?off = "offsets (jn_write_offset j) es ! i"
    have w: "jn_write_offset j \<le> length (jn_mmap j)" using assms(1) by (simp add: journal_ok_def)
    have "drop ?off (jn_mmap j') = entry_text s n m @ concat (map entry_bytes (drop (Suc i) es)) @
        drop (jn_write_offset j + length (concat (map entry_bytes es))) (jn_mmap j)"
      unfolding j'(4) using sp w e by (simp add: min_absorb2)
    then have "take (HEADER_SIZE + length m) (drop ?off (jn_mmap j')) = entry_text s n m" by simp
    moreover have "?off + HEADER_SIZE + length m \<le> jn_capacity j'"
      using sp e assms(2) j'(3) by simp
    moreover have "length m < 2 ^ 32" using assms(3) e i by (metis (mono_tags, lifting) case_prodD nth_mem)
    ultimately show ?thesis
      using read_text [of j' m ?off s n] j'(2) e by (simp add: journal_ok_def)
  qed
  then show ?thesis using j'(1) by blast
qed

theorem journal_replay_witness:
  "\<exists>j'. append_all [(7, 1, [65, 66]), (7, 2, [67])] (opened_journal [] 64 NoSync) = Some ([Inr 0, Inr 26], j') \<and>
    read_entry j' 26 = Some (Some (entry_read (7, 2, [67])))"
proof -
  let ?es = "[(7, 1, [65, 66]), (7, 2, [67])] :: entry list"
  have "\<exists>j'. append_all ?es (opened_journal [] 64 NoSync) =
      Some (map Inr (offsets (jn_write_offset (opened_journal [] 64 NoSync)) ?es), j') \<and>
    (\<forall>i < length ?es. read_entry j' (of_nat (offsets (jn_write_offset (opened_journal [] 64 NoSync)) ?es ! i)) =
       Some (Some (entry_read (?es ! i))))"
    by (rule journal_replay) (simp_all add: journal_ok_def opened_journal_def HEADER_SIZE_def)
  then obtain j' where "append_all ?es (opened_journal [] 64 NoSync) = Some ([Inr 0, Inr 26], j')"
    "\<forall>i < 2. read_entry j' (of_nat ([0, 26] ! i)) = Some (Some (entry_read (?es ! i)))"
    by (auto simp: opened_journal_def HEADER_SIZE_def numeral_2_eq_2)
  then show ?thesis by (intro exI [of _ j']) (auto dest: spec [of _ 1])
qed

text \<open>
  Appending never panics unless the entry is larger than the journal, the entry lies inside the
  file, and the entry just written can be read back, also when the journal has wrapped round.
\<close>

theorem append_then_read:
  assumes "journal_ok j" "length m < 2 ^ 32"
  shows "(append_entry fr s n m j = None \<longleftrightarrow> jn_capacity j < HEADER_SIZE + length m) \<and>
    (\<forall>off j'. append_entry fr s n m j = Some (Inr off, j') \<longrightarrow>
       journal_ok j' \<and> off + HEADER_SIZE + length m \<le> jn_capacity j' \<and>
       read_entry j' (of_nat off) = Some (Some (entry_read (s, n, m))))"
proof (cases "HEADER_SIZE + length m \<le> jn_capacity j")
  case True
  let ?off = "entry_offset j (HEADER_SIZE + length m)"
  from append_eq [OF assms(1) True, of fr s n] obtain r j' where a: "append_entry fr s n m j = Some (r, j')"
    "copy_at (jn_mmap j) ?off (entry_text s n m) = Some (jn_mmap j')" "jn_capacity j' = jn_capacity j"
    "journal_ok j'" "\<forall>off. r = Inr off \<longrightarrow> off = ?off" by blast
  have fit: "?off + HEADER_SIZE + length m \<le> jn_capacity j'"
    using True a(3) assms(1) by (auto simp: entry_offset_def journal_ok_def)
  have "take (HEADER_SIZE + length m) (drop ?off (jn_mmap j')) = entry_text s n m"
  proof -
    have "jn_mmap j' = take ?off (jn_mmap j) @ entry_text s n m @ drop (?off + length (entry_text s n m)) (jn_mmap j)"
      using a(2) unfolding copy_at_def by (metis option.discI option.inject)
    moreover have "?off \<le> length (jn_mmap j)" using fit a(3) assms(1) by (simp add: journal_ok_def)
    ultimately show ?thesis by (simp add: min_absorb2)
  qed
  then have "read_entry j' (of_nat ?off) = Some (Some (entry_read (s, n, m)))"
    using read_text [of j' m ?off s n] fit a(4) assms(2) by (simp add: journal_ok_def)
  then show ?thesis using a fit True by auto
next
  case False
  let ?h = "\<lparr>jh_session_hash = s, jh_seq_num = n, jh_body_length = of_nat (length m), jh_crc32 = crc32_simple m\<rparr>"
  have "append_entry fr s n m j = None"
  proof (cases "copy_at (jn_mmap j) 0 (encode_header ?h)")
    case None
    then show ?thesis using False by (simp add: append_entry_def Let_def)
  next
    case (Some m1)
    then have "copy_at m1 HEADER_SIZE m = None"
      using False assms(1) copy_at_length [OF Some] by (simp add: copy_at_def journal_ok_def)
    then show ?thesis using False Some by (simp add: append_entry_def Let_def)
  qed
  then show ?thesis using False by simp
qed

theorem append_then_read_witness:
  "read_entry (snd (the (append_entry (Inr () :: unit + unit) 7 1 [65] (opened_journal [] 30 NoSync)))) 0 =
     Some (Some (entry_read (7, 1, [65])))"
  using append_then_read [of "opened_journal [] 30 NoSync" "[65]" "Inr () :: unit + unit" 7 1]
    append_eq [of "opened_journal [] 30 NoSync" "[65]" "Inr () :: unit + unit" 7 1]
  by (auto simp: journal_ok_def opened_journal_def HEADER_SIZE_def entry_offset_def)

text \<open>
  C28. The integrity code detects every change of a single byte of a message.
\<close>

theorem crc_detects_single_byte:
  assumes "i < length m" "x \<noteq> m ! i"
  shows "crc32_simple (m[i := x]) \<noteq> crc32_simple m"
proof
  assume eq: "crc32_simple (m[i := x]) = crc32_simple m"
  have "m = take i m @ m ! i # drop (Suc i) m" using assms(1) by (rule id_take_nth_drop)
  moreover have "m[i := x] = take i m @ x # drop (Suc i) m" using assms(1) by (rule upd_conv_take_nth_drop)
  ultimately have "crc32_simple (take i m @ x # drop (Suc i) m) = crc32_simple (take i m @ m ! i # drop (Suc i) m)"
    using eq by metis
  then have "x = m ! i" by (rule crc_single)
  with assms(2) show False by simp
qed

theorem crc_detects_single_byte_witness:
  "crc32_simple ([1, 2, 3][1 := 7]) \<noteq> crc32_simple [1, 2, 3]"
  by (rule crc_detects_single_byte) simp_all

text \<open>
  Reopening a journal loses its position. The write offset of an opened journal is zero
  whatever the file contains, so the first append after a restart overwrites the first entry,
  although the entries of the previous run are still in the file.
\<close>

theorem reopen_overwrites:
  assumes "open_journal (Inr file) resized mapped capacity p = Inr j"
    and "length file = capacity" "capacity < 2 ^ 63" "HEADER_SIZE + length m \<le> capacity"
  shows "\<exists>r j'. append_entry fr s n m j = Some (r, j') \<and>
    jn_mmap j' = entry_text s n m @ drop (HEADER_SIZE + length m) file"
proof -
  let ?j = "opened_journal file capacity p"
  have ok: "journal_ok ?j" "HEADER_SIZE + length m \<le> jn_capacity ?j"
    using assms(2-4) by (simp_all add: journal_ok_def opened_journal_def)
  from append_eq [OF ok, of fr s n] obtain r j' where "append_entry fr s n m ?j = Some (r, j')"
    "copy_at (jn_mmap ?j) (entry_offset ?j (HEADER_SIZE + length m)) (entry_text s n m) = Some (jn_mmap j')" by blast
  moreover have "j = ?j" using assms(1) by (auto simp: open_journal_def split: sum.splits)
  ultimately show ?thesis using assms(2-4) by (auto simp: entry_offset_def opened_journal_def copy_at_def split: if_splits)
qed

theorem reopen_overwrites_witness:
  "\<exists>r j'. append_entry (Inr () :: unit + unit) 7 3 [68] (opened_journal (entry_text 7 1 [65] @ entry_text 7 2 [66]) 50 NoSync) = Some (r, j') \<and>
    jn_mmap j' = entry_text 7 3 [68] @ entry_text 7 2 [66]"
  using reopen_overwrites [of "entry_text 7 1 [65] @ entry_text 7 2 [66]" "Inr () :: unit + unit" "Inr ()" 50 NoSync
      "opened_journal (entry_text 7 1 [65] @ entry_text 7 2 [66]) 50 NoSync" "[68]" "Inr () :: unit + unit" 7 3]
  by (simp add: HEADER_SIZE_def open_journal_def)

end
