(* ===== verification/Cluster.thy ===== *)
theory Cluster
  imports Prelude
begin

text \<open>
  \<open>src/src/cluster.rs\<close>: the cluster node, its elections, the replicated log with the byte format of
  its entries, the session table and its snapshots. Every slice of the decoders is guarded by a
  length test in the code, so they do not panic and return an option. The lengths of buffers and
  of the log are naturals; the counts and lengths the code narrows to 16 or 32 bits are narrowed.
\<close>

section \<open>Nodes\<close>

datatype NodeRole = Leader | Follower | Candidate

datatype NodeState = Joining | NodeActive | Snapshotting | Left

record NodeId =
  ni_id :: u32
  ni_address :: bytes
  ni_port :: u16

record ClusterConfig =
  cc_node_id :: NodeId
  cc_peers :: "NodeId list"
  cc_election_timeout_ms :: u64
  cc_heartbeat_interval_ms :: u64
  cc_snapshot_interval_msgs :: u64
  cc_log_dir :: bytes

definition cluster_default :: ClusterConfig where
  "cluster_default =
     \<lparr>cc_node_id = \<lparr>ni_id = 0, ni_address = asc ''127.0.0.1'', ni_port = 9000\<rparr>, cc_peers = [],
      cc_election_timeout_ms = 300, cc_heartbeat_interval_ms = 100, cc_snapshot_interval_msgs = 10000,
      cc_log_dir = asc ''/tmp/velocitas-cluster''\<rparr>"

definition single_node :: "u32 \<Rightarrow> ClusterConfig" where
  "single_node i =
     cluster_default\<lparr>cc_node_id := \<lparr>ni_id = i, ni_address = asc ''127.0.0.1'', ni_port = 9000 + ucast i\<rparr>,
       cc_peers := []\<rparr>"

definition three_node :: "u32 \<Rightarrow> NodeId list \<Rightarrow> ClusterConfig" where
  "three_node i peers =
     cluster_default\<lparr>cc_node_id := \<lparr>ni_id = i, ni_address = asc ''127.0.0.1'', ni_port = 9000 + ucast i\<rparr>,
       cc_peers := peers\<rparr>"

datatype LogEntryType = SessionStateChange | SequenceUpdate | MessageJournal | Configuration | Snapshot

record LogEntry =
  en_term :: u64
  en_index :: u64
  en_entry_type :: LogEntryType
  en_data :: bytes

record ReplicatedSessionState =
  rs_session_id :: bytes
  rs_sender_comp_id :: bytes
  rs_target_comp_id :: bytes
  rs_outbound_seq_num :: u64
  rs_inbound_seq_num :: u64
  rs_state :: byte
  rs_last_updated_ms :: u64

record ClusterNode =
  cn_config :: ClusterConfig
  cn_role :: NodeRole
  cn_state :: NodeState
  cn_current_term :: u64
  cn_voted_for :: "u32 option"
  cn_commit_index :: u64
  cn_last_applied :: u64
  cn_log :: "LogEntry list"
  cn_session_states :: "ReplicatedSessionState list"
  cn_leader_id :: "u32 option"
  cn_votes_received :: u32

definition node_new :: "ClusterConfig \<Rightarrow> ClusterNode" where
  "node_new config =
     \<lparr>cn_config = config, cn_role = Follower, cn_state = Joining, cn_current_term = 0, cn_voted_for = None,
      cn_commit_index = 0, cn_last_applied = 0, cn_log = [], cn_session_states = [], cn_leader_id = None,
      cn_votes_received = 0\<rparr>"

definition is_leader :: "ClusterNode \<Rightarrow> bool" where
  "is_leader n \<longleftrightarrow> cn_role n = Leader"

text \<open>The index of the last entry of the log, zero when the log is empty.\<close>

definition last_index :: "ClusterNode \<Rightarrow> u64" where
  "last_index n = (if cn_log n = [] then 0 else en_index (last (cn_log n)))"

definition pending_entries :: "ClusterNode \<Rightarrow> u64" where
  "pending_entries n =
     (if cn_log n = [] then 0
      else if last_index n > cn_commit_index n then last_index n - cn_commit_index n else 0)"

section \<open>Elections\<close>

definition step_down :: "u64 \<Rightarrow> ClusterNode \<Rightarrow> ClusterNode" where
  "step_down new_term n =
     n\<lparr>cn_role := Follower, cn_current_term := new_term, cn_voted_for := None, cn_votes_received := 0,
       cn_leader_id := None\<rparr>"

definition become_leader :: "ClusterNode \<Rightarrow> ClusterNode" where
  "become_leader n =
     n\<lparr>cn_role := Leader, cn_leader_id := Some (ni_id (cc_node_id (cn_config n))), cn_votes_received := 0\<rparr>"

definition begin_election :: "ClusterNode \<Rightarrow> ClusterNode" where
  "begin_election n =
     (let n = n\<lparr>cn_current_term := cn_current_term n + 1, cn_role := Candidate,
                cn_voted_for := Some (ni_id (cc_node_id (cn_config n))), cn_votes_received := 1,
                cn_leader_id := None\<rparr> in
      if cc_peers (cn_config n) = [] then become_leader n else n)"

definition node_start :: "ClusterNode \<Rightarrow> ClusterNode" where
  "node_start n = begin_election (n\<lparr>cn_state := NodeActive\<rparr>)"

definition receive_vote :: "u32 \<Rightarrow> u64 \<Rightarrow> bool \<Rightarrow> ClusterNode \<Rightarrow> ClusterNode" where
  "receive_vote from_node term granted n =
     (if term > cn_current_term n then step_down term n
      else if cn_role n \<noteq> Candidate \<or> term \<noteq> cn_current_term n then n
      else if granted then
        (let n = n\<lparr>cn_votes_received := cn_votes_received n + 1\<rparr>;
             cluster_size = of_nat (length (cc_peers (cn_config n))) + 1;
             majority = cluster_size div 2 + 1 in
         if cn_votes_received n \<ge> majority then become_leader n else n)
      else n)"

section \<open>The replicated log\<close>

text \<open>A string with its length in 16 bits: a longer string is written whole after a wrapped length.\<close>

definition encode_str :: "bytes \<Rightarrow> bytes" where
  "encode_str s = le_u16 (of_nat (length s)) @ s"

definition encode_session_state :: "ReplicatedSessionState \<Rightarrow> bytes" where
  "encode_session_state s =
     encode_str (rs_session_id s) @ encode_str (rs_sender_comp_id s) @ encode_str (rs_target_comp_id s) @
     le_u64 (rs_outbound_seq_num s) @ le_u64 (rs_inbound_seq_num s) @ [rs_state s] @ le_u64 (rs_last_updated_ms s)"

text \<open>The closure \<open>read_str\<close>, which returns the string and the advanced offset.\<close>

definition read_str :: "bytes \<Rightarrow> nat \<Rightarrow> (bytes \<times> nat) option" where
  "read_str data offset =
     (if offset + 2 > length data then None
      else
        let len = le_dec (take 2 (drop offset data)); offset = offset + 2 in
        if offset + len > length data then None
        else Option.bind (from_utf8 (take len (drop offset data))) (\<lambda>s. Some (s, offset + len)))"

definition decode_session_state :: "bytes \<Rightarrow> ReplicatedSessionState option" where
  "decode_session_state data =
     Option.bind (read_str data 0) (\<lambda>(session_id, offset).
     Option.bind (read_str data offset) (\<lambda>(sender_comp_id, offset).
     Option.bind (read_str data offset) (\<lambda>(target_comp_id, offset).
       if offset + 8 + 8 + 1 + 8 > length data then None
       else Some
         \<lparr>rs_session_id = session_id, rs_sender_comp_id = sender_comp_id, rs_target_comp_id = target_comp_id,
          rs_outbound_seq_num = of_nat (le_dec (take 8 (drop offset data))),
          rs_inbound_seq_num = of_nat (le_dec (take 8 (drop (offset + 8) data))),
          rs_state = data ! (offset + 16),
          rs_last_updated_ms = of_nat (le_dec (take 8 (drop (offset + 17) data)))\<rparr>)))"

definition replicate_session_state :: "ReplicatedSessionState \<Rightarrow> ClusterNode \<Rightarrow> ClusterNode" where
  "replicate_session_state s n =
     n\<lparr>cn_log := cn_log n @ [\<lparr>en_term = cn_current_term n, en_index = last_index n + 1,
         en_entry_type = SessionStateChange, en_data = encode_session_state s\<rparr>]\<rparr>"

text \<open>Update the first state with the same session id, or push the new one.\<close>

fun upsert :: "ReplicatedSessionState \<Rightarrow> ReplicatedSessionState list \<Rightarrow> ReplicatedSessionState list" where
  "upsert s [] = [s]"
| "upsert s (e # es) =
     (if rs_session_id e = rs_session_id s
      then e\<lparr>rs_outbound_seq_num := rs_outbound_seq_num s, rs_inbound_seq_num := rs_inbound_seq_num s,
             rs_state := rs_state s, rs_last_updated_ms := rs_last_updated_ms s\<rparr> # es
      else e # upsert s es)"

definition apply_log_entry :: "LogEntry \<Rightarrow> ClusterNode \<Rightarrow> ClusterNode" where
  "apply_log_entry entry n =
     (let n = (if en_entry_type entry = SessionStateChange
               then (case decode_session_state (en_data entry) of None \<Rightarrow> n
                     | Some s \<Rightarrow> n\<lparr>cn_session_states := upsert s (cn_session_states n)\<rparr>)
               else n);
          n = (if en_index entry > cn_last_applied n then n\<lparr>cn_last_applied := en_index entry\<rparr> else n) in
      if en_index entry > cn_commit_index n then n\<lparr>cn_commit_index := en_index entry\<rparr> else n)"

definition get_session_state :: "ClusterNode \<Rightarrow> bytes \<Rightarrow> ReplicatedSessionState option" where
  "get_session_state n session_id = List.find (\<lambda>s. rs_session_id s = session_id) (cn_session_states n)"

section \<open>Snapshots\<close>

definition snapshot_state :: "ReplicatedSessionState \<Rightarrow> bytes" where
  "snapshot_state s = (let encoded = encode_session_state s in le_u32 (of_nat (length encoded)) @ encoded)"

definition create_snapshot :: "ClusterNode \<Rightarrow> bytes" where
  "create_snapshot n =
     le_u32 (of_nat (length (cn_session_states n))) @ concat (map snapshot_state (cn_session_states n))"

text \<open>The loop of \<open>restore_snapshot\<close>: iterations left, offset, states pushed so far.\<close>

fun restore_loop ::
  "nat \<Rightarrow> bytes \<Rightarrow> nat \<Rightarrow> ReplicatedSessionState list \<Rightarrow> ReplicatedSessionState list" where
  "restore_loop 0 data offset acc = acc"
| "restore_loop (Suc k) data offset acc =
     (if offset + 4 > length data then acc
      else
        let len = le_dec (take 4 (drop offset data)); offset = offset + 4 in
        if offset + len > length data then acc
        else restore_loop k data (offset + len)
               (case decode_session_state (take len (drop offset data)) of None \<Rightarrow> acc | Some s \<Rightarrow> acc @ [s]))"

definition restore_snapshot :: "bytes \<Rightarrow> ClusterNode \<Rightarrow> ClusterNode" where
  "restore_snapshot data n =
     (let n = n\<lparr>cn_session_states := []\<rparr> in
      if length data < 4 then n
      else n\<lparr>cn_session_states := restore_loop (le_dec (take 4 data)) data 4 [], cn_state := NodeActive\<rparr>)"

section \<open>The byte format\<close>

text \<open>A state that the format can carry: strings of fewer than \<open>2^16\<close> bytes (a \<open>String\<close> is UTF-8).\<close>

definition str_ok :: "bytes \<Rightarrow> bool" where
  "str_ok s \<longleftrightarrow> length s < 65536 \<and> utf8_valid s"

definition state_ok :: "ReplicatedSessionState \<Rightarrow> bool" where
  "state_ok s \<longleftrightarrow> str_ok (rs_session_id s) \<and> str_ok (rs_sender_comp_id s) \<and> str_ok (rs_target_comp_id s)"

lemma length_encode_str [simp]: "length (encode_str s) = 2 + length s"
  by (simp add: encode_str_def)

lemma read_str_layout:
  assumes "str_ok s"
  shows "read_str (pre @ encode_str s @ rest) (length pre) = Some (s, length pre + 2 + length s)"
proof -
  have "unat (of_nat (length s) :: u16) = length s" using assms by (simp add: str_ok_def word_norm)
  moreover have "from_utf8 s = Some s" using assms by (simp add: str_ok_def from_utf8_def)
  ultimately show ?thesis by (simp add: read_str_def encode_str_def)
qed

lemma decode_encode_state:
  assumes "state_ok s"
  shows "decode_session_state (encode_session_state s) = Some s"
proof -
  let ?a = "encode_str (rs_session_id s)" and ?b = "encode_str (rs_sender_comp_id s)"
    and ?c = "encode_str (rs_target_comp_id s)"
  let ?t = "le_u64 (rs_outbound_seq_num s) @ le_u64 (rs_inbound_seq_num s) @ [rs_state s] @ le_u64 (rs_last_updated_ms s)"
  let ?o = "length ?a + length ?b + length ?c"
  have d: "encode_session_state s = ?a @ ?b @ ?c @ ?t" by (simp add: encode_session_state_def)
  have r: "read_str (?a @ ?b @ ?c @ ?t) 0 = Some (rs_session_id s, length ?a)"
    "read_str (?a @ ?b @ ?c @ ?t) (length ?a) = Some (rs_sender_comp_id s, length ?a + length ?b)"
    "read_str (?a @ ?b @ ?c @ ?t) (length ?a + length ?b) = Some (rs_target_comp_id s, ?o)"
    using assms read_str_layout [of "rs_session_id s" "[]" "?b @ ?c @ ?t"]
      read_str_layout [of "rs_sender_comp_id s" "?a" "?c @ ?t"]
      read_str_layout [of "rs_target_comp_id s" "?a @ ?b" "?t"]
    by (simp_all add: state_ok_def)
  have "drop (?o + k) (?a @ ?b @ ?c @ ?t) = drop k ?t" for k by simp
  note dr = this [of 0] this [of 8] this [of 16] this [of 17]
  have n: "(?a @ ?b @ ?c @ ?t) ! (?o + 16) = rs_state s"
    by (simp add: nth_append)
  have l: "length (?a @ ?b @ ?c @ ?t) = ?o + 25" by simp
  have t: "take 8 (drop 0 ?t) = le_u64 (rs_outbound_seq_num s)" "take 8 (drop 8 ?t) = le_u64 (rs_inbound_seq_num s)"
    "take 8 (drop 17 ?t) = le_u64 (rs_last_updated_ms s)" by simp_all
  show ?thesis
    unfolding d decode_session_state_def r Option.bind.simps prod.case l
    using dr n t by (simp del: drop_append length_append length_encode_str append_assoc drop_0)
qed

interpretation state_codec: codec state_ok encode_session_state decode_session_state
  by unfold_locales (rule decode_encode_state)

section \<open>The session table\<close>

text \<open>What a replicated state means for a table from session ids to states.\<close>

definition table_update ::
  "ReplicatedSessionState \<Rightarrow> (bytes \<Rightarrow> ReplicatedSessionState option) \<Rightarrow> bytes \<Rightarrow> ReplicatedSessionState option" where
  "table_update s t =
     t(rs_session_id s \<mapsto>
        (case t (rs_session_id s) of None \<Rightarrow> s
         | Some e \<Rightarrow> s\<lparr>rs_sender_comp_id := rs_sender_comp_id e, rs_target_comp_id := rs_target_comp_id e\<rparr>))"

definition find_state :: "ReplicatedSessionState list \<Rightarrow> bytes \<Rightarrow> ReplicatedSessionState option" where
  "find_state ss k = List.find (\<lambda>s. rs_session_id s = k) ss"

lemma get_session_state_find: "get_session_state n = find_state (cn_session_states n)"
  by (rule ext) (simp add: get_session_state_def find_state_def)

lemma find_upsert: "find_state (upsert s ss) = table_update s (find_state ss)"
proof (induction ss)
  case Nil
  then show ?case by (simp add: find_state_def table_update_def fun_eq_iff)
next
  case (Cons e ss)
  show ?case
  proof (cases "rs_session_id e = rs_session_id s")
    case True
    then show ?thesis by (auto simp: find_state_def table_update_def fun_eq_iff)
  next
    case False
    have f: "find_state (e # xs) = (find_state xs)(rs_session_id e \<mapsto> e)" for xs
      by (auto simp: find_state_def fun_eq_iff)
    show ?thesis using False Cons by (auto simp: f table_update_def fun_eq_iff)
  qed
qed

definition state_entry :: "u64 \<Rightarrow> u64 \<Rightarrow> ReplicatedSessionState \<Rightarrow> LogEntry" where
  "state_entry t i s =
     \<lparr>en_term = t, en_index = i, en_entry_type = SessionStateChange, en_data = encode_session_state s\<rparr>"

lemma apply_log_entry_fields:
  "cn_session_states (apply_log_entry e n) =
     (case decode_session_state (en_data e) of
        Some s \<Rightarrow> if en_entry_type e = SessionStateChange then upsert s (cn_session_states n) else cn_session_states n
      | None \<Rightarrow> cn_session_states n)"
  "cn_commit_index (apply_log_entry e n) = max (cn_commit_index n) (en_index e)"
  "cn_last_applied (apply_log_entry e n) = max (cn_last_applied n) (en_index e)"
  "cn_log (apply_log_entry e n) = cn_log n" "cn_role (apply_log_entry e n) = cn_role n"
  "cn_config (apply_log_entry e n) = cn_config n" "cn_leader_id (apply_log_entry e n) = cn_leader_id n"
  "cn_voted_for (apply_log_entry e n) = cn_voted_for n" "cn_current_term (apply_log_entry e n) = cn_current_term n"
  by (auto simp: apply_log_entry_def Let_def max_def split: option.splits)

lemma apply_state_entry:
  "state_ok s \<Longrightarrow>
   get_session_state (apply_log_entry (state_entry t i s) n) = table_update s (get_session_state n)"
  by (simp add: get_session_state_find apply_log_entry_fields state_entry_def state_codec.dec_enc find_upsert)

definition apply_log :: "LogEntry list \<Rightarrow> ClusterNode \<Rightarrow> ClusterNode" where
  "apply_log es n = foldl (\<lambda>n e. apply_log_entry e n) n es"

lemma apply_log_simps [simp]:
  "apply_log [] n = n" "apply_log (e # es) n = apply_log es (apply_log_entry e n)"
  by (simp_all add: apply_log_def)

text \<open>The entries that replicating a list of states appends, with consecutive indices.\<close>

fun state_entries :: "u64 \<Rightarrow> u64 \<Rightarrow> ReplicatedSessionState list \<Rightarrow> LogEntry list" where
  "state_entries t i [] = []"
| "state_entries t i (s # ss) = state_entry t (i + 1) s # state_entries t (i + 1) ss"

lemma replicate_log:
  "cn_log (foldl (\<lambda>n s. replicate_session_state s n) n ss) =
   cn_log n @ state_entries (cn_current_term n) (last_index n) ss"
proof (induction ss arbitrary: n)
  case Nil
  then show ?case by simp
next
  case (Cons s ss)
  let ?n = "replicate_session_state s n"
  have "cn_log ?n = cn_log n @ [state_entry (cn_current_term n) (last_index n + 1) s]"
    "cn_current_term ?n = cn_current_term n" "last_index ?n = last_index n + 1"
    by (simp_all add: replicate_session_state_def state_entry_def last_index_def)
  then show ?case using Cons [of ?n] by simp
qed

lemma apply_state_entries:
  "list_all state_ok ss \<Longrightarrow>
   get_session_state (apply_log (state_entries t i ss) n) =
     foldl (\<lambda>tbl s. table_update s tbl) (get_session_state n) ss"
  by (induction ss arbitrary: i n) (simp_all add: apply_state_entry)

lemma apply_log_commit:
  "cn_commit_index (apply_log es n) = foldl max (cn_commit_index n) (map en_index es)"
  "cn_last_applied (apply_log es n) = foldl max (cn_last_applied n) (map en_index es)"
  by (induction es arbitrary: n) (simp_all add: apply_log_entry_fields)

section \<open>Snapshots restored\<close>

lemma encode_length: "state_ok s \<Longrightarrow> length (encode_session_state s) < 2 ^ 32"
  by (simp add: encode_session_state_def state_ok_def str_ok_def)

lemma restore_loop_prefix:
  "list_all state_ok ss \<Longrightarrow>
   \<exists>i. restore_loop (length ss) (pre @ take n (concat (map snapshot_state ss))) (length pre) acc = acc @ take i ss \<and>
     (n \<ge> length (concat (map snapshot_state ss)) \<longrightarrow> i = length ss)"
proof (induction ss arbitrary: pre n acc)
  case Nil
  then show ?case by simp
next
  case (Cons s ss)
  let ?e = "encode_session_state s" and ?r = "concat (map snapshot_state ss)"
  have ok: "state_ok s" "list_all state_ok ss" using Cons.prems by simp_all
  have len: "unat (of_nat (length ?e) :: u32) = length ?e"
    using encode_length [OF ok(1)] by (simp add: word_norm)
  have sn: "snapshot_state s = le_u32 (of_nat (length ?e)) @ ?e" by (simp add: snapshot_state_def Let_def)
  let ?d = "pre @ take n (snapshot_state s @ ?r)"
  show ?case
  proof (cases "n \<ge> length (snapshot_state s)")
    case True
    then have d: "?d = (pre @ snapshot_state s) @ take (n - length (snapshot_state s)) ?r" by simp
    have "restore_loop (length (s # ss)) ?d (length pre) acc =
        restore_loop (length ss) ?d (length (pre @ snapshot_state s)) (acc @ [s])"
      unfolding d using len ok(1) by (simp add: sn Let_def state_codec.dec_enc add.assoc)
    moreover obtain i where "restore_loop (length ss) ((pre @ snapshot_state s) @ take (n - length (snapshot_state s)) ?r)
        (length (pre @ snapshot_state s)) (acc @ [s]) = (acc @ [s]) @ take i ss"
      "n - length (snapshot_state s) \<ge> length ?r \<longrightarrow> i = length ss"
      using Cons.IH [OF ok(2), of "pre @ snapshot_state s" "n - length (snapshot_state s)" "acc @ [s]"] by blast
    ultimately show ?thesis
      unfolding d [symmetric] using True by (intro exI [of _ "Suc i"]) auto
  next
    case False
    have "restore_loop (length (s # ss)) ?d (length pre) acc = acc"
    proof (cases "n < 4")
      case True
      then have "length ?d < length pre + 4" by (simp only: length_append length_take)
      then show ?thesis by simp
    next
      case n4: False
      have "take 4 (drop (length pre) ?d) = le_u32 (of_nat (length ?e))" using n4 by (simp add: sn)
      moreover have "length ?d < length pre + 4 + length ?e" using False by (simp add: sn)
      ultimately show ?thesis using len n4 by (simp add: Let_def)
    qed
    then show ?thesis using False by (intro exI [of _ 0]) simp
  qed
qed

section \<open>Elections counted\<close>

text \<open>Responses with the node's own term, as pairs of sender and grant.\<close>

definition count_votes :: "u64 \<Rightarrow> (u32 \<times> bool) list \<Rightarrow> ClusterNode \<Rightarrow> ClusterNode" where
  "count_votes t vs n = foldl (\<lambda>n (sender, granted). receive_vote sender t granted n) n vs"

lemma count_votes_simps [simp]:
  "count_votes t [] n = n"
  "count_votes t ((f, g) # vs) n = count_votes t vs (receive_vote f t g n)"
  by (simp_all add: count_votes_def)

lemma votes_after_leader:
  "cn_role n = Leader \<Longrightarrow> cn_current_term n = t \<Longrightarrow> count_votes t vs n = n"
  by (induction vs arbitrary: n) (auto simp: receive_vote_def)

lemma majority_reached:
  assumes "length ps + 1 < 2 ^ 32" "v + 1 < 2 ^ 32"
  shows "(of_nat v + 1 :: u32) \<ge> (of_nat (length ps) + 1) div 2 + 1 \<longleftrightarrow> (length ps + 1) div 2 \<le> v"
proof -
  have small: "unat (of_nat k :: u32) = k" if "k < 2 ^ 32" for k using that by (simp add: word_norm)
  have "unat (of_nat (length ps + 1) div 2 :: u32) = (length ps + 1) div 2"
    using small [OF assms(1)] by (simp add: unat_div)
  then have half: "(of_nat (length ps) + 1 :: u32) div 2 = of_nat ((length ps + 1) div 2)"
    using small [of "(length ps + 1) div 2"] assms(1) by (simp add: word_unat_eq_iff add.commute)
  have "(of_nat ((length ps + 1) div 2) + 1 :: u32) \<le> of_nat v + 1 \<longleftrightarrow>
      (of_nat ((length ps + 1) div 2 + 1) :: u32) \<le> of_nat (v + 1)" by (simp add: add.commute)
  also have "\<dots> \<longleftrightarrow> (length ps + 1) div 2 + 1 \<le> v + 1"
    using assms small [of "(length ps + 1) div 2 + 1"] small [of "v + 1"]
    by (simp only: word_le_nat_alt)
  finally show ?thesis unfolding half by simp
qed

lemma count_votes_result:
  "cn_role n = Candidate \<Longrightarrow> cn_current_term n = t \<Longrightarrow> cn_votes_received n = of_nat v + 1 \<Longrightarrow>
   length (cc_peers (cn_config n)) + 1 < 2 ^ 32 \<Longrightarrow> v + length vs + 1 < 2 ^ 32 \<Longrightarrow>
   v < (length (cc_peers (cn_config n)) + 1) div 2 \<Longrightarrow>
   is_leader (count_votes t vs n) \<longleftrightarrow>
     (length (cc_peers (cn_config n)) + 1) div 2 \<le> v + length (filter snd vs)"
proof (induction vs arbitrary: n v)
  case Nil
  then show ?case by (simp add: is_leader_def)
next
  case (Cons x vs)
  obtain f g where x: "x = (f, g)" by (cases x)
  show ?case
  proof (cases g)
    case False
    then have "receive_vote f t g n = n" using Cons.prems by (simp add: receive_vote_def)
    then show ?thesis using Cons.IH [of n v] Cons.prems x False by simp
  next
    case True
    let ?p = "length (cc_peers (cn_config n))"
    let ?n = "n\<lparr>cn_votes_received := of_nat (v + 1) + 1\<rparr>"
    have r: "receive_vote f t g n = (if (?p + 1) div 2 \<le> v + 1 then become_leader ?n else ?n)"
      using Cons.prems True majority_reached [of "cc_peers (cn_config n)" "v + 1"]
      by (simp add: receive_vote_def Let_def add.commute)
    show ?thesis
    proof (cases "(?p + 1) div 2 \<le> v + 1")
      case reached: True
      have l: "cn_role (become_leader ?n) = Leader" "cn_current_term (become_leader ?n) = t"
        using Cons.prems by (simp_all add: become_leader_def)
      then have "count_votes t vs (become_leader ?n) = become_leader ?n" by (rule votes_after_leader)
      then show ?thesis using r reached l x True by (simp add: is_leader_def)
    next
      case False
      then show ?thesis using Cons.IH [of ?n "v + 1"] Cons.prems r x True by simp
    qed
  qed
qed

section \<open>Any sequence of operations\<close>

datatype ClusterEvent =
  StartEv | ElectionEv | LeadEv | StepDownEv u64 | VoteEv u32 u64 bool
| ReplicateEv ReplicatedSessionState | ApplyEv LogEntry | RestoreEv bytes

fun cluster_step :: "ClusterNode \<Rightarrow> ClusterEvent \<Rightarrow> ClusterNode" where
  "cluster_step n StartEv = node_start n"
| "cluster_step n ElectionEv = begin_election n"
| "cluster_step n LeadEv = become_leader n"
| "cluster_step n (StepDownEv t) = step_down t n"
| "cluster_step n (VoteEv f t g) = receive_vote f t g n"
| "cluster_step n (ReplicateEv s) = replicate_session_state s n"
| "cluster_step n (ApplyEv e) = apply_log_entry e n"
| "cluster_step n (RestoreEv d) = restore_snapshot d n"

definition cluster_inv :: "ClusterNode \<Rightarrow> bool" where
  "cluster_inv n \<longleftrightarrow>
     (case cn_role n of
        Leader \<Rightarrow> cn_leader_id n = Some (ni_id (cc_node_id (cn_config n)))
      | Candidate \<Rightarrow> cn_leader_id n = None \<and> cn_voted_for n = Some (ni_id (cc_node_id (cn_config n)))
      | Follower \<Rightarrow> cn_leader_id n = None) \<and>
     cn_last_applied n = cn_commit_index n"

lemmas cluster_ops = node_start_def begin_election_def become_leader_def step_down_def receive_vote_def
  replicate_session_state_def restore_snapshot_def

interpretation cluster_machine: machine cluster_step cluster_inv
proof
  fix n e
  assume "cluster_inv n"
  then show "cluster_inv (cluster_step n e)"
    by (cases e) (simp_all add: cluster_inv_def cluster_ops apply_log_entry_fields Let_def split: NodeRole.splits)
qed

lemma cluster_step_frame:
  "cn_config (cluster_step n e) = cn_config n" "cn_commit_index n \<le> cn_commit_index (cluster_step n e)"
  by (cases e; simp add: cluster_ops apply_log_entry_fields Let_def)+

section \<open>Properties of the cluster\<close>

text \<open>
  C34. Replication. Applying the log entries that a node appends for a list of session states makes
  the other node's table the one obtained by updating it with those states in order: the latest
  numbers win, under the CompIDs of the first state seen for the session id. The commit index is
  the highest index applied (whether or not the lower ones were). The session ids and CompIDs of the
  states are taken to be UTF-8 of fewer than 65536 bytes, which is what an entry's length field can
  carry and its reader accepts.
\<close>

theorem replication_refines:
  assumes "list_all state_ok ss"
    and "es = drop (length (cn_log a)) (cn_log (foldl (\<lambda>n s. replicate_session_state s n) a ss))"
  shows "get_session_state (apply_log es b) = foldl (\<lambda>tbl s. table_update s tbl) (get_session_state b) ss \<and>
    cn_commit_index (apply_log es b) = foldl max (cn_commit_index b) (map en_index es)"
  using assms by (simp add: replicate_log apply_state_entries apply_log_commit)

definition sample_state :: "u64 \<Rightarrow> u64 \<Rightarrow> ReplicatedSessionState" where
  "sample_state out inb =
     \<lparr>rs_session_id = asc ''FIX-1'', rs_sender_comp_id = asc ''S'', rs_target_comp_id = asc ''T'',
      rs_outbound_seq_num = out, rs_inbound_seq_num = inb, rs_state = 3, rs_last_updated_ms = 9\<rparr>"

lemma sample_state_ok: "state_ok (sample_state x y)"
  by (simp add: state_ok_def str_ok_def sample_state_def asc_def utf8_valid.simps(2))

lemma new_empty: "cn_log (node_new c) = []" "get_session_state (node_new c) k = None"
  by (simp_all add: node_new_def get_session_state_def)

theorem replication_refines_witness:
  "get_session_state (apply_log
       (drop 0 (cn_log (foldl (\<lambda>n s. replicate_session_state s n) (node_new (single_node 1)) [sample_state 10 5, sample_state 42 30])))
       (node_new (single_node 2))) (asc ''FIX-1'') = Some (sample_state 42 30)"
proof -
  let ?ss = "[sample_state 10 5, sample_state 42 30]"
  have "list_all state_ok ?ss" by (simp add: sample_state_ok)
  from replication_refines [OF this refl, of "node_new (single_node 1)" "node_new (single_node 2)"]
  show ?thesis
    by (simp add: new_empty table_update_def sample_state_def)
qed

text \<open>
  C35. Snapshots. A node restored from a snapshot has the session table of the node that made it and
  is Active, whatever it held before; from a snapshot cut off at any byte it has a prefix of that
  table. The session ids and CompIDs of the states are taken to be UTF-8 of fewer than 65536 bytes, and
  there are fewer than \<open>2^32\<close> states.
\<close>

theorem snapshot_restores:
  assumes "list_all state_ok (cn_session_states n)" "length (cn_session_states n) < 2 ^ 32"
  shows "restore_snapshot (create_snapshot n) m =
      m\<lparr>cn_session_states := cn_session_states n, cn_state := NodeActive\<rparr> \<and>
    (\<exists>i. cn_session_states (restore_snapshot (take k (create_snapshot n)) m) = take i (cn_session_states n))"
proof -
  let ?ss = "cn_session_states n" and ?c = "le_u32 (of_nat (length (cn_session_states n)))"
  let ?b = "concat (map snapshot_state (cn_session_states n))"
  have c: "le_dec ?c = length ?ss" using assms(2) by (simp add: word_norm)
  have snap: "create_snapshot n = ?c @ ?b" by (simp add: create_snapshot_def)
  have cut: "\<exists>i. restore_loop (length ?ss) (?c @ take j ?b) 4 [] = take i ?ss \<and> (j \<ge> length ?b \<longrightarrow> i = length ?ss)" for j
    using restore_loop_prefix [OF assms(1), of ?c j "[]"] by simp
  have "restore_loop (length ?ss) (?c @ ?b) 4 [] = ?ss" using cut [of "length ?b"] by auto
  then have "restore_snapshot (create_snapshot n) m = m\<lparr>cn_session_states := ?ss, cn_state := NodeActive\<rparr>"
    using c by (simp add: restore_snapshot_def Let_def snap)
  moreover have "\<exists>i. cn_session_states (restore_snapshot (take k (create_snapshot n)) m) = take i ?ss"
  proof (cases "k < 4")
    case True
    then have "length (take k (create_snapshot n)) < 4" by simp
    then show ?thesis by (intro exI [of _ 0]) (simp add: restore_snapshot_def Let_def)
  next
    case False
    then have t: "take k (create_snapshot n) = ?c @ take (k - 4) ?b" by (simp add: snap)
    obtain i where "restore_loop (length ?ss) (?c @ take (k - 4) ?b) 4 [] = take i ?ss" using cut by blast
    then show ?thesis using c by (intro exI [of _ i]) (simp add: t restore_snapshot_def Let_def)
  qed
  ultimately show ?thesis by blast
qed

theorem snapshot_restores_witness:
  "cn_session_states (restore_snapshot (create_snapshot ((node_new (single_node 1))\<lparr>cn_session_states := [sample_state 1 2]\<rparr>))
     (node_new (single_node 2))) = [sample_state 1 2]"
  using snapshot_restores [of "(node_new (single_node 1))\<lparr>cn_session_states := [sample_state 1 2]\<rparr>" "node_new (single_node 2)"]
  by (simp add: sample_state_ok)

text \<open>
  C36. Winning an election. After starting an election in a cluster with peers, the responses with the
  node's own term make it the leader exactly when the granted ones, with its own vote, are a
  majority of the cluster. Responses are counted, whoever sent them: the sender is not looked at, so
  several grants from one peer count like grants from several.
\<close>

theorem election_majority:
  assumes "cc_peers (cn_config n) \<noteq> []" "length (cc_peers (cn_config n)) + 1 < 2 ^ 32" "length vs + 1 < 2 ^ 32"
  shows "is_leader (count_votes (cn_current_term n + 1) vs (begin_election n)) \<longleftrightarrow>
    (length (cc_peers (cn_config n)) + 1) div 2 \<le> length (filter snd vs)"
proof -
  have e: "cn_role (begin_election n) = Candidate" "cn_current_term (begin_election n) = cn_current_term n + 1"
    "cn_votes_received (begin_election n) = of_nat 0 + 1" "cn_config (begin_election n) = cn_config n"
    using assms(1) by (simp_all add: begin_election_def Let_def)
  have "0 < (length (cc_peers (cn_config n)) + 1) div 2" using assms(1) by (cases "cc_peers (cn_config n)") simp_all
  then show ?thesis
    using count_votes_result [OF e(1,2,3), of vs] assms(2,3) unfolding e(4) by simp
qed

theorem election_majority_witness:
  "is_leader (count_votes 1 [(2, True), (2, True)]
     (begin_election (node_new (three_node 1 (replicate 4 (cc_node_id (single_node 2)))))))"
proof -
  have c: "length (cc_peers (cn_config (node_new (three_node i ps)))) = length ps"
    "cn_current_term (node_new (three_node i ps)) = 0" for i ps
    by (simp_all add: node_new_def three_node_def)
  then have "cc_peers (cn_config (node_new (three_node 1 (replicate 4 x)))) \<noteq> []" for x
    by (metis length_replicate list.size(3) zero_neq_numeral)
  then show ?thesis
    using election_majority [of "node_new (three_node 1 (replicate 4 (cc_node_id (single_node 2))))" "[(2, True), (2, True)]"] c
    by simp
qed

text \<open>
  C37. The node through any history. After any sequence of starts, elections, responses, step-downs,
  replications, log entries and restored snapshots: a leader names itself as the leader and a
  candidate has voted for itself and knows no leader; what is applied is exactly what is committed;
  the configuration is unchanged; and the commit index never goes down.
\<close>

theorem cluster_run_safe:
  "cluster_inv (foldl cluster_step (node_new c) es) \<and> cn_config (foldl cluster_step (node_new c) es) = c \<and>
   cn_commit_index (foldl cluster_step (node_new c) es) \<le> cn_commit_index (foldl cluster_step (node_new c) (es @ fs))"
proof -
  have i: "cluster_inv (node_new c)" by (simp add: cluster_inv_def node_new_def)
  have j: "cluster_inv (foldl cluster_step (node_new c) es)" by (rule cluster_machine.run_inv [OF i])
  have "cn_config (foldl cluster_step (node_new c) es) = cn_config (node_new c)"
    by (rule cluster_machine.run_const [OF cluster_step_frame(1) i])
  moreover have "cn_commit_index (foldl cluster_step (node_new c) es) \<le>
      cn_commit_index (foldl cluster_step (foldl cluster_step (node_new c) es) fs)"
    by (rule cluster_machine.run_mono [OF cluster_step_frame(2) j])
  ultimately show ?thesis using j by (simp add: node_new_def)
qed

end
