(* ===== verification/RepeatingGroups.thy ===== *)
theory RepeatingGroups
  imports Message
begin

text \<open>
  \<open>src/src/groups.rs\<close>: repeating groups, parsed from the field entries of a view. The recursion over
  nested definitions follows the definition; the loop over the fields of an entry takes the number
  of remaining fields as fuel, which \<open>fields_loop_fuel\<close> below shows to be enough. A result is
  \<^const>\<open>None\<close> for a panic: a field entry outside the buffer, or a count for which
  \<open>Vec::with_capacity\<close> overflows (an entry takes 48 bytes on a 64-bit target) or which the allocator
  cannot serve, which ends the process. Which counts it can serve is the parameter \<open>reserve\<close>.
\<close>

section \<open>Definitions and instances of groups\<close>

datatype GroupDef =
  GroupDef (gd_count_tag: u32) (gd_delimiter_tag: u32) (gd_member_tags: "u32 list") (gd_nested_groups: "GroupDef list")

datatype RepeatingGroup =
  RepeatingGroup (rg_count_tag: u32) (rg_count: nat) (rg_entries: "GroupEntry list")
and GroupEntry =
  GroupEntry (ge_fields: "(u32 \<times> bytes) list") (ge_nested: "RepeatingGroup list")

definition new_group_def :: "u32 \<Rightarrow> u32 \<Rightarrow> u32 list \<Rightarrow> GroupDef" where
  "new_group_def count_tag delimiter_tag member_tags = GroupDef count_tag delimiter_tag member_tags []"

definition with_nested :: "GroupDef \<Rightarrow> GroupDef \<Rightarrow> GroupDef" where
  "with_nested g nested =
     GroupDef (gd_count_tag g) (gd_delimiter_tag g) (gd_member_tags g) (gd_nested_groups g @ [nested])"

definition md_entries_group :: GroupDef where
  "md_entries_group = new_group_def 268 269 [269, 270, 271, 279]"

definition legs_group :: GroupDef where
  "legs_group = new_group_def 555 600 [600, 624, 687]"

definition fills_group :: GroupDef where
  "fills_group = new_group_def 1362 1363 [1363, 1364, 1365]"

definition parse_usize_from_buf :: "bytes \<Rightarrow> FieldEntry \<Rightarrow> u64 option run" where
  "parse_usize_from_buf buffer e = map_option (digit_loop 0) (entry_value buffer e)"

definition parse_i64_bytes :: "bytes \<Rightarrow> i64 option" where
  "parse_i64_bytes bs =
     (case bs of [] \<Rightarrow> None
      | c # rest \<Rightarrow>
          (let negative = (c = 45) in
           map_option (\<lambda>result. if negative then - result else result)
             (digit_loop 0 (if negative then rest else bs))))"

section \<open>Readers\<close>

definition group_get_entry :: "RepeatingGroup \<Rightarrow> nat \<Rightarrow> GroupEntry option" where
  "group_get_entry g i = (if i < length (rg_entries g) then Some (rg_entries g ! i) else None)"

definition entry_get_field :: "GroupEntry \<Rightarrow> u32 \<Rightarrow> bytes option" where
  "entry_get_field e tag = map_option snd (find (\<lambda>(t, _). t = tag) (ge_fields e))"

definition entry_get_field_str :: "GroupEntry \<Rightarrow> u32 \<Rightarrow> bytes option" where
  "entry_get_field_str e tag = Option.bind (entry_get_field e tag) from_utf8"

definition entry_get_field_i64 :: "GroupEntry \<Rightarrow> u32 \<Rightarrow> i64 option" where
  "entry_get_field_i64 e tag = Option.bind (entry_get_field e tag) parse_i64_bytes"

definition entry_get_nested :: "GroupEntry \<Rightarrow> u32 \<Rightarrow> RepeatingGroup option" where
  "entry_get_nested e count_tag = find (\<lambda>g. rg_count_tag g = count_tag) (ge_nested e)"

section \<open>Parsing\<close>

type_synonym group_parser = "nat \<Rightarrow> (RepeatingGroup \<times> nat) option run"

text \<open>\<open>while idx < field_entries.len()\<close>; the nested parsers are looked up by count tag, the first first.\<close>

fun fields_loop ::
  "nat \<Rightarrow> bytes \<Rightarrow> FieldEntry list \<Rightarrow> u32 \<Rightarrow> u32 list \<Rightarrow> (u32 \<times> group_parser) list \<Rightarrow> nat \<Rightarrow>
   (u32 \<times> bytes) list \<Rightarrow> RepeatingGroup list \<Rightarrow> ((u32 \<times> bytes) list \<times> RepeatingGroup list \<times> nat) run" where
  "fields_loop 0 buffer fes delim members parsers idx fs nested = Some (fs, nested, idx)"
| "fields_loop (Suc k) buffer fes delim members parsers idx fs nested =
     (if idx < length fes then
        let tag = fe_tag (fes ! idx) in
        if tag = delim then Some (fs, nested, idx)
        else
          Option.bind (case map_of parsers tag of None \<Rightarrow> Some None | Some p \<Rightarrow> p idx) (\<lambda>r.
            case r of
              Some (g, next_idx) \<Rightarrow> fields_loop k buffer fes delim members parsers next_idx fs (nested @ [g])
            | None \<Rightarrow>
                if tag \<in> set members then
                  Option.bind (entry_value buffer (fes ! idx)) (\<lambda>v.
                    fields_loop k buffer fes delim members parsers (idx + 1) (fs @ [(tag, v)]) nested)
                else Some (fs, nested, idx))
      else Some (fs, nested, idx))"

text \<open>\<open>for _ in 0..count\<close>.\<close>

fun entries_loop ::
  "nat \<Rightarrow> bytes \<Rightarrow> FieldEntry list \<Rightarrow> u32 \<Rightarrow> u32 list \<Rightarrow> (u32 \<times> group_parser) list \<Rightarrow> nat \<Rightarrow>
   GroupEntry list \<Rightarrow> (GroupEntry list \<times> nat) run" where
  "entries_loop 0 buffer fes delim members parsers idx entries = Some (entries, idx)"
| "entries_loop (Suc k) buffer fes delim members parsers idx entries =
     (if idx \<ge> length fes \<or> fe_tag (fes ! idx) \<noteq> delim then Some (entries, idx)
      else
        Option.bind (entry_value buffer (fes ! idx)) (\<lambda>v.
        Option.bind (fields_loop (length fes - (idx + 1)) buffer fes delim members parsers (idx + 1)
            [(fe_tag (fes ! idx), v)] []) (\<lambda>(fs, nested, idx).
          entries_loop k buffer fes delim members parsers idx (entries @ [GroupEntry fs nested]))))"

text \<open>
  \<open>Vec::with_capacity(count)\<close> for entries of 48 bytes: a size of \<open>2 ^ 63\<close> bytes or more panics, and
  when the allocator has no memory for a smaller one the process is aborted. Which counts the
  allocator can serve is the parameter \<open>reserve\<close>.
\<close>

definition capacity_overflow :: "u64 \<Rightarrow> bool" where
  "capacity_overflow count \<longleftrightarrow> unat count * 48 \<ge> 2 ^ 63"

fun parse_group ::
  "(u64 \<Rightarrow> bool) \<Rightarrow> GroupDef \<Rightarrow> bytes \<Rightarrow> FieldEntry list \<Rightarrow> nat \<Rightarrow> (RepeatingGroup \<times> nat) option run" where
  "parse_group reserve (GroupDef count_tag delim members nested) buffer fes start_index =
     (if start_index \<ge> length fes then Some None
      else if fe_tag (fes ! start_index) \<noteq> count_tag then Some None
      else
        Option.bind (parse_usize_from_buf buffer (fes ! start_index)) (\<lambda>c.
          case c of None \<Rightarrow> Some None
          | Some count \<Rightarrow>
              if count = 0 then Some (Some (RepeatingGroup count_tag 0 [], start_index + 1))
              else if capacity_overflow count \<or> \<not> reserve count then None
              else
                map_option (\<lambda>(entries, idx). Some (RepeatingGroup count_tag (length entries) entries, idx))
                  (entries_loop (unat count) buffer fes delim members
                    (map (\<lambda>nd. (gd_count_tag nd, \<lambda>idx. parse_group reserve nd buffer fes idx)) nested)
                    (start_index + 1) [])))"

declare parse_group.simps [simp del]

section \<open>Groups as fields\<close>

text \<open>The fields of a group in the order they are sent: the count, then the entries.\<close>

fun flatten_group :: "RepeatingGroup \<Rightarrow> (u32 \<times> bytes) list"
  and flatten_entry :: "GroupEntry \<Rightarrow> (u32 \<times> bytes) list" where
  "flatten_group (RepeatingGroup count_tag n entries) = (count_tag, dec n) # concat (map flatten_entry entries)"
| "flatten_entry (GroupEntry fs nested) = fs @ concat (map flatten_group nested)"

text \<open>A tag that neither the group nor any group nested in it takes after its last entry.\<close>

fun alien :: "u32 \<Rightarrow> GroupDef \<Rightarrow> bool" where
  "alien tag (GroupDef count_tag delim members nested) \<longleftrightarrow>
     tag \<notin> set members \<and> tag \<notin> gd_count_tag ` set nested \<and> list_all (alien tag) nested"

text \<open>Definitions whose nested groups cannot swallow what follows them in the entry.\<close>

fun def_ok :: "GroupDef \<Rightarrow> bool" where
  "def_ok (GroupDef count_tag delim members nested) \<longleftrightarrow>
     list_all (\<lambda>nd. def_ok nd \<and> alien delim nd \<and> gd_count_tag nd \<noteq> delim \<and>
       list_all (\<lambda>nd'. alien (gd_count_tag nd') nd) nested) nested"

text \<open>A group that is an instance of a definition.\<close>

fun fits :: "GroupDef \<Rightarrow> RepeatingGroup \<Rightarrow> bool" where
  "fits (GroupDef count_tag delim members nested) g \<longleftrightarrow>
     rg_count_tag g = count_tag \<and> rg_count g = length (rg_entries g) \<and> rg_count g * 48 < 2 ^ 63 \<and>
     list_all (\<lambda>e.
       ge_fields e \<noteq> [] \<and> fst (hd (ge_fields e)) = delim \<and>
       list_all (\<lambda>(t, _). t \<noteq> delim \<and> t \<in> set members \<and> t \<notin> gd_count_tag ` set nested) (tl (ge_fields e)) \<and>
       list_all (\<lambda>h. list_ex (\<lambda>nd. find (\<lambda>nd. gd_count_tag nd = rg_count_tag h) nested = Some nd \<and> fits nd h) nested)
         (ge_nested e)) (rg_entries g)"

definition entry_pairs :: "bytes \<Rightarrow> FieldEntry list \<Rightarrow> (u32 \<times> bytes) list" where
  "entry_pairs buffer fes =
     map (\<lambda>e. (fe_tag e, take (unat (fe_length e)) (drop (unat (fe_offset e)) buffer))) fes"

lemma field_pairs_entry: "field_pairs v = entry_pairs (mv_buffer v) (mv_fields v)"
  by (simp add: field_pairs_def entry_pairs_def)

lemma entry_at:
  assumes "list_all (entry_ok buffer) fes" "entry_pairs buffer fes = pre @ (t, x) # rest"
  shows "length pre < length fes" "fe_tag (fes ! length pre) = t" "entry_value buffer (fes ! length pre) = Some x"
proof -
  have l: "length fes = length pre + 1 + length rest"
    using arg_cong [OF assms(2), of length] by (simp add: entry_pairs_def)
  then show i: "length pre < length fes" by simp
  have "entry_pairs buffer fes ! length pre = (t, x)" using assms(2) by simp
  then have p: "fe_tag (fes ! length pre) = t"
    "take (unat (fe_length (fes ! length pre))) (drop (unat (fe_offset (fes ! length pre))) buffer) = x"
    using i by (simp_all add: entry_pairs_def)
  then show "fe_tag (fes ! length pre) = t" by simp
  have "entry_ok buffer (fes ! length pre)" using assms(1) i by (simp add: list_all_length)
  then show "entry_value buffer (fes ! length pre) = Some x" using p(2) by (simp add: entry_value_ok)
qed

lemma pairs_end: "entry_pairs buffer fes = pre \<Longrightarrow> length fes = length pre"
  by (auto simp: entry_pairs_def)

section \<open>The loops on laid-out fields\<close>

lemma fields_plain:
  "list_all (entry_ok buffer) fes \<Longrightarrow> entry_pairs buffer fes = pre @ fs @ rest \<Longrightarrow>
   list_all (\<lambda>(t, _). t \<noteq> delim \<and> t \<in> set members \<and> map_of parsers t = None) fs \<Longrightarrow>
   fields_loop (length fs + k) buffer fes delim members parsers (length pre) acc nested =
     fields_loop k buffer fes delim members parsers (length pre + length fs) (acc @ fs) nested"
proof (induction fs arbitrary: pre acc)
  case Nil
  then show ?case by simp
next
  case (Cons f fs)
  obtain t x where f: "f = (t, x)" by (cases f)
  have "entry_pairs buffer fes = pre @ (t, x) # (fs @ rest)" using Cons.prems(2) f by simp
  note e = entry_at [OF Cons.prems(1) this]
  have "fields_loop (length fs + k) buffer fes delim members parsers (length (pre @ [f])) (acc @ [f]) nested =
      fields_loop k buffer fes delim members parsers (length (pre @ [f]) + length fs) ((acc @ [f]) @ fs) nested"
    using Cons.prems by (intro Cons.IH) simp_all
  then show ?case using e Cons.prems(3) f by (simp add: Let_def)
qed

lemma fields_stop:
  assumes "list_all (entry_ok buffer) fes" "entry_pairs buffer fes = pre @ rest"
    and "rest = [] \<or> fst (hd rest) = delim \<or> (fst (hd rest) \<notin> set members \<and> map_of parsers (fst (hd rest)) = None)"
  shows "fields_loop k buffer fes delim members parsers (length pre) acc nested = Some (acc, nested, length pre)"
proof (cases k)
  case 0
  then show ?thesis by simp
next
  case (Suc m)
  show ?thesis
  proof (cases rest)
    case Nil
    then show ?thesis using pairs_end [of buffer fes pre] assms(2) Suc by simp
  next
    case (Cons f rest')
    obtain t x where "f = (t, x)" by (cases f)
    then show ?thesis
      using entry_at [OF assms(1), of pre t x rest'] assms(2,3) Cons Suc by (auto simp: Let_def)
  qed
qed

lemma flatten_group_Cons:
  "flatten_group g = (rg_count_tag g, dec (rg_count g)) # concat (map flatten_entry (rg_entries g))"
  by (cases g) simp

text \<open>What may follow: nothing, or a field whose tag satisfies \<open>T\<close>.\<close>

definition after :: "(u32 \<Rightarrow> bool) \<Rightarrow> (u32 \<times> bytes) list \<Rightarrow> bool" where
  "after T rest \<longleftrightarrow> rest = [] \<or> T (fst (hd rest))"

lemma fields_nested:
  assumes ok: "list_all (entry_ok buffer) fes"
    and P: "\<And>g pre rest. g \<in> set ns \<Longrightarrow> entry_pairs buffer fes = pre @ flatten_group g @ rest \<Longrightarrow> after T rest \<Longrightarrow>
      \<exists>p. map_of parsers (rg_count_tag g) = Some p \<and>
        p (length pre) = Some (Some (g, length pre + length (flatten_group g)))"
    and tags: "\<And>g. g \<in> set ns \<Longrightarrow> T (rg_count_tag g) \<and> rg_count_tag g \<noteq> delim"
    and lay: "entry_pairs buffer fes = pre @ concat (map flatten_group ns) @ rest" "after T rest"
  shows "fields_loop (length ns + k) buffer fes delim members parsers (length pre) acc nested =
    fields_loop k buffer fes delim members parsers (length pre + length (concat (map flatten_group ns))) acc (nested @ ns)"
  using P tags lay
proof (induction ns arbitrary: pre nested)
  case Nil
  then show ?case by simp
next
  case (Cons g ns)
  let ?r = "concat (map flatten_group ns) @ rest"
  have r: "after T ?r"
    using Cons.prems(2) [of "hd ns"] Cons.prems(4) by (cases ns) (auto simp: after_def flatten_group_Cons)
  have lay: "entry_pairs buffer fes = pre @ flatten_group g @ ?r" using Cons.prems(3) by simp
  then have lay': "entry_pairs buffer fes =
      pre @ (rg_count_tag g, dec (rg_count g)) # (concat (map flatten_entry (rg_entries g)) @ ?r)"
    by (simp add: flatten_group_Cons)
  obtain p where p: "map_of parsers (rg_count_tag g) = Some p"
    "p (length pre) = Some (Some (g, length pre + length (flatten_group g)))"
    using Cons.prems(1) [of g pre ?r] lay r by auto
  have "fields_loop (length ns + k) buffer fes delim members parsers (length (pre @ flatten_group g)) acc (nested @ [g]) =
      fields_loop k buffer fes delim members parsers
        (length (pre @ flatten_group g) + length (concat (map flatten_group ns))) acc ((nested @ [g]) @ ns)"
    by (rule Cons.IH [OF Cons.prems(1) Cons.prems(2) _ Cons.prems(4)]) (simp_all add: lay)
  then show ?case
    using entry_at [OF ok lay'] p Cons.prems(2) [of g] by (simp add: Let_def add.assoc)
qed

text \<open>One entry, then all of them.\<close>

lemma entries_layout:
  assumes ok: "list_all (entry_ok buffer) fes"
    and P: "\<And>g pre rest. g \<in> set (concat (map ge_nested es)) \<Longrightarrow>
      entry_pairs buffer fes = pre @ flatten_group g @ rest \<Longrightarrow> after T rest \<Longrightarrow>
      \<exists>p. map_of parsers (rg_count_tag g) = Some p \<and>
        p (length pre) = Some (Some (g, length pre + length (flatten_group g)))"
    and tags: "\<And>g. g \<in> set (concat (map ge_nested es)) \<Longrightarrow> T (rg_count_tag g) \<and> rg_count_tag g \<noteq> delim"
    and plain: "list_all (\<lambda>e. ge_fields e \<noteq> [] \<and> fst (hd (ge_fields e)) = delim \<and>
      list_all (\<lambda>(t, _). t \<noteq> delim \<and> t \<in> set members \<and> map_of parsers t = None) (tl (ge_fields e))) es"
    and T: "T delim" "after T rest" "rest \<noteq> [] \<longrightarrow> fst (hd rest) \<notin> set members \<and> map_of parsers (fst (hd rest)) = None"
    and lay: "entry_pairs buffer fes = pre @ concat (map flatten_entry es) @ rest"
  shows "entries_loop (length es) buffer fes delim members parsers (length pre) acc =
    Some (acc @ es, length pre + length (concat (map flatten_entry es)))"
  using P tags plain lay
proof (induction es arbitrary: pre acc)
  case Nil
  then show ?case by simp
next
  case (Cons e es)
  let ?r = "concat (map flatten_entry es) @ rest"
  obtain fs ns where e: "e = GroupEntry fs ns" by (cases e)
  obtain x fs' where fs: "fs = (delim, x) # fs'" using Cons.prems(3) e by (cases fs) auto
  have r: "?r = [] \<or> fst (hd ?r) = delim \<or> (fst (hd ?r) \<notin> set members \<and> map_of parsers (fst (hd ?r)) = None)"
    and rT: "after T ?r"
  proof -
    have "es \<noteq> [] \<Longrightarrow> fst (hd ?r) = delim"
      using Cons.prems(3) by (cases es; cases "hd es"; cases "ge_fields (hd es)") auto
    then show "?r = [] \<or> fst (hd ?r) = delim \<or> (fst (hd ?r) \<notin> set members \<and> map_of parsers (fst (hd ?r)) = None)"
      "after T ?r"
      using T by (cases es; auto simp: after_def)+
  qed
  let ?n = "concat (map flatten_group ns)"
  have lay: "entry_pairs buffer fes = pre @ (delim, x) # (fs' @ ?n @ ?r)"
    "entry_pairs buffer fes = (pre @ [(delim, x)]) @ fs' @ (?n @ ?r)"
    "entry_pairs buffer fes = (pre @ [(delim, x)] @ fs') @ ?n @ ?r"
    "entry_pairs buffer fes = (pre @ [(delim, x)] @ fs' @ ?n) @ ?r"
    using Cons.prems(4) e fs by simp_all
  have len: "length fes = length pre + 1 + length fs' + length ?n + length ?r"
    using pairs_end [OF lay(1)] by simp
  have "length ns \<le> length ?n" by (induction ns) (simp_all add: flatten_group_Cons)
  moreover define k where "k = length fes - (length pre + 1) - length fs' - length ns"
  ultimately have k: "length fes - (length pre + 1) = length fs' + (length ns + k)" using len by linarith
  have one: "fields_loop (length fes - (length pre + 1)) buffer fes delim members parsers (length pre + 1) [(delim, x)] [] =
      Some ((delim, x) # fs', ns, length pre + 1 + length fs' + length ?n)"
  proof -
    have "fields_loop (length fes - (length pre + 1)) buffer fes delim members parsers (length pre + 1) [(delim, x)] [] =
        fields_loop (length ns + k) buffer fes delim members parsers (length (pre @ [(delim, x)] @ fs')) ((delim, x) # fs') []"
      using fields_plain [OF ok lay(2), of delim members parsers "length ns + k" "[(delim, x)]" "[]"] Cons.prems(3) e fs k
      by simp
    also have "\<dots> = fields_loop k buffer fes delim members parsers (length (pre @ [(delim, x)] @ fs') + length ?n)
        ((delim, x) # fs') ([] @ ns)"
      by (rule fields_nested [OF ok Cons.prems(1) Cons.prems(2) lay(3) rT]) (simp_all add: e)
    also have "\<dots> = Some ((delim, x) # fs', [] @ ns, length (pre @ [(delim, x)] @ fs' @ ?n))"
      using fields_stop [OF ok lay(4) r, of k "(delim, x) # fs'" "[] @ ns"] by (simp add: add.assoc)
    finally show ?thesis by simp
  qed
  have "entries_loop (length es) buffer fes delim members parsers (length (pre @ flatten_entry e)) (acc @ [e]) =
      Some ((acc @ [e]) @ es, length (pre @ flatten_entry e) + length (concat (map flatten_entry es)))"
    by (rule Cons.IH [OF Cons.prems(1) Cons.prems(2)]) (use Cons.prems(3,4) in simp_all)
  then show ?case
    using entry_at [OF ok lay(1)] one e fs by (simp add: add.assoc)
qed

section \<open>A group and its fields\<close>

lemma parsers_map_of:
  "map_of (map (\<lambda>nd. (gd_count_tag nd, f nd)) nested) tag = map_option f (find (\<lambda>nd. gd_count_tag nd = tag) nested)"
  by (rule find_map_of [symmetric])

lemma parsers_None:
  "map_of (map (\<lambda>nd. (gd_count_tag nd, f nd)) nested) tag = None \<longleftrightarrow> tag \<notin> gd_count_tag ` set nested"
  by (simp add: map_of_eq_None_iff image_image)

definition follows :: "GroupDef \<Rightarrow> (u32 \<times> bytes) list \<Rightarrow> bool" where
  "follows d rest \<longleftrightarrow> rest = [] \<or> alien (fst (hd rest)) d"

lemma fits_nested:
  assumes "fits (GroupDef ct delim members nested) g" "h \<in> set (concat (map ge_nested (rg_entries g)))"
  obtains nd where "nd \<in> set nested" "find (\<lambda>nd. gd_count_tag nd = rg_count_tag h) nested = Some nd"
    "fits nd h" "rg_count_tag h = gd_count_tag nd"
proof -
  obtain e where "e \<in> set (rg_entries g)" "h \<in> set (ge_nested e)" using assms(2) by auto
  then have "\<exists>nd \<in> set nested. find (\<lambda>nd. gd_count_tag nd = rg_count_tag h) nested = Some nd \<and> fits nd h"
    using assms(1) by (simp add: list_all_iff list_ex_iff)
  then show ?thesis using that by (fastforce simp: find_Some_iff)
qed

lemma flatten_entry_nonempty: "ge_fields e \<noteq> [] \<Longrightarrow> flatten_entry e \<noteq> []"
  by (cases e) simp

lemma entries_le_fields:
  "list_all (\<lambda>e. ge_fields e \<noteq> []) es \<Longrightarrow> length es \<le> length (concat (map flatten_entry es))"
proof (induction es)
  case (Cons e es)
  then have "1 \<le> length (flatten_entry e)" using flatten_entry_nonempty [of e] by (cases "flatten_entry e") simp_all
  moreover have "length es \<le> length (concat (map flatten_entry es))" using Cons by simp
  ultimately have "length es + 1 \<le> length (flatten_entry e) + length (concat (map flatten_entry es))" by linarith
  then show ?case by simp
qed simp

lemma parse_flatten:
  assumes memory: "\<forall>n \<le> length fes. reserve (of_nat n)"
  shows "fits d g \<Longrightarrow> def_ok d \<Longrightarrow> follows d rest \<Longrightarrow> list_all (entry_ok buffer) fes \<Longrightarrow>
   entry_pairs buffer fes = pre @ flatten_group g @ rest \<Longrightarrow>
   parse_group reserve d buffer fes (length pre) = Some (Some (g, length pre + length (flatten_group g)))"
proof (induction d arbitrary: g pre rest)
  case (GroupDef ct delim members nested)
  obtain n es where g: "g = RepeatingGroup ct n es" "n = length es" "n * 48 < 2 ^ 63"
    using GroupDef.prems(1) by (cases g) auto
  let ?ps = "map (\<lambda>nd. (gd_count_tag nd, \<lambda>idx. parse_group reserve nd buffer fes idx)) nested"
  let ?T = "\<lambda>tag. tag = delim \<or> tag \<in> gd_count_tag ` set nested \<or> alien tag (GroupDef ct delim members nested)"
  note ok = GroupDef.prems(4)
  have "entry_pairs buffer fes = pre @ (ct, dec n) # (concat (map flatten_entry es) @ rest)"
    using GroupDef.prems(5) g by simp
  note c = entry_at [OF ok this]
  have n: "unat (of_nat n :: u64) = n" using g(3) by (simp add: word_norm)
  have "list_all (\<lambda>e. ge_fields e \<noteq> []) es" using GroupDef.prems(1) g(1) by (auto simp: list_all_iff)
  then have "n \<le> length fes"
    using entries_le_fields [of es] pairs_end [OF GroupDef.prems(5)] g(1,2) by simp
  with memory have res: "reserve (of_nat n)" by blast
  have z: "(of_nat n :: u64) = 0 \<longleftrightarrow> n = 0" using n by (auto simp: word_unat_eq_iff)
  have cnt: "parse_usize_from_buf buffer (fes ! length pre) = Some (Some (of_nat n))"
    using c(3) by (simp add: parse_usize_from_buf_def digit_loop_dec)
  have alien_T: "alien tag nd" if "?T tag" "nd \<in> set nested" for tag nd
    using that GroupDef.prems(2) by (auto simp: list_all_iff)
  have "entries_loop (length es) buffer fes delim members ?ps (length (pre @ [(ct, dec n)])) [] =
      Some ([] @ es, length (pre @ [(ct, dec n)]) + length (concat (map flatten_entry es)))"
  proof (rule entries_layout [OF ok, where T = ?T and rest = rest])
    fix h pre' rest'
    assume h: "h \<in> set (concat (map ge_nested es))" "entry_pairs buffer fes = pre' @ flatten_group h @ rest'" "after ?T rest'"
    then have "h \<in> set (concat (map ge_nested (rg_entries g)))" using g(1) by simp
    from fits_nested [OF GroupDef.prems(1) this] obtain nd where nd: "nd \<in> set nested"
      "find (\<lambda>nd. gd_count_tag nd = rg_count_tag h) nested = Some nd" "fits nd h" "rg_count_tag h = gd_count_tag nd" .
    have "follows nd rest'" using h(3) alien_T [OF _ nd(1)] by (auto simp: follows_def after_def)
    moreover have "def_ok nd" using GroupDef.prems(2) nd(1) by (simp add: list_all_iff)
    ultimately have "parse_group reserve nd buffer fes (length pre') = Some (Some (h, length pre' + length (flatten_group h)))"
      using GroupDef.IH [OF nd(1) nd(3) _ _ ok h(2)] by blast
    then show "\<exists>p. map_of ?ps (rg_count_tag h) = Some p \<and> p (length pre') = Some (Some (h, length pre' + length (flatten_group h)))"
      using nd(2) by (simp add: parsers_map_of)
  next
    fix h
    assume "h \<in> set (concat (map ge_nested es))"
    then have "h \<in> set (concat (map ge_nested (rg_entries g)))" using g(1) by simp
    from fits_nested [OF GroupDef.prems(1) this] obtain nd where nd: "nd \<in> set nested"
      "find (\<lambda>nd. gd_count_tag nd = rg_count_tag h) nested = Some nd" "fits nd h" "rg_count_tag h = gd_count_tag nd" .
    then show "?T (rg_count_tag h) \<and> rg_count_tag h \<noteq> delim"
      using GroupDef.prems(2) by (simp add: list_all_iff)
  next
    show "list_all (\<lambda>e. ge_fields e \<noteq> [] \<and> fst (hd (ge_fields e)) = delim \<and>
        list_all (\<lambda>(t, _). t \<noteq> delim \<and> t \<in> set members \<and> map_of ?ps t = None) (tl (ge_fields e))) es"
      using GroupDef.prems(1) g unfolding parsers_None by (auto simp: list_all_iff)
  next
    show "rest \<noteq> [] \<longrightarrow> fst (hd rest) \<notin> set members \<and> map_of ?ps (fst (hd rest)) = None"
      using GroupDef.prems(3) unfolding parsers_None by (auto simp: follows_def)
  next
    show "after ?T rest" using GroupDef.prems(3) by (auto simp: follows_def after_def)
  qed (use GroupDef.prems(5) g in simp_all)
  then have loop: "entries_loop n buffer fes delim members ?ps (length pre + 1) [] =
      Some (es, length pre + length (flatten_group g))" using g by simp
  show ?case
    using c loop n z g cnt res
    by (cases "n = 0") (simp_all add: parse_group.simps capacity_overflow_def Let_def)
qed

section \<open>Arbitrary fields\<close>

text \<open>What every parsed group looks like.\<close>

fun conforms :: "GroupDef \<Rightarrow> RepeatingGroup \<Rightarrow> bool" where
  "conforms (GroupDef count_tag delim members nested) g \<longleftrightarrow>
     rg_count_tag g = count_tag \<and> rg_count g = length (rg_entries g) \<and>
     list_all (\<lambda>e.
       ge_fields e \<noteq> [] \<and> fst (hd (ge_fields e)) = delim \<and>
       list_all (\<lambda>(t, _). t \<noteq> delim \<and> t \<in> set members) (tl (ge_fields e)) \<and>
       list_all (\<lambda>h. list_ex (\<lambda>nd. conforms nd h) nested) (ge_nested e)) (rg_entries g)"

text \<open>A parser that does not panic, moves forward inside the fields and returns groups with \<open>Q\<close>.\<close>

definition advances :: "FieldEntry list \<Rightarrow> (RepeatingGroup \<Rightarrow> bool) \<Rightarrow> group_parser \<Rightarrow> bool" where
  "advances fes Q p \<longleftrightarrow> (\<forall>idx. \<exists>r. p idx = Some r \<and>
     (\<forall>g j. r = Some (g, j) \<longrightarrow> idx < j \<and> j \<le> length fes \<and> Q g))"

lemma advancesE:
  assumes "advances fes Q p"
  obtains "p idx = Some None" | g j where "p idx = Some (Some (g, j))" "idx < j" "j \<le> length fes" "Q g"
proof -
  obtain r where r: "p idx = Some r" "\<forall>g j. r = Some (g, j) \<longrightarrow> idx < j \<and> j \<le> length fes \<and> Q g"
    using assms unfolding advances_def by blast
  show ?thesis
  proof (cases r)
    case None
    then show ?thesis using that(1) r(1) by simp
  next
    case (Some x)
    obtain g j where "x = (g, j)" by (cases x)
    then show ?thesis using that(2) [of g j] r Some by simp
  qed
qed

text \<open>
  The three ways an iteration of the field loop goes: it stops, it takes a nested group, or it
  takes a member field.
\<close>

lemma fields_loop_cases:
  assumes "list_all (entry_ok buffer) fes" "\<And>t p. (t, p) \<in> set parsers \<Longrightarrow> advances fes Q p"
  obtains
    "\<And>k fs nested. fields_loop k buffer fes delim members parsers idx fs nested = Some (fs, nested, idx)"
  | g j where "idx < length fes" "idx < j" "j \<le> length fes" "Q g"
      "\<And>k fs nested. fields_loop (Suc k) buffer fes delim members parsers idx fs nested =
         fields_loop k buffer fes delim members parsers j fs (nested @ [g])"
  | t x where "idx < length fes" "t \<noteq> delim" "t \<in> set members"
      "\<And>k fs nested. fields_loop (Suc k) buffer fes delim members parsers idx fs nested =
         fields_loop k buffer fes delim members parsers (idx + 1) (fs @ [(t, x)]) nested"
proof -
  let ?t = "fe_tag (fes ! idx)"
  note ways = that
  have stop: thesis if "\<And>k fs nested. fields_loop (Suc k) buffer fes delim members parsers idx fs nested = Some (fs, nested, idx)"
  proof (rule ways(1))
    fix k fs nested
    show "fields_loop k buffer fes delim members parsers idx fs nested = Some (fs, nested, idx)"
      using \<open>\<And>k fs nested. fields_loop (Suc k) buffer fes delim members parsers idx fs nested = Some (fs, nested, idx)\<close>
      by (cases k) simp_all
  qed
  show ?thesis
  proof (cases "idx < length fes \<and> ?t \<noteq> delim")
    case False
    then show ?thesis by (intro stop) auto
  next
    case True
    have v: "\<exists>x. entry_value buffer (fes ! idx) = Some x"
      using assms(1) True by (auto simp: list_all_length entry_value_ok)
    have member: thesis if "(case map_of parsers ?t of None \<Rightarrow> Some None | Some p \<Rightarrow> p idx) = Some None"
    proof (cases "?t \<in> set members")
      case False
      then show ?thesis using True that by (intro stop) (simp add: Let_def)
    next
      case m: True
      from v obtain x where "entry_value buffer (fes ! idx) = Some x" ..
      then show ?thesis using True that m by (intro ways(3) [of ?t x]) (simp_all add: Let_def)
    qed
    show ?thesis
    proof (cases "map_of parsers ?t")
      case None
      then show ?thesis by (intro member) simp
    next
      case (Some p)
      then have "advances fes Q p" using assms(2) by (auto dest: map_of_SomeD)
      then show ?thesis
      proof (cases rule: advancesE [where idx = idx])
        case 1
        then show ?thesis using Some by (intro member) simp
      next
        case (2 g j)
        then show ?thesis using Some True by (intro ways(2) [of j g]) (simp_all add: Let_def)
      qed
    qed
  qed
qed

text \<open>
  The fuel of the field loop is enough: with at least as much of it as there are fields left, one
  more changes nothing, so the loop ended by one of the code's own exits.
\<close>

lemma fields_loop_fuel:
  assumes "list_all (entry_ok buffer) fes" "\<And>t p. (t, p) \<in> set parsers \<Longrightarrow> advances fes Q p"
  shows "length fes - idx \<le> k \<Longrightarrow>
    fields_loop (Suc k) buffer fes delim members parsers idx fs nested =
    fields_loop k buffer fes delim members parsers idx fs nested"
proof (induction k arbitrary: idx fs nested)
  case 0
  then show ?case by simp
next
  case (Suc k)
  show ?case
  proof (rule fields_loop_cases [OF assms, where delim = delim and members = members and idx = idx])
    fix g j
    assume "idx < length fes" "idx < j" "\<And>k fs nested. fields_loop (Suc k) buffer fes delim members parsers idx fs nested =
       fields_loop k buffer fes delim members parsers j fs (nested @ [g])"
    then show ?thesis using Suc.IH [of j fs "nested @ [g]"] Suc.prems by simp
  next
    fix t x
    assume "idx < length fes" "\<And>k fs nested. fields_loop (Suc k) buffer fes delim members parsers idx fs nested =
       fields_loop k buffer fes delim members parsers (idx + 1) (fs @ [(t, x)]) nested"
    then show ?thesis using Suc.IH [of "idx + 1" "fs @ [(t, x)]" nested] Suc.prems by simp
  qed simp_all
qed

lemma fields_loop_sound:
  assumes "list_all (entry_ok buffer) fes" "\<And>t p. (t, p) \<in> set parsers \<Longrightarrow> advances fes Q p"
  shows "idx \<le> length fes \<Longrightarrow>
    \<exists>fs' ns' j. fields_loop k buffer fes delim members parsers idx fs nested = Some (fs @ fs', nested @ ns', j) \<and>
      idx \<le> j \<and> j \<le> length fes \<and> list_all (\<lambda>(t, _). t \<noteq> delim \<and> t \<in> set members) fs' \<and> list_all Q ns'"
proof (induction k arbitrary: idx fs nested)
  case 0
  then show ?case by simp
next
  case (Suc k)
  show ?case
  proof (rule fields_loop_cases [OF assms, where delim = delim and members = members and idx = idx])
    assume "\<And>k fs nested. fields_loop k buffer fes delim members parsers idx fs nested = Some (fs, nested, idx)"
    then show ?thesis using Suc.prems by simp
  next
    fix g j
    assume a: "idx < j" "j \<le> length fes" "Q g" "\<And>k fs nested. fields_loop (Suc k) buffer fes delim members parsers idx fs nested =
       fields_loop k buffer fes delim members parsers j fs (nested @ [g])"
    from Suc.IH [OF a(2), of fs "nested @ [g]"] obtain fs' ns' i where
      "fields_loop k buffer fes delim members parsers j fs (nested @ [g]) = Some (fs @ fs', (nested @ [g]) @ ns', i)"
      "j \<le> i" "i \<le> length fes" "list_all (\<lambda>(t, _). t \<noteq> delim \<and> t \<in> set members) fs'" "list_all Q ns'" by blast
    then show ?thesis unfolding a(4) using a(1,3) by (intro exI [of _ fs'] exI [of _ "g # ns'"] exI [of _ i]) simp
  next
    fix t x
    assume a: "idx < length fes" "t \<noteq> delim" "t \<in> set members"
      "\<And>k fs nested. fields_loop (Suc k) buffer fes delim members parsers idx fs nested =
       fields_loop k buffer fes delim members parsers (idx + 1) (fs @ [(t, x)]) nested"
    have "idx + 1 \<le> length fes" using a(1) by simp
    from Suc.IH [OF this, of "fs @ [(t, x)]" nested] obtain fs' ns' i where
      "fields_loop k buffer fes delim members parsers (idx + 1) (fs @ [(t, x)]) nested =
         Some ((fs @ [(t, x)]) @ fs', nested @ ns', i)"
      "idx + 1 \<le> i" "i \<le> length fes" "list_all (\<lambda>(t, _). t \<noteq> delim \<and> t \<in> set members) fs'" "list_all Q ns'" by blast
    then show ?thesis unfolding a(4) using a(2,3)
      by (intro exI [of _ "(t, x) # fs'"] exI [of _ ns'] exI [of _ i]) simp
  qed
qed

text \<open>The shape of the entries of a group.\<close>

definition entry_shape :: "u32 \<Rightarrow> u32 list \<Rightarrow> (RepeatingGroup \<Rightarrow> bool) \<Rightarrow> GroupEntry \<Rightarrow> bool" where
  "entry_shape delim members Q e \<longleftrightarrow>
     ge_fields e \<noteq> [] \<and> fst (hd (ge_fields e)) = delim \<and>
     list_all (\<lambda>(t, _). t \<noteq> delim \<and> t \<in> set members) (tl (ge_fields e)) \<and> list_all Q (ge_nested e)"

lemma entries_loop_sound:
  assumes "list_all (entry_ok buffer) fes" "\<And>t p. (t, p) \<in> set parsers \<Longrightarrow> advances fes Q p"
  shows "idx \<le> length fes \<Longrightarrow>
    \<exists>es j. entries_loop k buffer fes delim members parsers idx acc = Some (acc @ es, j) \<and>
      idx \<le> j \<and> j \<le> length fes \<and> list_all (entry_shape delim members Q) es"
proof (induction k arbitrary: idx acc)
  case 0
  then show ?case by simp
next
  case (Suc k)
  show ?case
  proof (cases "idx < length fes \<and> fe_tag (fes ! idx) = delim")
    case False
    then show ?thesis using Suc.prems by auto
  next
    case True
    then obtain x where x: "entry_value buffer (fes ! idx) = Some x"
      using assms(1) by (auto simp: list_all_length entry_value_ok)
    have le: "idx + 1 \<le> length fes" using True by simp
    have "\<exists>fs' ns' j. fields_loop (length fes - (idx + 1)) buffer fes delim members parsers (idx + 1) [(delim, x)] [] =
        Some ([(delim, x)] @ fs', [] @ ns', j) \<and> idx + 1 \<le> j \<and> j \<le> length fes \<and>
        list_all (\<lambda>(t, _). t \<noteq> delim \<and> t \<in> set members) fs' \<and> list_all Q ns'"
      by (rule fields_loop_sound [OF assms(1) _ le]) (erule assms(2))
    then obtain fs' ns' j where f: "fields_loop (length fes - (idx + 1)) buffer fes delim members parsers (idx + 1) [(delim, x)] [] =
        Some ((delim, x) # fs', ns', j)" "idx + 1 \<le> j" "j \<le> length fes"
      "list_all (\<lambda>(t, _). t \<noteq> delim \<and> t \<in> set members) fs'" "list_all Q ns'" by auto
    let ?e = "GroupEntry ((delim, x) # fs') ns'"
    obtain es i where "entries_loop k buffer fes delim members parsers j (acc @ [?e]) = Some ((acc @ [?e]) @ es, i)"
      "j \<le> i" "i \<le> length fes" "list_all (entry_shape delim members Q) es"
      using Suc.IH [OF f(3), of "acc @ [?e]"] by blast
    moreover have "entry_shape delim members Q ?e" using f(4,5) by (simp add: entry_shape_def)
    ultimately show ?thesis using True x f(1,2) by (intro exI [of _ "?e # es"] exI [of _ i]) simp
  qed
qed

text \<open>
  The fields that may be read as a count are those with a count tag of the definition or of a
  definition nested in it. The counts they state can be reserved.
\<close>

fun count_tags :: "GroupDef \<Rightarrow> u32 set" where
  "count_tags (GroupDef count_tag delim members nested) = insert count_tag (\<Union>nd \<in> set nested. count_tags nd)"

definition counts_fit :: "(u64 \<Rightarrow> bool) \<Rightarrow> GroupDef \<Rightarrow> bytes \<Rightarrow> FieldEntry list \<Rightarrow> bool" where
  "counts_fit reserve d buffer fes \<longleftrightarrow>
     (\<forall>e \<in> set fes. \<forall>c. fe_tag e \<in> count_tags d \<and> parse_usize_from_buf buffer e = Some (Some c) \<longrightarrow>
        c = 0 \<or> \<not> capacity_overflow c \<and> reserve c)"

lemma parse_usize_total: "entry_ok buffer e \<Longrightarrow> parse_usize_from_buf buffer e \<noteq> None"
  by (simp add: parse_usize_from_buf_def entry_value_ok)

lemma parse_group_advances:
  assumes "list_all (entry_ok buffer) fes"
  shows "counts_fit reserve d buffer fes \<Longrightarrow> advances fes (conforms d) (\<lambda>idx. parse_group reserve d buffer fes idx)"
proof (induction d)
  case (GroupDef ct delim members nested)
  let ?ps = "map (\<lambda>nd. (gd_count_tag nd, \<lambda>idx. parse_group reserve nd buffer fes idx)) nested"
  let ?Q = "\<lambda>h. list_ex (\<lambda>nd. conforms nd h) nested"
  have ps: "\<And>t p. (t, p) \<in> set ?ps \<Longrightarrow> advances fes ?Q p"
  proof -
    fix t p assume "(t, p) \<in> set ?ps"
    then obtain nd where nd: "nd \<in> set nested" "p = (\<lambda>idx. parse_group reserve nd buffer fes idx)" by auto
    then have "counts_fit reserve nd buffer fes" using GroupDef.prems by (auto simp: counts_fit_def)
    from GroupDef.IH [OF nd(1) this] show "advances fes ?Q p" using nd by (fastforce simp: advances_def list_ex_iff)
  qed
  show ?case
    unfolding advances_def
  proof
    fix idx
    let ?p = "parse_group reserve (GroupDef ct delim members nested) buffer fes idx"
    show "\<exists>r. ?p = Some r \<and> (\<forall>g j. r = Some (g, j) \<longrightarrow> idx < j \<and> j \<le> length fes \<and> conforms (GroupDef ct delim members nested) g)"
    proof (cases "idx < length fes \<and> fe_tag (fes ! idx) = ct")
      case False
      then show ?thesis by (auto simp: parse_group.simps)
    next
      case True
      then have e: "entry_ok buffer (fes ! idx)" "fes ! idx \<in> set fes" using assms by (simp_all add: list_all_length)
      then obtain r where r: "parse_usize_from_buf buffer (fes ! idx) = Some r" using parse_usize_total by blast
      show ?thesis
      proof (cases r)
        case None
        then show ?thesis using True r by (simp add: parse_group.simps)
      next
        case 2: (Some c)
        have fit: "c = 0 \<or> \<not> capacity_overflow c \<and> reserve c"
          using GroupDef.prems e(2) True r 2 by (auto simp: counts_fit_def)
        show ?thesis
        proof (cases "c = 0")
          case True
          then show ?thesis using r 2 \<open>idx < length fes \<and> fe_tag (fes ! idx) = ct\<close> by (simp add: parse_group.simps)
        next
          case False
          have le: "idx + 1 \<le> length fes" using True by simp
          have "\<exists>es j. entries_loop (unat c) buffer fes delim members ?ps (idx + 1) [] = Some ([] @ es, j) \<and>
              idx + 1 \<le> j \<and> j \<le> length fes \<and> list_all (entry_shape delim members ?Q) es"
            by (rule entries_loop_sound [OF assms(1) _ le]) (erule ps)
          then obtain es j where l: "entries_loop (unat c) buffer fes delim members ?ps (idx + 1) [] = Some (es, j)"
            "idx + 1 \<le> j" "j \<le> length fes" "list_all (entry_shape delim members ?Q) es" by auto
          then have "?p = Some (Some (RepeatingGroup ct (length es) es, j))"
            using r 2 fit True False by (simp add: parse_group.simps)
          moreover have "conforms (GroupDef ct delim members nested) (RepeatingGroup ct (length es) es)"
            using l(4) by (simp add: entry_shape_def [abs_def])
          ultimately show ?thesis using l(2,3) by simp
        qed
      qed
    qed
  qed
qed

section \<open>Properties of repeating groups\<close>

text \<open>
  C38. Groups, sent and parsed. The fields of an instance of a group definition, wherever they stand
  among the fields of a message and with any nesting, are parsed back to that instance, and the
  returned index is that of the first field behind it. (The definition does not let a nested group
  swallow what follows it in its entry, the field behind the group belongs to none of them, and there is
  memory for as many entries as the message has fields.)
\<close>

theorem group_roundtrip:
  assumes "fits d g" "def_ok d" "follows d rest" "view_ok v"
    and "field_pairs v = pre @ flatten_group g @ rest" "\<forall>n \<le> field_count v. reserve (of_nat n)"
  shows "parse_group reserve d (mv_buffer v) (mv_fields v) (length pre) =
    Some (Some (g, length pre + length (flatten_group g)))"
  by (rule parse_flatten) (use assms in \<open>simp_all add: view_ok_def field_pairs_entry field_count_def\<close>)

definition sample_group :: RepeatingGroup where
  "sample_group =
     RepeatingGroup 268 2
       [GroupEntry [(269, asc ''0''), (270, asc ''9'')] [RepeatingGroup 555 1 [GroupEntry [(600, asc ''A''), (624, asc ''1'')] []]],
        GroupEntry [(269, asc ''1'')] []]"

definition sample_view :: MessageView where
  "sample_view =
     \<lparr>mv_buffer = asc ''X20911A1'',
      mv_fields = map (\<lambda>(t, off). \<lparr>fe_tag = t, fe_offset = off, fe_length = 1\<rparr>)
        [(35, 0), (268, 1), (269, 2), (270, 3), (555, 4), (600, 6), (624, 5), (269, 5), (10, 0)],
      mv_msg_type_idx = 0, mv_checksum_valid = True\<rparr>"

theorem group_roundtrip_witness:
  "parse_group (\<lambda>n. n \<le> 100) (with_nested md_entries_group legs_group) (mv_buffer sample_view) (mv_fields sample_view) 1 =
     Some (Some (sample_group, 8))"
proof -
  have "field_pairs sample_view = [(35, asc ''X'')] @ flatten_group sample_group @ [(10, asc ''X'')]"
    by (simp add: sample_view_def sample_group_def field_pairs_def asc_def dec_small digit_def drop_Cons' take_Cons')
  moreover have "fits (with_nested md_entries_group legs_group) sample_group"
    "def_ok (with_nested md_entries_group legs_group)" "follows (with_nested md_entries_group legs_group) [(10, asc ''X'')]"
    by (simp_all add: sample_group_def with_nested_def md_entries_group_def legs_group_def new_group_def_def follows_def)
  moreover have "view_ok sample_view"
    by (simp add: sample_view_def view_ok_def field_count_def entry_ok_def MAX_FIELDS_def asc_def)
  ultimately show ?thesis
    using group_roundtrip [of "with_nested md_entries_group legs_group" sample_group "[(10, asc ''X'')]" sample_view
        "[(35, asc ''X'')]" "\<lambda>n. n \<le> 100"]
    by (simp add: sample_group_def sample_view_def field_count_def word_le_nat_alt unat_of_nat_small)
qed

text \<open>
  C39. Groups in arbitrary messages. On the fields of any well-formed view, when the counts stated by the
  fields that carry a count tag of the definition can be reserved (the only thing that can panic or abort
  here), parsing a group at any index does not panic; a group that it returns ends behind its start and
  inside the fields, its count is the number of its entries, every entry starts with the delimiter and
  holds only member fields and instances of nested definitions.
\<close>

theorem group_parse_sound:
  assumes "view_ok v" "counts_fit reserve d (mv_buffer v) (mv_fields v)"
  shows "\<exists>r. parse_group reserve d (mv_buffer v) (mv_fields v) start = Some r \<and>
    (\<forall>g j. r = Some (g, j) \<longrightarrow> start < j \<and> j \<le> field_count v \<and> conforms d g)"
proof -
  have "advances (mv_fields v) (conforms d) (\<lambda>idx. parse_group reserve d (mv_buffer v) (mv_fields v) idx)"
    by (rule parse_group_advances) (use assms in \<open>simp_all add: view_ok_def\<close>)
  then show ?thesis by (simp add: advances_def field_count_def)
qed

theorem group_parse_sound_witness:
  "\<exists>r. parse_group (\<lambda>n. n \<le> 9) md_entries_group (mv_buffer sample_view) (mv_fields sample_view) 1 = Some r"
proof -
  have "view_ok sample_view"
    by (simp add: sample_view_def view_ok_def field_count_def entry_ok_def MAX_FIELDS_def asc_def)
  moreover have "counts_fit (\<lambda>n. n \<le> 9) md_entries_group (mv_buffer sample_view) (mv_fields sample_view)"
    by (simp add: counts_fit_def md_entries_group_def new_group_def_def sample_view_def parse_usize_from_buf_def
        entry_value_def slice_def asc_def capacity_overflow_def is_digit_def)
  ultimately show ?thesis using group_parse_sound [of sample_view "\<lambda>n. n \<le> 9" md_entries_group 1] by blast
qed

text \<open>
  The condition is necessary: a stated count that cannot be reserved ends the process, and 18 digits
  are always enough for that, however much memory there is.
\<close>

lemma unreservable_count_panics:
  assumes "start < length fes" "fe_tag (fes ! start) = gd_count_tag d"
    and "parse_usize_from_buf buffer (fes ! start) = Some (Some c)" "c \<noteq> 0" "capacity_overflow c \<or> \<not> reserve c"
  shows "parse_group reserve d buffer fes start = None"
  using assms by (cases d) (auto simp: parse_group.simps)

lemma huge_count_panics:
  "parse_group reserve md_entries_group (asc ''999999999999999999'') [\<lparr>fe_tag = 268, fe_offset = 0, fe_length = 18\<rparr>] 0 = None"
  by (simp add: parse_group.simps md_entries_group_def new_group_def_def parse_usize_from_buf_def entry_value_def
      slice_def asc_def capacity_overflow_def take_Cons')

end
