(* ===== verification/Simd.thy ===== *)
theory Simd
  imports Checksum
begin

unbundle bit_operations_syntax

text \<open>
  \<open>src/src/simd.rs\<close>: delimiter scanning with the SSE2 and NEON intrinsics of \<open>std::arch\<close> and the scalar
  fallback. A 128-bit vector is the list of its 16 bytes, in memory order; each intrinsic the code
  calls is its documented lane-wise operation. Loads stay inside the buffer by the loops' tests.
\<close>

section \<open>Intrinsics\<close>

definition load16 :: "bytes \<Rightarrow> nat \<Rightarrow> bytes" where
  "load16 buf off = take 16 (drop off buf)"

text \<open>\<open>_mm_cmpeq_epi8\<close> and \<open>vceqq_u8\<close> against a broadcast byte.\<close>

definition cmpeq :: "bytes \<Rightarrow> byte \<Rightarrow> bytes" where
  "cmpeq chunk needle = map (\<lambda>b. if b = needle then 0xFF else 0) chunk"

text \<open>\<open>_mm_movemask_epi8\<close>: the top bits of the lanes.\<close>

definition movemask :: "bytes \<Rightarrow> u32" where
  "movemask lanes = horner_sum of_bool 2 (map (\<lambda>b. bit b 7) lanes)"

text \<open>One 64-bit lane of the reinterpreted vector.\<close>

definition lane_u64 :: "bytes \<Rightarrow> nat \<Rightarrow> u64" where
  "lane_u64 v i = of_nat (le_dec (take 8 (drop (8 * i) v)))"

text \<open>\<open>vshrq_n_u8\<close> by 7, and the horizontal sum \<open>vaddvq_u8\<close> in eight bits.\<close>

definition shr7 :: "bytes \<Rightarrow> bytes" where
  "shr7 v = map (drop_bit 7) v"

definition addv :: "bytes \<Rightarrow> byte" where
  "addv v = sum_list v"

definition trailing_zeros :: "'a::len word \<Rightarrow> nat" where
  "trailing_zeros w = length (takeWhile (\<lambda>i. \<not> bit w i) [0..<LENGTH('a)])"

definition count_ones :: "'a::len word \<Rightarrow> nat" where
  "count_ones w = length (filter (bit w) [0..<LENGTH('a)])"

section \<open>Scanning\<close>

definition find_byte_scalar :: "bytes \<Rightarrow> byte \<Rightarrow> nat option" where
  "find_byte_scalar buf needle = position (\<lambda>b. b = needle) buf"

definition count_byte_scalar :: "bytes \<Rightarrow> byte \<Rightarrow> nat" where
  "count_byte_scalar buf needle = length (filter (\<lambda>b. b = needle) buf)"

text \<open>The scalar tails, \<open>for i in offset..len\<close>.\<close>

definition find_tail :: "bytes \<Rightarrow> byte \<Rightarrow> nat \<Rightarrow> nat option" where
  "find_tail buf needle offset = find (\<lambda>i. buf ! i = needle) [offset..<length buf]"

definition count_tail :: "bytes \<Rightarrow> byte \<Rightarrow> nat \<Rightarrow> nat \<Rightarrow> nat" where
  "count_tail buf needle offset tot =
     foldl (\<lambda>t i. if buf ! i = needle then t + 1 else t) tot [offset..<length buf]"

function find_loop_sse2 :: "bytes \<Rightarrow> byte \<Rightarrow> nat \<Rightarrow> nat option" where
  "find_loop_sse2 buf needle offset =
     (if offset + 16 \<le> length buf then
        let mask = movemask (cmpeq (load16 buf offset) needle) in
        if mask \<noteq> 0 then Some (offset + trailing_zeros mask) else find_loop_sse2 buf needle (offset + 16)
      else find_tail buf needle offset)"
  by pat_completeness auto
termination
  by (relation "measure (\<lambda>(buf, needle, offset). length buf - offset)") auto

function count_loop_sse2 :: "bytes \<Rightarrow> byte \<Rightarrow> nat \<Rightarrow> nat \<Rightarrow> nat" where
  "count_loop_sse2 buf needle offset tot =
     (if offset + 16 \<le> length buf then
        count_loop_sse2 buf needle (offset + 16)
          (tot + count_ones (movemask (cmpeq (load16 buf offset) needle)))
      else count_tail buf needle offset tot)"
  by pat_completeness auto
termination
  by (relation "measure (\<lambda>(buf, needle, offset, tot). length buf - offset)") auto

function find_loop_neon :: "bytes \<Rightarrow> byte \<Rightarrow> nat \<Rightarrow> nat option" where
  "find_loop_neon buf needle offset =
     (if offset + 16 \<le> length buf then
        let cmp = cmpeq (load16 buf offset) needle; lo = lane_u64 cmp 0; hi = lane_u64 cmp 1 in
        if lo \<noteq> 0 then Some (offset + trailing_zeros lo div 8)
        else if hi \<noteq> 0 then Some (offset + 8 + trailing_zeros hi div 8)
        else find_loop_neon buf needle (offset + 16)
      else find_tail buf needle offset)"
  by pat_completeness auto
termination
  by (relation "measure (\<lambda>(buf, needle, offset). length buf - offset)") auto

function count_loop_neon :: "bytes \<Rightarrow> byte \<Rightarrow> nat \<Rightarrow> nat \<Rightarrow> nat" where
  "count_loop_neon buf needle offset tot =
     (if offset + 16 \<le> length buf then
        count_loop_neon buf needle (offset + 16)
          (tot + unat (addv (shr7 (cmpeq (load16 buf offset) needle))))
      else count_tail buf needle offset tot)"
  by pat_completeness auto
termination
  by (relation "measure (\<lambda>(buf, needle, offset, tot). length buf - offset)") auto

declare find_loop_sse2.simps [simp del] count_loop_sse2.simps [simp del]
  find_loop_neon.simps [simp del] count_loop_neon.simps [simp del]

definition find_byte_sse2 :: "bytes \<Rightarrow> byte \<Rightarrow> nat option" where
  "find_byte_sse2 buf needle = find_loop_sse2 buf needle 0"

definition count_byte_sse2 :: "bytes \<Rightarrow> byte \<Rightarrow> nat" where
  "count_byte_sse2 buf needle = count_loop_sse2 buf needle 0 0"

definition find_byte_neon :: "bytes \<Rightarrow> byte \<Rightarrow> nat option" where
  "find_byte_neon buf needle = find_loop_neon buf needle 0"

definition count_byte_neon :: "bytes \<Rightarrow> byte \<Rightarrow> nat" where
  "count_byte_neon buf needle = count_loop_neon buf needle 0 0"

text \<open>The targets of the conditional compilation, with the result of the feature detection.\<close>

datatype Target = Aarch64 bool | X86_64 bool | OtherTarget

fun find_byte :: "Target \<Rightarrow> bytes \<Rightarrow> byte \<Rightarrow> nat option" where
  "find_byte (Aarch64 neon) buf needle = (if neon then find_byte_neon buf needle else find_byte_scalar buf needle)"
| "find_byte (X86_64 sse2) buf needle = (if sse2 then find_byte_sse2 buf needle else find_byte_scalar buf needle)"
| "find_byte OtherTarget buf needle = find_byte_scalar buf needle"

fun count_byte :: "Target \<Rightarrow> bytes \<Rightarrow> byte \<Rightarrow> nat" where
  "count_byte (Aarch64 neon) buf needle = (if neon then count_byte_neon buf needle else count_byte_scalar buf needle)"
| "count_byte (X86_64 sse2) buf needle = (if sse2 then count_byte_sse2 buf needle else count_byte_scalar buf needle)"
| "count_byte OtherTarget buf needle = count_byte_scalar buf needle"

definition find_soh :: "Target \<Rightarrow> bytes \<Rightarrow> nat option" where
  "find_soh t buf = find_byte t buf SOH"

definition count_fields :: "Target \<Rightarrow> bytes \<Rightarrow> nat" where
  "count_fields t buf = count_byte t buf SOH"

definition find_equals :: "Target \<Rightarrow> bytes \<Rightarrow> nat option" where
  "find_equals t buf = find_byte t buf EQUALS"

section \<open>Masks and lanes\<close>

lemma bit_FF: "k < 8 \<Longrightarrow> bit (0xFF :: byte) k"
proof -
  assume "k < 8"
  moreover have "(0xFF :: byte) = - 1" by simp
  ultimately show ?thesis by (simp only: bit_minus_1_iff possible_bit_word) simp
qed

lemma bit_movemask:
  "length v \<le> 32 \<Longrightarrow> bit (movemask (cmpeq v n)) i \<longleftrightarrow> i < length v \<and> v ! i = n"
  by (auto simp: movemask_def cmpeq_def bit_horner_sum_bit_iff bit_FF split: if_splits)

lemma trailing_zeros_eq:
  fixes w :: "'a::len word"
  assumes "bit w i" "\<And>j. j < i \<Longrightarrow> \<not> bit w j"
  shows "trailing_zeros w = i"
proof -
  have "i < LENGTH('a)" using assms(1) by (rule bit_imp_le_length)
  then have "takeWhile (\<lambda>i. \<not> bit w i) [0..<LENGTH('a)] = take i [0..<LENGTH('a)]"
    using assms by (intro takeWhile_eq_take_P_nth) simp_all
  then show ?thesis using \<open>i < LENGTH('a)\<close> by (simp add: trailing_zeros_def)
qed

lemma bit_byte_shift:
  fixes x y :: nat
  assumes "x < 256"
  shows "k < 8 \<Longrightarrow> bit (x + 256 * y) k = bit x k" "bit (x + 256 * y) (8 + k) = bit y k"
proof -
  have "(x + 256 * y) div 2 ^ (8 + k) = y div 2 ^ k"
    using assms by (simp add: power_add div_mult2_eq)
  then show "bit (x + 256 * y) (8 + k) = bit y k" by (simp add: bit_iff_odd)
next
  assume k: "k < 8"
  have "(256::nat) = 2 ^ k * 2 ^ (8 - k)" using k by (simp flip: power_add)
  then have eq: "256 * y = 2 ^ k * (2 ^ (8 - k) * y)" by (simp only: mult.assoc)
  have "(x + 256 * y) div 2 ^ k = x div 2 ^ k + 2 ^ (8 - k) * y" unfolding eq by simp
  moreover have "even (2 ^ (8 - k) * y)" using k by simp
  ultimately show "bit (x + 256 * y) k = bit x k" by (simp add: bit_iff_odd)
qed

lemma bit_le_dec:
  "k < 8 \<Longrightarrow> bit (le_dec bs) (8 * i + k) \<longleftrightarrow> i < length bs \<and> bit (bs ! i) k"
proof (induction bs arbitrary: i)
  case Nil
  then show ?case by simp
next
  case (Cons b bs)
  have u: "unat b < 256" using unsigned_less [of b] by simp
  show ?case
  proof (cases i)
    case 0
    then show ?thesis using bit_byte_shift(1) [OF u Cons.prems] by (simp add: bit_unsigned_iff)
  next
    case (Suc m)
    have "8 * i + k = 8 + (8 * m + k)" using Suc by simp
    then show ?thesis using bit_byte_shift(2) [OF u] Cons.IH [OF Cons.prems, of m] Suc by (simp add: add.assoc)
  qed
qed

lemma bit_lane:
  assumes "length v = 8" "j < 64"
  shows "bit (of_nat (le_dec (cmpeq v n)) :: u64) j \<longleftrightarrow> v ! (j div 8) = n"
proof -
  have "bit (le_dec (cmpeq v n)) (8 * (j div 8) + j mod 8) \<longleftrightarrow>
      j div 8 < length (cmpeq v n) \<and> bit (cmpeq v n ! (j div 8)) (j mod 8)"
    by (rule bit_le_dec) simp
  moreover have "j div 8 < 8" using assms(2) by simp
  moreover have "bit (0xFF :: byte) (j mod 8)"
    by (rule bit_FF) simp
  ultimately show ?thesis using assms by (simp add: cmpeq_def bit_of_nat_iff)
qed

section \<open>One block of sixteen bytes\<close>

lemma position_block_sse2:
  assumes "length v = 16"
  shows "position (\<lambda>b. b = n) v =
    (if movemask (cmpeq v n) \<noteq> 0 then Some (trailing_zeros (movemask (cmpeq v n))) else None)"
proof -
  let ?w = "movemask (cmpeq v n)"
  have b: "bit ?w i \<longleftrightarrow> i < 16 \<and> v ! i = n" for i using bit_movemask [of v n i] assms by simp
  show ?thesis
  proof (cases "position (\<lambda>b. b = n) v")
    case None
    then have "\<not> bit ?w i" for i using b [of i] assms by (auto simp: position_None)
    then have "?w = 0" by (intro bit_eqI) simp
    then show ?thesis using None by simp
  next
    case (Some i)
    have i: "i < 16" "v ! i = n" using position_Some [OF Some] assms by simp_all
    have "\<not> bit ?w j" if "j < i" for j using position_least [OF Some that] b [of j] by simp
    then have "trailing_zeros ?w = i" using b [of i] i by (intro trailing_zeros_eq) auto
    moreover have "?w \<noteq> 0" using b [of i] i by auto
    ultimately show ?thesis using Some by simp
  qed
qed

lemma position_lane:
  assumes "length v = 8"
  shows "position (\<lambda>b. b = n) v =
    (let w = of_nat (le_dec (cmpeq v n)) :: u64 in if w \<noteq> 0 then Some (trailing_zeros w div 8) else None)"
proof -
  let ?w = "of_nat (le_dec (cmpeq v n)) :: u64"
  have b: "bit ?w j \<longleftrightarrow> j < 64 \<and> v ! (j div 8) = n" for j
    using bit_lane [OF assms, of j n] bit_imp_le_length [of ?w j] by auto
  show ?thesis
  proof (cases "position (\<lambda>b. b = n) v")
    case None
    then have "v ! i \<noteq> n" if "i < 8" for i using that assms by (auto simp: position_None)
    then have "\<not> bit ?w j" for j using b [of j] by auto
    then have "?w = 0" by (intro bit_eqI) simp
    then show ?thesis using None by simp
  next
    case (Some i)
    have i: "i < 8" "v ! i = n" using position_Some [OF Some] assms by simp_all
    have "trailing_zeros ?w = 8 * i"
    proof (rule trailing_zeros_eq)
      show "bit ?w (8 * i)" using b [of "8 * i"] i by simp
      show "\<not> bit ?w j" if "j < 8 * i" for j
        using position_least [OF Some, of "j div 8"] b [of j] that by (auto simp: less_mult_imp_div_less mult.commute)
    qed
    moreover have "?w \<noteq> 0" using b [of "8 * i"] i by auto
    ultimately show ?thesis using Some by simp
  qed
qed

lemma count_block_sse2:
  assumes "length v = 16"
  shows "count_ones (movemask (cmpeq v n)) = length (filter (\<lambda>b. b = n) v)"
proof -
  have b: "bit (movemask (cmpeq v n)) i \<longleftrightarrow> i < 16 \<and> v ! i = n" for i using bit_movemask [of v n i] assms by simp
  have "count_ones (movemask (cmpeq v n)) = card {i. i < 32 \<and> i < 16 \<and> v ! i = n}"
    by (auto simp: count_ones_def length_filter_conv_card b intro!: arg_cong [of _ _ card])
  also have "{i. i < 32 \<and> i < 16 \<and> v ! i = n} = {i. i < length v \<and> v ! i = n}" using assms by auto
  finally show ?thesis by (simp add: length_filter_conv_card)
qed

lemma shr7_cmpeq: "shr7 (cmpeq v n) = map (\<lambda>b. if b = n then 1 else 0) v"
  by (auto simp: shr7_def cmpeq_def)

lemma count_block_neon:
  assumes "length v \<le> 255"
  shows "unat (addv (shr7 (cmpeq v n))) = length (filter (\<lambda>b. b = n) v)"
proof -
  have "addv (shr7 (cmpeq v n)) = of_nat (length (filter (\<lambda>b. b = n) v))"
    unfolding addv_def shr7_cmpeq by (induction v) simp_all
  moreover have "length (filter (\<lambda>b. b = n) v) < 2 ^ 8"
    by (rule le_less_trans [OF length_filter_le]) (use assms in simp)
  ultimately show ?thesis by (simp add: word_norm)
qed

section \<open>The scanners\<close>

lemma length_cmpeq [simp]: "length (cmpeq v n) = length v"
  by (simp add: cmpeq_def)

lemma drop_ConsD: "drop off buf = x # xs \<Longrightarrow> buf ! off = x \<and> drop (Suc off) buf = xs"
  by (simp add: nth_via_drop drop_Suc flip: tl_drop)

lemma tails:
  "find_tail buf n off = map_option ((+) off) (position (\<lambda>b. b = n) (drop off buf))"
  "count_tail buf n off tot = tot + length (filter (\<lambda>b. b = n) (drop off buf))"
proof -
  have "find (\<lambda>i. buf ! i = n) [off..<off + length xs] = map_option ((+) off) (position (\<lambda>b. b = n) xs)"
    if "drop off buf = xs" for off xs
    using that
  proof (induction xs arbitrary: off)
    case (Cons x xs)
    then have d: "buf ! off = x" "drop (Suc off) buf = xs" by (auto dest: drop_ConsD)
    have "[off..<off + length (x # xs)] = off # [Suc off..<Suc off + length xs]" by (subst upt_conv_Cons) simp_all
    then show ?case using d Cons.IH [OF d(2)] by (cases "position (\<lambda>b. b = n) xs") simp_all
  qed simp
  from this [OF refl, of off] show "find_tail buf n off = map_option ((+) off) (position (\<lambda>b. b = n) (drop off buf))"
    by (cases "off \<le> length buf") (simp_all add: find_tail_def)
  have "foldl (\<lambda>t i. if buf ! i = n then t + 1 else t) tot [off..<off + length xs] = tot + length (filter (\<lambda>b. b = n) xs)"
    if "drop off buf = xs" for off xs and tot :: nat
    using that
  proof (induction xs arbitrary: off tot)
    case (Cons x xs)
    then have d: "buf ! off = x" "drop (Suc off) buf = xs" by (auto dest: drop_ConsD)
    have "[off..<off + length (x # xs)] = off # [Suc off..<Suc off + length xs]" by (subst upt_conv_Cons) simp_all
    then show ?case using d Cons.IH [OF d(2)] by simp
  qed simp
  from this [OF refl, of tot off] show "count_tail buf n off tot = tot + length (filter (\<lambda>b. b = n) (drop off buf))"
    by (cases "off \<le> length buf") (simp_all add: count_tail_def)
qed

text \<open>The rest of the buffer is the next block and what follows it.\<close>

lemma block_split: "off + 16 \<le> length buf \<Longrightarrow> drop off buf = load16 buf off @ drop (off + 16) buf"
  using append_take_drop_id [of 16 "drop off buf"] by (simp add: load16_def add.commute)

lemma shifted: "map_option ((+) (a + b)) x = map_option (\<lambda>y. a + (b + y)) (x :: nat option)"
  by (cases x) simp_all

lemma length_load16: "off + 16 \<le> length buf \<Longrightarrow> length (load16 buf off) = 16"
  by (simp add: load16_def)

lemma find_loop_sse2_eq:
  "find_loop_sse2 buf n off = map_option ((+) off) (position (\<lambda>b. b = n) (drop off buf))"
proof (induction buf n off rule: find_loop_sse2.induct)
  case (1 buf n off)
  show ?case
  proof (cases "off + 16 \<le> length buf")
    case True
    note l = length_load16 [OF True]
    have "find_loop_sse2 buf n (off + 16) = map_option ((+) (off + 16)) (position (\<lambda>b. b = n) (drop (off + 16) buf))"
      if "movemask (cmpeq (load16 buf off) n) = 0" using "1.IH" [OF True refl] that by simp
    then show ?thesis
      using True l position_block_sse2 [OF l, of n]
      by (simp add: find_loop_sse2.simps [of buf n off] Let_def block_split position_append option.map_comp comp_def add.assoc shifted)
  next
    case False
    then show ?thesis by (simp add: find_loop_sse2.simps [of buf n off] tails)
  qed
qed

lemma find_loop_neon_eq:
  "find_loop_neon buf n off = map_option ((+) off) (position (\<lambda>b. b = n) (drop off buf))"
proof (induction buf n off rule: find_loop_neon.induct)
  case (1 buf n off)
  show ?case
  proof (cases "off + 16 \<le> length buf")
    case True
    note l = length_load16 [OF True]
    let ?v = "load16 buf off"
    let ?lo = "lane_u64 (cmpeq ?v n) 0" and ?hi = "lane_u64 (cmpeq ?v n) 1"
    have cm: "take 8 (cmpeq ?v n) = cmpeq (take 8 ?v) n" "take 8 (drop 8 (cmpeq ?v n)) = cmpeq (drop 8 ?v) n"
      using l by (simp_all add: cmpeq_def take_map drop_map)
    have lo: "position (\<lambda>b. b = n) (take 8 ?v) = (if ?lo \<noteq> 0 then Some (trailing_zeros ?lo div 8) else None)"
      and hi: "position (\<lambda>b. b = n) (drop 8 ?v) = (if ?hi \<noteq> 0 then Some (trailing_zeros ?hi div 8) else None)"
      using position_lane [of "take 8 ?v" n] position_lane [of "drop 8 ?v" n] l by (simp_all add: lane_u64_def cm Let_def)
    have "?v = take 8 ?v @ drop 8 ?v" by simp
    then have v: "position (\<lambda>b. b = n) ?v =
        (if ?lo \<noteq> 0 then Some (trailing_zeros ?lo div 8)
         else if ?hi \<noteq> 0 then Some (8 + trailing_zeros ?hi div 8) else None)"
      using position_append [of "\<lambda>b. b = n" "take 8 ?v" "drop 8 ?v"] lo hi l by simp
    have "find_loop_neon buf n (off + 16) = map_option ((+) (off + 16)) (position (\<lambda>b. b = n) (drop (off + 16) buf))"
      if "?lo = 0" "?hi = 0" using "1.IH" [OF True refl refl refl] that by simp
    then show ?thesis
      using True l v
      by (simp add: find_loop_neon.simps [of buf n off] Let_def block_split position_append option.map_comp comp_def add.assoc shifted)
  next
    case False
    then show ?thesis by (simp add: find_loop_neon.simps [of buf n off] tails)
  qed
qed

lemma count_loop_sse2_eq:
  "count_loop_sse2 buf n off tot = tot + length (filter (\<lambda>b. b = n) (drop off buf))"
proof (induction buf n off tot rule: count_loop_sse2.induct)
  case (1 buf n off tot)
  show ?case
    using "1.IH" count_block_sse2 [OF length_load16, of off buf n]
    by (cases "off + 16 \<le> length buf")
      (simp_all add: count_loop_sse2.simps [of buf n off] tails block_split)
qed

lemma count_loop_neon_eq:
  "count_loop_neon buf n off tot = tot + length (filter (\<lambda>b. b = n) (drop off buf))"
proof (induction buf n off tot rule: count_loop_neon.induct)
  case (1 buf n off tot)
  show ?case
    using "1.IH" count_block_neon [of "load16 buf off" n] length_load16 [of off buf]
    by (cases "off + 16 \<le> length buf")
      (simp_all add: count_loop_neon.simps [of buf n off] tails block_split)
qed

section \<open>Properties of the scanners\<close>

lemma scans:
  "find_byte t buf n = position (\<lambda>b. b = n) buf \<and> count_byte t buf n = length (filter (\<lambda>b. b = n) buf)"
proof -
  have id: "map_option ((+) 0) x = x" for x :: "nat option" by (cases x) simp_all
  show ?thesis
    by (cases t)
      (simp_all add: find_byte_sse2_def find_byte_neon_def find_byte_scalar_def count_byte_sse2_def count_byte_neon_def
        count_byte_scalar_def find_loop_sse2_eq find_loop_neon_eq count_loop_sse2_eq count_loop_neon_eq id)
qed

text \<open>
  C40. The vector code is the scalar code. On every target and whatever the feature detection says,
  finding a byte returns the index of its first occurrence and counting it the number of its
  occurrences, for every buffer and every byte.
\<close>

theorem simd_equivalent:
  "find_byte t buf n = position (\<lambda>b. b = n) buf \<and> count_byte t buf n = length (filter (\<lambda>b. b = n) buf)"
  using scans by blast

end
