(* ===== verification/Dictionary.thy ===== *)
theory Dictionary
  imports Prelude
begin

text \<open>
  \<open>src/src/dictionary.rs\<close>, the built-in field definitions, and \<open>src/src/dict_compiler.rs\<close>, the compiler
  for QuickFIX-style XML dictionaries. A \<open>str\<close> is its UTF-8 bytes, and \<open>find\<close> is the first byte
  offset of a pattern. Every offset the compiler slices at is the start or the end of an ASCII
  pattern it has found, hence a character boundary, so a slice panics only when it is reversed or
  leaves the string. Results are \<^const>\<open>None\<close> for such a panic, and when the allocator cannot serve
  the index of tags: which sizes it can serve is the parameter \<open>memory\<close>.
\<close>

section \<open>Standard fields\<close>

datatype FieldType =
  IntType | Float | Qty | Price | Amt | CharType | StringType | Boolean | Data | UtcTimestamp | UtcTimeOnly
| UtcDateOnly | LocalMktDate | MonthYear | MultipleValueString | Currency | Exchange | Country
| NumInGroup | SeqNum | Length

datatype FieldPresence = Required | Optional

record FieldDef =
  fd_tag :: u32
  fd_name :: bytes
  fd_field_type :: FieldType

definition STANDARD_FIELDS :: "FieldDef list" where
  "STANDARD_FIELDS = map (\<lambda>(t, n, ty). \<lparr>fd_tag = t, fd_name = asc n, fd_field_type = ty\<rparr>)
     [(8, ''BeginString'', StringType), (9, ''BodyLength'', Length), (10, ''CheckSum'', StringType),
      (11, ''ClOrdID'', StringType), (14, ''CumQty'', Qty), (17, ''ExecID'', StringType), (21, ''HandlInst'', CharType),
      (31, ''LastPx'', Price), (32, ''LastQty'', Qty), (34, ''MsgSeqNum'', SeqNum), (35, ''MsgType'', StringType),
      (37, ''OrderID'', StringType), (38, ''OrderQty'', Qty), (39, ''OrdStatus'', CharType), (40, ''OrdType'', CharType),
      (44, ''Price'', Price), (49, ''SenderCompID'', StringType), (52, ''SendingTime'', UtcTimestamp),
      (54, ''Side'', CharType), (55, ''Symbol'', StringType), (56, ''TargetCompID'', StringType),
      (59, ''TimeInForce'', CharType), (60, ''TransactTime'', UtcTimestamp), (98, ''EncryptMethod'', IntType),
      (108, ''HeartBtInt'', IntType), (150, ''ExecType'', CharType), (151, ''LeavesQty'', Qty), (6, ''AvgPx'', Price)]"

definition lookup_standard :: "u32 \<Rightarrow> FieldDef option" where
  "lookup_standard tag = find (\<lambda>f. fd_tag f = tag) STANDARD_FIELDS"

section \<open>Compiled dictionaries\<close>

record CompiledFieldDef =
  cf_tag :: u32
  cf_name :: bytes
  cf_field_type :: bytes
  cf_values :: "(bytes \<times> bytes) list"

datatype MessageCategory = Admin | Application

record CompiledMessageDef =
  cm_msg_type :: bytes
  cm_name :: bytes
  cm_category :: MessageCategory
  cm_required_fields :: "u32 list"
  cm_optional_fields :: "u32 list"

datatype DictError = DictParseError bytes | MissingAttribute bytes | InvalidFormat bytes

definition dict_error_text :: "DictError \<Rightarrow> bytes" where
  "dict_error_text e =
     (case e of DictParseError s \<Rightarrow> asc ''parse error: '' @ s
      | MissingAttribute s \<Rightarrow> asc ''missing attribute: '' @ s
      | InvalidFormat s \<Rightarrow> asc ''invalid format: '' @ s)"

record CompiledDictionary =
  cd_fix_version :: bytes
  cd_fields :: "CompiledFieldDef list"
  cd_messages :: "CompiledMessageDef list"
  cd_tag_index :: "nat option list"

section \<open>Strings\<close>

text \<open>\<open>str::find\<close> with a string pattern.\<close>

fun find_sub :: "bytes \<Rightarrow> bytes \<Rightarrow> nat option" where
  "find_sub pat [] = (if pat = [] then Some 0 else None)"
| "find_sub pat (b # s) =
     (if take (length pat) (b # s) = pat then Some 0 else map_option Suc (find_sub pat s))"

text \<open>\<open>s[a..].find(pat)\<close>, as an offset into the whole string.\<close>

definition find_from :: "bytes \<Rightarrow> nat \<Rightarrow> bytes \<Rightarrow> nat option" where
  "find_from s a pat = map_option ((+) a) (find_sub pat (drop a s))"

text \<open>\<open>&s[a..b]\<close>.\<close>

definition str_slice :: "bytes \<Rightarrow> nat \<Rightarrow> nat \<Rightarrow> bytes run" where
  "str_slice s a b = (if a \<le> b \<and> b \<le> length s then Some (take (b - a) (drop a s)) else None)"

definition QUOTE :: byte where "QUOTE = 34"

definition extract_attr :: "bytes \<Rightarrow> bytes \<Rightarrow> bytes option" where
  "extract_attr tag_str attr_name =
     (let pattern = attr_name @ [61, QUOTE] in
      Option.bind (find_sub pattern tag_str) (\<lambda>start.
        let rest = drop (start + length pattern) tag_str in
        map_option (\<lambda>end_pos. take end_pos rest) (find_sub [QUOTE] rest)))"

text \<open>\<open>str::parse::<u32>\<close>: an optional plus sign, at least one digit, no overflow.\<close>

definition parse_u32 :: "bytes \<Rightarrow> u32 option" where
  "parse_u32 s =
     (let digits = (case s of [] \<Rightarrow> [] | c # rest \<Rightarrow> if c = 43 then rest else s);
          n = foldl (\<lambda>a b. 10 * a + (unat b - 48)) 0 digits in
      if digits \<noteq> [] \<and> list_all is_digit digits \<and> n < 2 ^ 32 then Some (of_nat n) else None)"

text \<open>\<open>ok_or_else(...)?\<close>.\<close>

definition need :: "'a option \<Rightarrow> 'e \<Rightarrow> ('a \<Rightarrow> ('e + 'b) run) \<Rightarrow> ('e + 'b) run" where
  "need x e k = (case x of None \<Rightarrow> Some (Inl e) | Some a \<Rightarrow> k a)"

lemma find_sub_Some:
  "find_sub pat s = Some i \<Longrightarrow> i + length pat \<le> length s \<and> take (length pat) (drop i s) = pat"
proof (induction pat s arbitrary: i rule: find_sub.induct)
  case (2 pat b s)
  show ?case
  proof (cases "take (length pat) (b # s) = pat")
    case True
    then have "length pat \<le> length (b # s)" by (metis length_take min.absorb_iff2 min.commute)
    then show ?thesis using 2 True by simp
  next
    case False
    then show ?thesis using 2 by auto
  qed
qed (simp split: if_splits)

lemma find_from_Some:
  "find_from s a pat = Some i \<Longrightarrow> a \<le> length s \<Longrightarrow> a \<le> i \<and> i + length pat \<le> length s"
  by (auto simp: find_from_def dest!: find_sub_Some)

section \<open>The sections of a dictionary\<close>

definition parse_version :: "bytes \<Rightarrow> (DictError + bytes) run" where
  "parse_version xml =
     need (find_sub (asc ''<fix '') xml) (DictParseError (asc ''no <fix> tag found'')) (\<lambda>fix_start.
     need (find_from xml fix_start (asc ''>'')) (DictParseError (asc ''unclosed <fix> tag'')) (\<lambda>fix_end.
     Option.bind (str_slice xml fix_start (fix_end + 1)) (\<lambda>fix_tag.
     need (extract_attr fix_tag (asc ''major'')) (MissingAttribute (asc ''major'')) (\<lambda>major.
     need (extract_attr fix_tag (asc ''minor'')) (MissingAttribute (asc ''minor'')) (\<lambda>minor.
       Some (Inr (asc ''FIX.'' @ major @ asc ''.'' @ minor)))))))"

function enum_loop :: "bytes \<Rightarrow> nat \<Rightarrow> (bytes \<times> bytes) list \<Rightarrow> (bytes \<times> bytes) list" where
  "enum_loop body pos acc =
     (if pos < length body then
        (case find_from body pos (asc ''<value '') of None \<Rightarrow> acc
         | Some tag_start \<Rightarrow>
             (case find_from body tag_start (asc ''/>'') of None \<Rightarrow> acc
              | Some e \<Rightarrow>
                  (let tag_str = take (e + 2 - tag_start) (drop tag_start body) in
                   enum_loop body (e + 2)
                     (case (extract_attr tag_str (asc ''enum''), extract_attr tag_str (asc ''description'')) of
                        (Some v, Some d) \<Rightarrow> acc @ [(v, d)] | _ \<Rightarrow> acc))))
      else acc)"
  by pat_completeness auto
termination
proof (relation "measure (\<lambda>(body, pos, acc). length body - pos)", goal_cases)
  case (2 body pos acc t e x)
  then have "pos \<le> t" "t \<le> e" "e + 2 \<le> length body"
    using find_from_Some [of body pos "asc ''<value ''" t] find_from_Some [of body t "asc ''/>''" e]
    by (auto simp: asc_def)
  then show ?case using 2(1) by simp
qed simp

declare enum_loop.simps [simp del]

definition parse_enum_values :: "bytes \<Rightarrow> (bytes \<times> bytes) list" where
  "parse_enum_values body = enum_loop body 0 []"

section \<open>Fields\<close>

text \<open>
  How one \<open><field ...>\<close> ends: the loop stops, skips an unclosed one, or takes it with its tag text,
  its enum values and the next position.
\<close>

datatype FieldShape = StopFields | SkipTo nat | FieldAt bytes "(bytes \<times> bytes) list" nat

text \<open>A field with children: \<open>oc\<close> is the end of its opening tag.\<close>

definition field_children :: "bytes \<Rightarrow> nat \<Rightarrow> nat \<Rightarrow> FieldShape run" where
  "field_children sec tag_start oc =
     Option.bind (str_slice sec tag_start (oc + 1)) (\<lambda>tag_str.
       case find_from sec tag_start (asc ''</field>'') of None \<Rightarrow> Some (SkipTo (oc + 1))
       | Some close \<Rightarrow>
           map_option (\<lambda>body. FieldAt tag_str (parse_enum_values body) (close + 8)) (str_slice sec (oc + 1) close))"

definition field_shape :: "bytes \<Rightarrow> nat \<Rightarrow> FieldShape run" where
  "field_shape sec tag_start =
     (case (find_from sec tag_start (asc ''/>''), find_from sec tag_start (asc ''>'')) of
        (Some sc, Some oc) \<Rightarrow>
          if sc < oc
          then map_option (\<lambda>tag_str. FieldAt tag_str [] (sc + 2)) (str_slice sec tag_start (sc + 2))
          else field_children sec tag_start oc
      | (None, Some oc) \<Rightarrow> field_children sec tag_start oc
      | _ \<Rightarrow> Some StopFields)"

definition compile_field :: "bytes \<Rightarrow> (bytes \<times> bytes) list \<Rightarrow> DictError + CompiledFieldDef" where
  "compile_field tag_str values =
     (case extract_attr tag_str (asc ''number'') of
        None \<Rightarrow> Inl (MissingAttribute (asc ''field number''))
      | Some number_str \<Rightarrow>
     (case parse_u32 number_str of
        None \<Rightarrow> Inl (InvalidFormat (asc ''invalid field number: '' @ number_str))
      | Some tag_num \<Rightarrow>
     (case extract_attr tag_str (asc ''name'') of
        None \<Rightarrow> Inl (MissingAttribute (asc ''field name''))
      | Some name \<Rightarrow>
     (case extract_attr tag_str (asc ''type'') of
        None \<Rightarrow> Inl (MissingAttribute (asc ''field type''))
      | Some field_type \<Rightarrow>
          Inr \<lparr>cf_tag = tag_num, cf_name = name, cf_field_type = field_type, cf_values = values\<rparr>))))"

lemma str_slice_Some: "str_slice s a b = Some t \<Longrightarrow> a \<le> b \<and> b \<le> length s \<and> t = take (b - a) (drop a s)"
  by (simp add: str_slice_def split: if_splits)

lemma field_shape_advances:
  assumes "field_shape sec p = Some sh" "p < length sec"
  shows "sh = SkipTo q \<Longrightarrow> p < q" and "sh = FieldAt t vs q \<Longrightarrow> p < q \<and> q \<le> length sec"
proof -
  have children: "(sh = SkipTo q \<longrightarrow> p < q) \<and> (sh = FieldAt t vs q \<longrightarrow> p < q \<and> q \<le> length sec)"
    if "field_children sec p oc = Some sh" "p \<le> oc" for oc
  proof (cases "find_from sec p (asc ''</field>'')")
    case None
    then show ?thesis using that by (auto simp: field_children_def bind_eq_Some_conv)
  next
    case (Some close)
    have "p \<le> close" "close + 8 \<le> length sec"
      using find_from_Some [OF Some] assms(2) by (simp_all add: asc_def)
    then show ?thesis using that Some by (auto simp: field_children_def bind_eq_Some_conv)
  qed
  have le: "p \<le> i" "i + length pat \<le> length sec" if "find_from sec p pat = Some i" for pat i
    using find_from_Some [OF that] assms(2) by simp_all
  have goal: "(sh = SkipTo q \<longrightarrow> p < q) \<and> (sh = FieldAt t vs q \<longrightarrow> p < q \<and> q \<le> length sec)"
    using assms(1) children le
    by (fastforce simp: field_shape_def asc_def split: option.splits if_splits dest!: str_slice_Some)
  then show "sh = SkipTo q \<Longrightarrow> p < q" "sh = FieldAt t vs q \<Longrightarrow> p < q \<and> q \<le> length sec" by blast+
qed

function fields_loop :: "bytes \<Rightarrow> nat \<Rightarrow> CompiledFieldDef list \<Rightarrow> (DictError + CompiledFieldDef list) run" where
  "fields_loop sec pos acc =
     (if pos < length sec then
        (case find_from sec pos (asc ''<field '') of None \<Rightarrow> Some (Inr acc)
         | Some tag_start \<Rightarrow>
             (case field_shape sec tag_start of None \<Rightarrow> None
              | Some StopFields \<Rightarrow> Some (Inr acc)
              | Some (SkipTo p) \<Rightarrow> fields_loop sec p acc
              | Some (FieldAt tag_str values next_pos) \<Rightarrow>
                  (case compile_field tag_str values of Inl e \<Rightarrow> Some (Inl e)
                   | Inr f \<Rightarrow> fields_loop sec next_pos (acc @ [f]))))
      else Some (Inr acc))"
  by pat_completeness auto
termination
proof (relation "measure (\<lambda>(sec, pos, acc). length sec - pos)", goal_cases)
  case (2 sec pos acc t sh p)
  then have t: "pos \<le> t" "t < length sec"
    using find_from_Some [of sec pos "asc ''<field ''" t] by (auto simp: asc_def)
  then show ?case using field_shape_advances(1) [of sec t _ p] 2 by auto
next
  case (3 sec pos acc t sh tag vs q f)
  then have t: "pos \<le> t" "t < length sec"
    using find_from_Some [of sec pos "asc ''<field ''" t] by (auto simp: asc_def)
  then show ?case using field_shape_advances(2) [of sec t _ tag vs q] 3 by auto
qed simp

declare fields_loop.simps [simp del]

text \<open>A section starts at its opening tag and stops before its closing tag; a document without it has none.\<close>

definition parse_fields :: "bytes \<Rightarrow> (DictError + CompiledFieldDef list) run" where
  "parse_fields xml =
     (case find_sub (asc ''<fields>'') xml of None \<Rightarrow> Some (Inr [])
      | Some fields_start \<Rightarrow>
          need (find_from xml fields_start (asc ''</fields>'')) (DictParseError (asc ''unclosed <fields> section''))
            (\<lambda>fields_end. Option.bind (str_slice xml fields_start fields_end) (\<lambda>sec. fields_loop sec 0 [])))"

section \<open>Messages\<close>

definition note_member :: "(bytes \<Rightarrow> u32 option) \<Rightarrow> bytes \<Rightarrow> u32 list \<times> u32 list \<Rightarrow> u32 list \<times> u32 list" where
  "note_member names field_tag =
     (\<lambda>(req, opt).
       case Option.bind (extract_attr field_tag (asc ''name'')) names of None \<Rightarrow> (req, opt)
       | Some tag \<Rightarrow>
           if extract_attr field_tag (asc ''required'') = Some (asc ''Y'') then (req @ [tag], opt) else (req, opt @ [tag]))"

function members_loop :: "(bytes \<Rightarrow> u32 option) \<Rightarrow> bytes \<Rightarrow> nat \<Rightarrow> u32 list \<times> u32 list \<Rightarrow> u32 list \<times> u32 list" where
  "members_loop names body fpos acc =
     (if fpos < length body then
        (case find_from body fpos (asc ''<field '') of None \<Rightarrow> acc
         | Some field_start \<Rightarrow>
             (case find_from body field_start (asc ''/>'') of None \<Rightarrow> acc
              | Some e \<Rightarrow>
                  members_loop names body (e + 2)
                    (note_member names (take (e + 2 - field_start) (drop field_start body)) acc)))
      else acc)"
  by pat_completeness auto
termination
proof (relation "measure (\<lambda>(names, body, fpos, acc). length body - fpos)", goal_cases)
  case (2 names body fpos acc t e)
  then have "fpos \<le> t" "t \<le> e" "e + 2 \<le> length body"
    using find_from_Some [of body fpos "asc ''<field ''" t] find_from_Some [of body t "asc ''/>''" e]
    by (auto simp: asc_def)
  then show ?case using 2(1) by simp
qed simp

declare members_loop.simps [simp del]

definition category_of :: "bytes \<Rightarrow> MessageCategory" where
  "category_of msgcat = (if msgcat = asc ''admin'' then Admin else Application)"

function messages_loop ::
  "(bytes \<Rightarrow> u32 option) \<Rightarrow> bytes \<Rightarrow> nat \<Rightarrow> CompiledMessageDef list \<Rightarrow> (DictError + CompiledMessageDef list) run" where
  "messages_loop names sec pos acc =
     (if pos < length sec then
        (case find_from sec pos (asc ''<message '') of None \<Rightarrow> Some (Inr acc)
         | Some msg_start \<Rightarrow>
        (case find_from sec msg_start (asc ''>'') of None \<Rightarrow> Some (Inr acc)
         | Some header_end \<Rightarrow>
        (case str_slice sec msg_start (header_end + 1) of None \<Rightarrow> None
         | Some msg_tag \<Rightarrow>
        (case extract_attr msg_tag (asc ''name'') of
           None \<Rightarrow> Some (Inl (MissingAttribute (asc ''message name'')))
         | Some name \<Rightarrow>
        (case extract_attr msg_tag (asc ''msgtype'') of
           None \<Rightarrow> Some (Inl (MissingAttribute (asc ''message msgtype'')))
         | Some msg_type \<Rightarrow>
        (case extract_attr msg_tag (asc ''msgcat'') of
           None \<Rightarrow> Some (Inl (MissingAttribute (asc ''message msgcat'')))
         | Some msgcat \<Rightarrow>
        (case find_from sec msg_start (asc ''</message>'') of None \<Rightarrow> Some (Inr acc)
         | Some msg_close \<Rightarrow>
        (case str_slice sec (header_end + 1) msg_close of None \<Rightarrow> None
         | Some msg_body \<Rightarrow>
             (let (req, opt) = members_loop names msg_body 0 ([], []) in
              messages_loop names sec (msg_close + 10)
                (acc @ [\<lparr>cm_msg_type = msg_type, cm_name = name, cm_category = category_of msgcat,
                         cm_required_fields = req, cm_optional_fields = opt\<rparr>]))))))))))
      else Some (Inr acc))"
  by pat_completeness auto
termination
proof (relation "measure (\<lambda>(names, sec, pos, acc). length sec - pos)", goal_cases)
  case (2 names sec pos acc t h tag name ty cat c body x req opt)
  then have "pos \<le> t" "t \<le> c"
    using find_from_Some [of sec pos "asc ''<message ''" t] find_from_Some [of sec t "asc ''</message>''" c]
    by (auto simp: asc_def)
  then show ?case using 2(1) by simp
qed simp

declare messages_loop.simps [simp del]

definition parse_messages :: "bytes \<Rightarrow> (bytes \<Rightarrow> u32 option) \<Rightarrow> (DictError + CompiledMessageDef list) run" where
  "parse_messages xml names =
     (case find_sub (asc ''<messages>'') xml of None \<Rightarrow> Some (Inr [])
      | Some msgs_start \<Rightarrow>
          need (find_from xml msgs_start (asc ''</messages>'')) (DictParseError (asc ''unclosed <messages> section''))
            (\<lambda>msgs_end. Option.bind (str_slice xml msgs_start msgs_end) (\<lambda>sec. messages_loop names sec 0 [])))"

section \<open>The dictionary\<close>

text \<open>\<open>index[field.tag as usize] = Some(i)\<close> for each field in order.\<close>

fun index_loop :: "nat \<Rightarrow> CompiledFieldDef list \<Rightarrow> nat option list \<Rightarrow> nat option list run" where
  "index_loop i [] index = Some index"
| "index_loop i (f # fs) index =
     Option.bind (set_at index (unat (cf_tag f)) (Some i)) (index_loop (Suc i) fs)"

text \<open>
  \<open>vec![None; max_tag + 1]\<close>: when the allocator has no memory for that many slots the process is
  aborted. Which sizes it can serve is the parameter \<open>memory\<close>.
\<close>

definition build_tag_index :: "(nat \<Rightarrow> bool) \<Rightarrow> CompiledFieldDef list \<Rightarrow> nat option list run" where
  "build_tag_index memory fs =
     (let max_tag = fold max (map (unat \<circ> cf_tag) fs) 0 in
      if memory (max_tag + 1) then index_loop 0 fs (replicate (max_tag + 1) None) else None)"

text \<open>\<open>name_to_tag\<close>: a later field of the same name replaces an earlier one.\<close>

definition name_to_tag :: "CompiledFieldDef list \<Rightarrow> bytes \<Rightarrow> u32 option" where
  "name_to_tag fs = map_of (rev (map (\<lambda>f. (cf_name f, cf_tag f)) fs))"

definition from_xml :: "(nat \<Rightarrow> bool) \<Rightarrow> bytes \<Rightarrow> (DictError + CompiledDictionary) run" where
  "from_xml memory xml =
     Option.bind (parse_version xml) (\<lambda>v. case v of Inl e \<Rightarrow> Some (Inl e) | Inr fix_version \<Rightarrow>
     Option.bind (parse_fields xml) (\<lambda>r. case r of Inl e \<Rightarrow> Some (Inl e) | Inr fs \<Rightarrow>
     Option.bind (parse_messages xml (name_to_tag fs)) (\<lambda>m. case m of Inl e \<Rightarrow> Some (Inl e) | Inr ms \<Rightarrow>
     map_option (\<lambda>index. Inr \<lparr>cd_fix_version = fix_version, cd_fields = fs, cd_messages = ms, cd_tag_index = index\<rparr>)
       (build_tag_index memory fs))))"

definition lookup_field :: "CompiledDictionary \<Rightarrow> u32 \<Rightarrow> CompiledFieldDef option run" where
  "lookup_field d tag =
     (if unat tag < length (cd_tag_index d) then
        (case cd_tag_index d ! unat tag of None \<Rightarrow> Some None
         | Some i \<Rightarrow> map_option Some (get_at (cd_fields d) i))
      else Some None)"

definition lookup_message :: "CompiledDictionary \<Rightarrow> bytes \<Rightarrow> CompiledMessageDef option" where
  "lookup_message d msg_type = find (\<lambda>m. cm_msg_type m = msg_type) (cd_messages d)"

definition missing_text :: "CompiledDictionary \<Rightarrow> u32 \<Rightarrow> bytes run" where
  "missing_text d tag =
     map_option (\<lambda>f. asc ''missing required field: '' @ (case f of None \<Rightarrow> asc ''Unknown'' | Some f \<Rightarrow> cf_name f) @
         asc '' (tag '' @ dec (unat tag) @ asc '')'')
       (lookup_field d tag)"

fun missing_texts :: "CompiledDictionary \<Rightarrow> u32 list \<Rightarrow> bytes list run" where
  "missing_texts d [] = Some []"
| "missing_texts d (t # ts) = Option.bind (missing_text d t) (\<lambda>s. map_option ((#) s) (missing_texts d ts))"

definition validate_message :: "CompiledDictionary \<Rightarrow> bytes \<Rightarrow> u32 list \<Rightarrow> bytes list run" where
  "validate_message d msg_type present_tags =
     (case lookup_message d msg_type of None \<Rightarrow> Some [asc ''unknown message type: '' @ msg_type]
      | Some m \<Rightarrow> missing_texts d (filter (\<lambda>t. t \<notin> set present_tags) (cm_required_fields m)))"

definition field_count :: "CompiledDictionary \<Rightarrow> nat" where "field_count d = length (cd_fields d)"
definition message_count :: "CompiledDictionary \<Rightarrow> nat" where "message_count d = length (cd_messages d)"

section \<open>The tag index\<close>

text \<open>The index represents the fields seen so far when it holds, for each tag, the last of its fields.\<close>

definition index_rep :: "CompiledFieldDef list \<Rightarrow> nat option list \<Rightarrow> bool" where
  "index_rep fs index \<longleftrightarrow>
     (\<forall>t < length index. find (\<lambda>f. unat (cf_tag f) = t) (rev fs) = map_option ((!) fs) (index ! t) \<and>
        (\<forall>i. index ! t = Some i \<longrightarrow> i < length fs))"

lemma index_rep_step:
  assumes "index_rep fs index" "unat (cf_tag f) < length index"
  shows "index_rep (fs @ [f]) (index[unat (cf_tag f) := Some (length fs)])"
  unfolding index_rep_def
proof (intro allI impI)
  fix t assume t: "t < length (index[unat (cf_tag f) := Some (length fs)])"
  show "find (\<lambda>f. unat (cf_tag f) = t) (rev (fs @ [f])) =
      map_option ((!) (fs @ [f])) (index[unat (cf_tag f) := Some (length fs)] ! t) \<and>
    (\<forall>i. index[unat (cf_tag f) := Some (length fs)] ! t = Some i \<longrightarrow> i < length (fs @ [f]))"
  proof (cases "unat (cf_tag f) = t")
    case True
    then show ?thesis using t by simp
  next
    case False
    have "find (\<lambda>f. unat (cf_tag f) = t) (rev fs) = map_option ((!) fs) (index ! t)"
      "\<And>i. index ! t = Some i \<Longrightarrow> i < length fs"
      using assms(1) t by (simp_all add: index_rep_def)
    then show ?thesis using False by (cases "index ! t") (auto simp: nth_append)
  qed
qed

lemma index_loop_rep:
  "index_rep pre index \<Longrightarrow> \<forall>f \<in> set fs. unat (cf_tag f) < length index \<Longrightarrow>
   \<exists>ix. index_loop (length pre) fs index = Some ix \<and> length ix = length index \<and> index_rep (pre @ fs) ix"
proof (induction fs arbitrary: pre index)
  case Nil
  then show ?case by simp
next
  case (Cons f fs)
  let ?index = "index[unat (cf_tag f) := Some (length pre)]"
  have "index_rep (pre @ [f]) ?index" using Cons.prems by (simp add: index_rep_step)
  from Cons.IH [OF this] show ?case using Cons.prems by (simp add: set_at_def)
qed

lemma fold_max_bound: "x \<in> set xs \<or> x = m \<Longrightarrow> x \<le> fold max xs (m :: nat)"
proof (induction xs arbitrary: x m)
  case (Cons y ys)
  have "max y m \<le> fold max ys (max y m)" using Cons.IH [of "max y m" "max y m"] by simp
  then show ?case using Cons.IH [of x "max y m"] Cons.prems by auto
qed simp

text \<open>The number of slots of the index.\<close>

definition index_size :: "CompiledFieldDef list \<Rightarrow> nat" where
  "index_size fs = fold max (map (unat \<circ> cf_tag) fs) 0 + 1"

lemma build_tag_index_rep:
  assumes "memory (index_size fs)"
  shows "\<exists>ix. build_tag_index memory fs = Some ix \<and> index_rep fs ix \<and> (\<forall>f \<in> set fs. unat (cf_tag f) < length ix)"
proof -
  let ?m = "fold max (map (unat \<circ> cf_tag) fs) 0"
  have le: "\<forall>f \<in> set fs. unat (cf_tag f) < length (replicate (?m + 1) None)"
    by (auto simp: less_Suc_eq_le intro!: fold_max_bound)
  moreover have "index_rep [] (replicate (?m + 1) None)" by (auto simp: index_rep_def simp del: replicate.simps)
  ultimately show ?thesis
    using index_loop_rep [of "[]" "replicate (?m + 1) None" fs] assms
    by (auto simp: build_tag_index_def index_size_def Let_def)
qed

lemma build_tag_index_memory: "build_tag_index memory fs = Some ix \<Longrightarrow> memory (index_size fs)"
  by (simp add: build_tag_index_def index_size_def Let_def split: if_splits)

lemma from_xml_index:
  assumes "from_xml memory xml = Some (Inr d)"
  shows "build_tag_index memory (cd_fields d) = Some (cd_tag_index d)"
  using assms by (auto simp: from_xml_def split: Option.bind_split_asm sum.split_asm)

text \<open>What the index promises, in terms of the list of fields.\<close>

lemma lookup_field_last:
  assumes "build_tag_index memory (cd_fields d) = Some (cd_tag_index d)"
  shows "lookup_field d tag = Some (find (\<lambda>f. cf_tag f = tag) (rev (cd_fields d)))"
proof -
  have rep: "index_rep (cd_fields d) (cd_tag_index d)"
    and le: "\<forall>f \<in> set (cd_fields d). unat (cf_tag f) < length (cd_tag_index d)"
    using build_tag_index_rep [of memory, OF build_tag_index_memory [OF assms]] assms by auto
  have eq: "(\<lambda>f. cf_tag f = tag) = (\<lambda>f. unat (cf_tag f) = unat tag)" by (auto simp: word_unat_eq_iff)
  show ?thesis
  proof (cases "unat tag < length (cd_tag_index d)")
    case True
    then have "find (\<lambda>f. unat (cf_tag f) = unat tag) (rev (cd_fields d)) =
        map_option ((!) (cd_fields d)) (cd_tag_index d ! unat tag)"
      and "\<And>i. cd_tag_index d ! unat tag = Some i \<Longrightarrow> i < length (cd_fields d)"
      using rep by (simp_all add: index_rep_def)
    then show ?thesis using True
      by (cases "cd_tag_index d ! unat tag") (auto simp: lookup_field_def eq get_at_def)
  next
    case False
    then have "find (\<lambda>f. cf_tag f = tag) (rev (cd_fields d)) = None"
      using le by (auto simp: find_None_iff)
    then show ?thesis using False by (simp add: lookup_field_def)
  qed
qed

section \<open>Validation\<close>

lemma missing_texts_all:
  assumes "build_tag_index memory (cd_fields d) = Some (cd_tag_index d)"
  shows "missing_texts d ts = Some (map (\<lambda>t. the (missing_text d t)) ts)"
proof (induction ts)
  case (Cons t ts)
  have "missing_text d t \<noteq> None" by (simp add: missing_text_def lookup_field_last [OF assms])
  then show ?case using Cons by auto
qed simp

section \<open>Searching rendered text\<close>

text \<open>Searching continues after a piece of text in which the pattern cannot start.\<close>

lemma map_option_add: "map_option ((+) (m + n)) x = map_option ((+) m) (map_option ((+) n) (x :: nat option))"
  by (cases x) simp_all

lemma find_sub_skip:
  "c \<notin> set xs \<Longrightarrow> find_sub (c # p) (xs @ ys) = map_option ((+) (length xs)) (find_sub (c # p) ys)"
  by (cases "find_sub (c # p) ys"; induction xs) auto

lemma find_sub_end: "c \<notin> set xs \<Longrightarrow> find_sub [c] (xs @ c # ys) = Some (length xs)"
  by (simp add: find_sub_skip)

lemma find_self_close_skip:
  "62 \<notin> set v \<Longrightarrow>
   find_sub [47, 62] (v @ 34 # ys) = map_option ((+) (Suc (length v))) (find_sub [47, 62] ys)"
proof (induction v)
  case (Cons b v)
  then show ?case by (cases v; cases "find_sub [47, 62] ys") auto
qed (cases "find_sub [47, 62] ys", simp_all)

lemma find_from_append: "find_from (p @ x) (length p) pat = map_option ((+) (length p)) (find_sub pat x)"
  by (simp add: find_from_def)

lemma str_slice_append: "str_slice (p @ x @ y) (length p) (length p + length x) = Some x"
  by (simp add: str_slice_def)

text \<open>Attributes, read from the left.\<close>

definition upto_quote :: "bytes \<Rightarrow> bytes option" where
  "upto_quote rest = map_option (\<lambda>e. take e rest) (find_sub [34] rest)"

lemma upto_quote_at: "34 \<notin> set v \<Longrightarrow> upto_quote (v @ 34 # ys) = Some v"
  by (simp add: upto_quote_def find_sub_end)

lemma upto_quote_Cons: "upto_quote (b # s) = (if b = 34 then Some [] else map_option ((#) b) (upto_quote s))"
  by (cases "find_sub [34] s") (auto simp: upto_quote_def)

lemma extract_attr_Cons:
  "extract_attr (b # s) name =
     (if take (length name + 2) (b # s) = name @ [61, 34] then upto_quote (drop (length name + 2) (b # s))
      else extract_attr s name)"
proof (cases "take (length name + 2) (b # s) = name @ [61, 34]")
  case True
  then have "find_sub (name @ [61, 34]) (b # s) = Some 0" by simp
  then show ?thesis using True by (simp add: extract_attr_def upto_quote_def QUOTE_def Let_def)
next
  case False
  then have "find_sub (name @ [61, 34]) (b # s) = map_option Suc (find_sub (name @ [61, 34]) s)" by simp
  then show ?thesis using False
    by (cases "find_sub (name @ [61, 34]) s") (simp_all add: extract_attr_def QUOTE_def)
qed

lemma attr_not_in_value:
  fixes v name :: bytes
  assumes "61 \<notin> set v" "34 \<notin> set name" "v \<noteq> []"
  shows "take (length name + 2) (v @ 34 # ys) \<noteq> name @ [61, 34]"
proof
  assume eq: "take (length name + 2) (v @ 34 # ys) = name @ [61, 34]"
  have nth: "(v @ 34 # ys) ! i = (name @ [61, 34]) ! i" if "i < length name + 2" for i
    using that by (metis eq nth_take)
  consider "length v \<le> length name" | "length name < length v" by linarith
  then show False
  proof cases
    case 1
    then have "(name @ [61 :: byte, 34]) ! length v = 34" using nth [of "length v"] by simp
    then show False using 1 assms(2) nth_mem [of "length v" name]
      by (cases "length v = length name") (auto simp: nth_append)
  next
    case 2
    then have "v ! length name = 61" using nth [of "length name"] by (simp add: nth_append)
    then show False using 2 assms(1) by (metis nth_mem)
  qed
qed

lemma extract_attr_quote: "34 \<notin> set name \<Longrightarrow> extract_attr (34 # ys) name = extract_attr ys name"
  by (cases name) (auto simp: extract_attr_Cons)

lemma extract_attr_skip:
  "61 \<notin> set v \<Longrightarrow> 34 \<notin> set name \<Longrightarrow> extract_attr (v @ 34 # ys) name = extract_attr ys name"
proof (induction v)
  case Nil
  then show ?case by (simp add: extract_attr_quote)
next
  case (Cons b v)
  then show ?case
    using attr_not_in_value [of "b # v" name ys] by (simp add: extract_attr_Cons del: take_Suc_Cons)
qed

lemmas search_simps = find_sub_skip find_sub_end find_self_close_skip upto_quote_at extract_attr_Cons
  extract_attr_skip

section \<open>Rendered dictionaries\<close>

text \<open>
  A reference form of a dictionary, not code of the program: the QuickFIX-like text of the shipped
  dictionary, with fixed attribute order, a space behind every tag name, three spacing strings and no
  escaping. An attribute value holds neither a quote nor an equals sign nor an angle bracket.
\<close>

definition attr_ok :: "bytes \<Rightarrow> bool" where
  "attr_ok v \<longleftrightarrow> set v \<inter> {34, 60, 61, 62} = {}"

text \<open>The spacing (any text without \<open><\<close>) before a section's tags, an item's and a part's of an item.\<close>

record Layout =
  ly_section :: bytes
  ly_item :: bytes
  ly_part :: bytes

definition layout_ok :: "Layout \<Rightarrow> bool" where
  "layout_ok L \<longleftrightarrow> 60 \<notin> set (ly_section L) \<and> 60 \<notin> set (ly_item L) \<and> 60 \<notin> set (ly_part L)"

definition spaced :: "bytes \<Rightarrow> ('a \<Rightarrow> bytes) \<Rightarrow> 'a list \<Rightarrow> bytes" where
  "spaced ws f xs = concat (map (\<lambda>x. ws @ f x) xs)"

definition render_value :: "bytes \<times> bytes \<Rightarrow> bytes" where
  "render_value = (\<lambda>(v, d). asc ''<value enum='' @ 34 # v @ 34 # asc '' description='' @ 34 # d @ 34 # asc ''/>'')"

definition open_tag :: "CompiledFieldDef \<Rightarrow> bytes \<Rightarrow> bytes" where
  "open_tag f e =
     asc ''<field number='' @ 34 # dec (unat (cf_tag f)) @ 34 # asc '' name='' @ 34 # cf_name f @ 34 #
     asc '' type='' @ 34 # cf_field_type f @ 34 # e"

definition render_field :: "Layout \<Rightarrow> CompiledFieldDef \<Rightarrow> bytes" where
  "render_field L f =
     (if cf_values f = [] then open_tag f (asc ''/>'')
      else open_tag f (asc ''>'') @ spaced (ly_part L) render_value (cf_values f) @ ly_item L @ asc ''</field>'')"

definition name_of :: "CompiledFieldDef list \<Rightarrow> u32 \<Rightarrow> bytes" where
  "name_of fs tag = (case find (\<lambda>f. cf_tag f = tag) fs of None \<Rightarrow> [] | Some f \<Rightarrow> cf_name f)"

definition render_member :: "CompiledFieldDef list \<Rightarrow> u32 \<times> bool \<Rightarrow> bytes" where
  "render_member fs =
     (\<lambda>(tag, r). asc ''<field name='' @ 34 # name_of fs tag @ 34 # asc '' required='' @ 34 #
        (if r then asc ''Y'' else asc ''N'') @ 34 # asc ''/>'')"

definition members_of :: "CompiledMessageDef \<Rightarrow> (u32 \<times> bool) list" where
  "members_of m = map (\<lambda>t. (t, True)) (cm_required_fields m) @ map (\<lambda>t. (t, False)) (cm_optional_fields m)"

definition message_tag :: "CompiledMessageDef \<Rightarrow> bytes" where
  "message_tag m =
     asc ''<message name='' @ 34 # cm_name m @ 34 # asc '' msgtype='' @ 34 # cm_msg_type m @ 34 #
     asc '' msgcat='' @ 34 # (case cm_category m of Admin \<Rightarrow> asc ''admin'' | Application \<Rightarrow> asc ''app'') @
     34 # asc ''>''"

definition render_message :: "Layout \<Rightarrow> CompiledFieldDef list \<Rightarrow> CompiledMessageDef \<Rightarrow> bytes" where
  "render_message L fs m =
     message_tag m @ spaced (ly_part L) (render_member fs) (members_of m) @ ly_item L @ asc ''</message>''"

definition fix_tag :: "bytes \<Rightarrow> bytes \<Rightarrow> bytes" where
  "fix_tag major minor = asc ''<fix major='' @ 34 # major @ 34 # asc '' minor='' @ 34 # minor @ 34 # asc ''>''"

definition fields_text :: "Layout \<Rightarrow> CompiledFieldDef list \<Rightarrow> bytes" where
  "fields_text L fs = asc ''<fields>'' @ spaced (ly_item L) (render_field L) fs @ ly_section L"

definition messages_text :: "Layout \<Rightarrow> CompiledFieldDef list \<Rightarrow> CompiledMessageDef list \<Rightarrow> bytes" where
  "messages_text L fs ms = asc ''<messages>'' @ spaced (ly_item L) (render_message L fs) ms @ ly_section L"

definition render_dictionary ::
  "Layout \<Rightarrow> bytes \<Rightarrow> bytes \<Rightarrow> CompiledFieldDef list \<Rightarrow> CompiledMessageDef list \<Rightarrow> bytes \<Rightarrow> bytes" where
  "render_dictionary L major minor fs ms trailer =
     fix_tag major minor @ ly_section L @ fields_text L fs @ asc ''</fields>'' @
     ly_section L @ messages_text L fs ms @ asc ''</messages>'' @ trailer"

definition field_ok :: "CompiledFieldDef \<Rightarrow> bool" where
  "field_ok f \<longleftrightarrow> attr_ok (cf_name f) \<and> attr_ok (cf_field_type f) \<and>
     list_all (\<lambda>(v, d). attr_ok v \<and> attr_ok d) (cf_values f)"

definition message_ok :: "CompiledFieldDef list \<Rightarrow> CompiledMessageDef \<Rightarrow> bool" where
  "message_ok fs m \<longleftrightarrow> attr_ok (cm_name m) \<and> attr_ok (cm_msg_type m) \<and>
     set (cm_required_fields m @ cm_optional_fields m) \<subseteq> set (map cf_tag fs)"

definition dictionary_ok :: "CompiledFieldDef list \<Rightarrow> CompiledMessageDef list \<Rightarrow> bool" where
  "dictionary_ok fs ms \<longleftrightarrow>
     list_all field_ok fs \<and> distinct (map cf_name fs) \<and> list_all (message_ok fs) ms"

lemma attr_ok_dec [simp]: "attr_ok (dec n)"
  by (auto simp: attr_ok_def is_digit_def dest!: dec_digits)

lemma attr_okD: "attr_ok v \<Longrightarrow> 34 \<notin> set v" "attr_ok v \<Longrightarrow> 60 \<notin> set v" "attr_ok v \<Longrightarrow> 61 \<notin> set v" "attr_ok v \<Longrightarrow> 62 \<notin> set v"
  by (auto simp: attr_ok_def)

text \<open>A piece of text that a search passes over, whatever follows it.\<close>

definition skips :: "bytes \<Rightarrow> bytes \<Rightarrow> bool" where
  "skips pat xs \<longleftrightarrow> (\<forall>ys. find_sub pat (xs @ ys) = map_option ((+) (length xs)) (find_sub pat ys))"

lemma skipsD: "skips pat xs \<Longrightarrow> find_sub pat (xs @ ys) = map_option ((+) (length xs)) (find_sub pat ys)"
  by (simp add: skips_def)

lemma skips_Nil: "skips pat []"
proof -
  have "map_option ((+) 0) x = x" for x :: "nat option" by (cases x) simp_all
  then show ?thesis by (simp add: skips_def)
qed

lemma skips_append: "skips pat xs \<Longrightarrow> skips pat ys \<Longrightarrow> skips pat (xs @ ys)"
  unfolding skips_def by (metis append.assoc length_append map_option_add)

lemma skips_spaced: "skips pat ws \<Longrightarrow> (\<And>x. x \<in> set xs \<Longrightarrow> skips pat (f x)) \<Longrightarrow> skips pat (spaced ws f xs)"
  unfolding spaced_def by (induction xs) (simp_all add: skips_Nil skips_append)

lemma skips_ws: "60 \<notin> set ws \<Longrightarrow> skips (asc (CHR ''<'' # s)) ws"
  by (simp add: skips_def find_sub_skip asc_def)

lemma skips_layout:
  "layout_ok L \<Longrightarrow> ws \<in> {ly_section L, ly_item L, ly_part L} \<Longrightarrow> skips (asc (CHR ''<'' # s)) ws"
  by (auto simp: layout_ok_def intro: skips_ws)

lemma spaced_simps [simp]: "spaced ws f [] = []" "spaced ws f (x # xs) = ws @ f x @ spaced ws f xs"
  by (simp_all add: spaced_def)

text \<open>A tag is passed over by a search for another tag.\<close>

lemma skips_tag:
  assumes "60 \<notin> set q" "60 \<notin> set ys" "take (length q) p \<noteq> take (length p) q"
  shows "skips (60 # p) (60 # q @ ys)"
proof -
  have "take (length p) (q @ ys @ zs) \<noteq> p" for zs
  proof
    assume eq: "take (length p) (q @ ys @ zs) = p"
    then have "take (length q) p = take (length q) (take (length p) (q @ ys @ zs))" by simp
    also have "\<dots> = take (length p) q" by (cases "length q \<le> length p") simp_all
    finally show False using assms(3) by simp
  qed
  then have "find_sub (60 # p) (60 # q @ ys @ zs) = map_option ((+) (length (60 # q @ ys))) (find_sub (60 # p) zs)" for zs
    using assms(1,2) find_sub_skip [of 60 "q @ ys" p zs] by (cases "find_sub (60 # p) zs") auto
  then show ?thesis by (simp add: skips_def)
qed

lemmas piece_defs = open_tag_def render_value_def render_member_def message_tag_def asc_def

lemma skips_open_tag:
  assumes "field_ok f" "pat \<in> {asc ''</fields>'', asc ''</field>'', asc ''<messages>''}" "60 \<notin> set e"
  shows "skips pat (open_tag f e)"
proof -
  let ?ys = "dec (unat (cf_tag f)) @ 34 # asc '' name='' @ 34 # cf_name f @ 34 # asc '' type='' @ 34 # cf_field_type f @ 34 # e"
  have "60 \<notin> set ?ys" using assms(1,3) by (auto simp: field_ok_def attr_okD asc_def)
  moreover have "open_tag f e = 60 # asc ''field number='' @ 34 # ?ys" by (simp add: piece_defs)
  ultimately show ?thesis using assms(2) skips_tag [of "asc ''field number=''" "34 # ?ys"]
    by (auto simp: asc_def)
qed

lemma skips_value:
  assumes "attr_ok (fst x)" "attr_ok (snd x)" "pat \<in> {asc ''</fields>'', asc ''</field>'', asc ''<messages>''}"
  shows "skips pat (render_value x)"
proof -
  let ?ys = "fst x @ 34 # asc '' description='' @ 34 # snd x @ 34 # asc ''/>''"
  have "60 \<notin> set ?ys" using assms(1,2) by (auto simp: attr_okD asc_def)
  moreover have "render_value x = 60 # asc ''value enum='' @ 34 # ?ys" by (cases x) (simp add: piece_defs)
  ultimately show ?thesis using assms(3) skips_tag [of "asc ''value enum=''" "34 # ?ys"]
    by (auto simp: asc_def)
qed

lemma skips_field:
  assumes "field_ok f" "layout_ok L" "pat \<in> {asc ''</fields>'', asc ''<messages>''}"
  shows "skips pat (render_field L f)"
proof -
  have pat: "pat \<in> {asc ''</fields>'', asc ''</field>'', asc ''<messages>''}" using assms(3) by auto
  have ws: "skips pat (ly_part L)" "skips pat (ly_item L)" using assms(2,3) by (auto intro: skips_layout)
  have "skips pat (spaced (ly_part L) render_value (cf_values f))"
    using assms(1) by (intro skips_spaced ws skips_value pat) (auto simp: field_ok_def list_all_iff)
  moreover have "skips pat (asc ''</field>'')"
    using assms(3) skips_tag [of "asc ''/field>''" "[]"] by (auto simp: asc_def)
  ultimately show ?thesis
    by (auto simp: render_field_def intro!: skips_append ws skips_open_tag [OF assms(1) pat]) (simp_all add: asc_def)
qed

section \<open>Compiling rendered fields\<close>

lemma parse_u32_dec: "parse_u32 (dec (unat t)) = Some t"
proof -
  have "dec (unat t) \<noteq> 43 # r" for r using dec_digits [of 43 "unat t"] by (auto simp: is_digit_def)
  then have "(case dec (unat t) of [] \<Rightarrow> [] | c # rest \<Rightarrow> if c = 43 then rest else dec (unat t)) = dec (unat t)"
    by (auto split: list.splits)
  moreover have "list_all is_digit (dec (unat t))" by (auto simp: list_all_iff dest: dec_digits)
  moreover have "unat t < 2 ^ 32" using unsigned_less [of t] by simp
  ultimately show ?thesis by (simp add: parse_u32_def dec_value)
qed

lemma compile_open_tag:
  assumes "field_ok f"
  shows "compile_field (open_tag f e) vs = Inr (f\<lparr>cf_values := vs\<rparr>)"
proof -
  have ok: "attr_ok (cf_name f)" "attr_ok (cf_field_type f)" using assms by (simp_all add: field_ok_def)
  have number: "extract_attr (open_tag f e) (asc ''number'') = Some (dec (unat (cf_tag f)))"
    using ok by (simp add: piece_defs extract_attr_Cons extract_attr_skip upto_quote_at attr_okD)
  have name: "extract_attr (open_tag f e) (asc ''name'') = Some (cf_name f)"
    using ok by (simp add: piece_defs extract_attr_Cons extract_attr_skip upto_quote_at attr_okD)
  have type: "extract_attr (open_tag f e) (asc ''type'') = Some (cf_field_type f)"
    using ok by (simp add: piece_defs extract_attr_Cons extract_attr_skip upto_quote_at attr_okD)
  show ?thesis by (simp add: compile_field_def number name type parse_u32_dec)
qed

lemma open_tag_ends:
  assumes "field_ok f"
  shows "find_sub (asc ''>'') (open_tag f (asc ''/>'') @ rest) = Some (length (open_tag f []) + 1)"
    "find_sub (asc ''>'') (open_tag f (asc ''>'') @ rest) = Some (length (open_tag f []))"
    "find_sub (asc ''/>'') (open_tag f (asc ''/>'') @ rest) = Some (length (open_tag f []))"
    "find_sub (asc ''/>'') (open_tag f (asc ''>'') @ rest) =
       map_option ((+) (length (open_tag f []) + 1)) (find_sub (asc ''/>'') rest)"
proof -
  have ok: "62 \<notin> set (dec (unat (cf_tag f)))" "62 \<notin> set (cf_name f)" "62 \<notin> set (cf_field_type f)"
    using assms attr_ok_dec by (auto simp: field_ok_def attr_okD)
  show "find_sub (asc ''>'') (open_tag f (asc ''/>'') @ rest) = Some (length (open_tag f []) + 1)"
    using ok by (simp add: piece_defs find_sub_skip)
  show "find_sub (asc ''>'') (open_tag f (asc ''>'') @ rest) = Some (length (open_tag f []))"
    using ok by (simp add: piece_defs find_sub_skip)
  show "find_sub (asc ''/>'') (open_tag f (asc ''/>'') @ rest) = Some (length (open_tag f []))"
    using ok by (simp add: piece_defs find_self_close_skip)
  show "find_sub (asc ''/>'') (open_tag f (asc ''>'') @ rest) =
       map_option ((+) (length (open_tag f []) + 1)) (find_sub (asc ''/>'') rest)"
    using ok by (cases "find_sub (asc ''/>'') rest") (simp_all add: piece_defs find_self_close_skip)
qed

text \<open>The enumerated values of a field.\<close>

lemma render_value_facts:
  assumes "attr_ok v" "attr_ok d"
  shows "find_sub (asc ''<value '') (render_value (v, d) @ rest) = Some 0"
    "find_sub (asc ''/>'') (render_value (v, d) @ rest) = Some (length (render_value (v, d)) - 2)"
    "extract_attr (render_value (v, d)) (asc ''enum'') = Some v"
    "extract_attr (render_value (v, d)) (asc ''description'') = Some d"
    "2 \<le> length (render_value (v, d))"
  using assms
  by (simp_all add: piece_defs find_self_close_skip extract_attr_Cons extract_attr_skip upto_quote_at attr_okD)

lemma enum_loop_rendered:
  assumes ws: "60 \<notin> set ws" "60 \<notin> set post"
  shows "list_all (\<lambda>(v, d). attr_ok v \<and> attr_ok d) vs \<Longrightarrow>
    enum_loop (p @ spaced ws render_value vs @ post) (length p) acc = acc @ vs"
proof (induction vs arbitrary: p acc)
  case Nil
  have "find_sub (asc ''<value '') post = None" using skipsD [OF skips_ws [OF ws(2), of "''value ''"], of "[]"] by (simp add: asc_def)
  then show ?case by (subst enum_loop.simps) (simp add: find_from_append)
next
  case (Cons x vs)
  obtain v d where x: "x = (v, d)" by (cases x)
  let ?rest = "spaced ws render_value vs @ post"
  have ok: "attr_ok v" "attr_ok d" using Cons.prems x by simp_all
  note facts = render_value_facts(1,2) [OF ok, of ?rest] render_value_facts(3-5) [OF ok]
  have start: "find_from (p @ ws @ render_value (v, d) @ ?rest) (length p) (asc ''<value '') = Some (length (p @ ws))"
    using facts(1) skipsD [OF skips_ws [OF ws(1)]] by (simp add: find_from_append)
  have stop: "find_from (p @ ws @ render_value (v, d) @ ?rest) (length (p @ ws)) (asc ''/>'') =
      Some (length (p @ ws) + (length (render_value (v, d)) - 2))"
    using facts(2) find_from_append [of "p @ ws" "render_value (v, d) @ ?rest"] by simp
  have ne: "render_value (v, d) \<noteq> []"
    "Suc (Suc (length p + length ws + length (render_value (v, d)) - 2)) =
       length p + (length ws + length (render_value (v, d)))"
    using facts(5) by auto
  have "enum_loop (p @ spaced ws render_value (x # vs) @ post) (length p) acc =
      enum_loop ((p @ ws @ render_value x) @ ?rest) (length (p @ ws @ render_value x)) (acc @ [(v, d)])"
    using facts(3-5) start stop ne by (subst enum_loop.simps) (simp add: x Let_def)
  also have "\<dots> = (acc @ [(v, d)]) @ vs" by (rule Cons.IH) (use Cons.prems in simp)
  finally show ?case by (simp add: x)
qed

lemma field_shape_rendered:
  assumes "field_ok f" "layout_ok L"
  obtains e where
    "field_shape (p @ render_field L f @ rest) (length p) =
       Some (FieldAt (open_tag f e) (cf_values f) (length p + length (render_field L f)))"
proof (cases "cf_values f = []")
  case True
  have len: "length (open_tag f (asc ''/>'')) = length (open_tag f []) + 2" by (simp add: piece_defs)
  have "str_slice (p @ open_tag f (asc ''/>'') @ rest) (length p) (length p + length (open_tag f []) + 2) =
      Some (open_tag f (asc ''/>''))"
    using str_slice_append [of p "open_tag f (asc ''/>'')" rest] len by simp
  then have "field_shape (p @ render_field L f @ rest) (length p) =
      Some (FieldAt (open_tag f (asc ''/>'')) (cf_values f) (length p + length (render_field L f)))"
    using True open_tag_ends(1,3) [OF assms(1), of rest] len
    by (simp add: field_shape_def render_field_def find_from_append)
  then show ?thesis by (rule that)
next
  case False
  let ?tag = "open_tag f (asc ''>'')"
  let ?body = "spaced (ly_part L) render_value (cf_values f) @ ly_item L"
  let ?sec = "p @ ?tag @ ?body @ asc ''</field>'' @ rest"
  have len: "length ?tag = length (open_tag f []) + 1" by (simp add: piece_defs)
  have sec: "p @ render_field L f @ rest = ?sec" using False by (simp add: render_field_def)
  have oc: "find_from ?sec (length p) (asc ''>'') = Some (length p + length (open_tag f []))"
    using open_tag_ends(2) [OF assms(1)] by (simp add: find_from_append)
  have tag: "str_slice ?sec (length p) (length p + length (open_tag f []) + 1) = Some ?tag"
    using str_slice_append [of p ?tag "?body @ asc ''</field>'' @ rest"] len by simp
  have "skips (asc ''</field>'') (?tag @ ?body)"
    using assms by (intro skips_append skips_spaced skips_open_tag skips_value skips_layout [OF assms(2)])
      (auto simp: field_ok_def list_all_iff asc_def)
  from skipsD [OF this, of "asc ''</field>'' @ rest"]
  have "find_sub (asc ''</field>'') (?tag @ ?body @ asc ''</field>'' @ rest) = Some (length (?tag @ ?body))"
    by (simp add: asc_def)
  then have close: "find_from ?sec (length p) (asc ''</field>'') = Some (length p + length (?tag @ ?body))"
    by (simp only: find_from_append) simp
  have body: "str_slice ?sec (length p + length (open_tag f []) + 1) (length p + length (?tag @ ?body)) = Some ?body"
    using str_slice_append [of "p @ ?tag" ?body "asc ''</field>'' @ rest"] len by (simp add: add.assoc)
  have vals: "parse_enum_values ?body = cf_values f"
    using assms enum_loop_rendered [of "ly_part L" "ly_item L" "cf_values f" "[]" "[]"]
    by (simp add: parse_enum_values_def field_ok_def layout_ok_def)
  have end_pos: "length p + length (?tag @ ?body) + 8 = length p + length (render_field L f)"
    using False by (simp add: render_field_def) (simp add: asc_def)
  have children: "field_children ?sec (length p) (length p + length (open_tag f [])) =
      Some (FieldAt ?tag (cf_values f) (length p + length (render_field L f)))"
    by (simp only: field_children_def tag close body vals end_pos option.case option.map bind.bind_lunit)
  have "case find_from ?sec (length p) (asc ''/>'') of None \<Rightarrow> True | Some sc \<Rightarrow> \<not> sc < length p + length (open_tag f [])"
    using open_tag_ends(4) [OF assms(1), of "?body @ asc ''</field>'' @ rest"]
    by (auto simp: find_from_append split: option.splits)
  then have "field_shape ?sec (length p) = Some (FieldAt ?tag (cf_values f) (length p + length (render_field L f)))"
    using children unfolding field_shape_def oc by (auto split: option.splits)
  then show ?thesis using that sec by simp
qed

lemma fields_loop_rendered:
  assumes "layout_ok L"
  shows "list_all field_ok fs \<Longrightarrow> skips (asc ''<field '') gap \<Longrightarrow>
    fields_loop (p @ gap @ spaced (ly_item L) (render_field L) fs @ ly_section L) (length p) acc = Some (Inr (acc @ fs))"
proof (induction fs arbitrary: p gap acc)
  case Nil
  have "find_sub (asc ''<field '') (gap @ ly_section L) = None"
    using skipsD [OF skips_append [OF Nil.prems(2) skips_layout [OF assms]], of "ly_section L" "[]"] by (simp add: asc_def)
  then show ?case by (subst fields_loop.simps) (simp add: find_from_append)
next
  case (Cons f fs)
  let ?rest = "spaced (ly_item L) (render_field L) fs @ ly_section L"
  let ?q = "p @ gap @ ly_item L"
  let ?sec = "?q @ render_field L f @ ?rest"
  have f: "field_ok f" and fs: "list_all field_ok fs" using Cons.prems by simp_all
  have "find_sub (asc ''<field '') (render_field L f @ ?rest) = Some 0"
    by (simp add: render_field_def piece_defs)
  then have start: "find_from ?sec (length p) (asc ''<field '') = Some (length ?q)"
    using skipsD [OF Cons.prems(2)] skipsD [OF skips_layout [OF assms, of "ly_item L"]] by (simp add: find_from_append)
  have lt: "length p < length ?sec" by (simp add: render_field_def piece_defs)
  obtain e where shape: "field_shape ?sec (length ?q) =
      Some (FieldAt (open_tag f e) (cf_values f) (length ?q + length (render_field L f)))"
    using field_shape_rendered [OF f assms] by blast
  have "fields_loop ?sec (length p) acc =
      fields_loop ?sec (length ?q + length (render_field L f)) (acc @ [f])"
    by (subst fields_loop.simps) (simp add: lt start shape compile_open_tag [OF f] del: append_assoc length_append)
  also have "\<dots> = fields_loop ((?q @ render_field L f) @ [] @ ?rest) (length (?q @ render_field L f)) (acc @ [f])"
    by (simp add: add.assoc)
  also have "\<dots> = Some (Inr ((acc @ [f]) @ fs))" by (rule Cons.IH [OF fs skips_Nil])
  finally show ?case by simp
qed

section \<open>Compiling rendered messages\<close>

lemma name_of_mem:
  assumes "tag \<in> set (map cf_tag fs)" "distinct (map cf_name fs)" "list_all field_ok fs"
  shows "name_to_tag fs (name_of fs tag) = Some tag" "attr_ok (name_of fs tag)"
proof -
  obtain f where f: "find (\<lambda>f. cf_tag f = tag) fs = Some f"
    using assms(1) by (cases "find (\<lambda>f. cf_tag f = tag) fs") (auto simp: find_None_iff)
  then have mem: "f \<in> set fs" and tag: "cf_tag f = tag" by (auto simp: find_Some_iff)
  have "map fst (rev (map (\<lambda>f. (cf_name f, cf_tag f)) fs)) = rev (map cf_name fs)" by (simp add: rev_map o_def)
  then have "distinct (map fst (rev (map (\<lambda>f. (cf_name f, cf_tag f)) fs)))" using assms(2) by simp
  then show "name_to_tag fs (name_of fs tag) = Some tag"
    using mem tag f by (auto simp: name_to_tag_def name_of_def intro!: map_of_is_SomeI)
  show "attr_ok (name_of fs tag)"
    using f mem assms(3) by (auto simp: name_of_def list_all_iff field_ok_def)
qed

lemma render_member_facts:
  assumes "attr_ok (name_of fs t)"
  shows "find_sub (asc ''<field '') (render_member fs (t, r) @ rest) = Some 0"
    "find_sub (asc ''/>'') (render_member fs (t, r) @ rest) = Some (length (render_member fs (t, r)) - 2)"
    "extract_attr (render_member fs (t, r)) (asc ''name'') = Some (name_of fs t)"
    "extract_attr (render_member fs (t, r)) (asc ''required'') = Some (if r then asc ''Y'' else asc ''N'')"
    "2 \<le> length (render_member fs (t, r))"
  using assms
  by (simp_all add: piece_defs find_self_close_skip extract_attr_Cons extract_attr_skip upto_quote_at attr_okD
      upto_quote_Cons)

lemma members_loop_rendered:
  assumes "distinct (map cf_name fs)" "list_all field_ok fs" and ws: "60 \<notin> set ws" "60 \<notin> set post"
  shows "set (map fst ms) \<subseteq> set (map cf_tag fs) \<Longrightarrow>
    members_loop (name_to_tag fs) (p @ spaced ws (render_member fs) ms @ post) (length p) (req, opt) =
      (req @ map fst (filter snd ms), opt @ map fst (filter (Not \<circ> snd) ms))"
proof (induction ms arbitrary: p req opt)
  case Nil
  have "find_sub (asc ''<field '') post = None"
    using skipsD [OF skips_ws [OF ws(2), of "''field ''"], of "[]"] by (simp add: asc_def)
  then show ?case by (subst members_loop.simps) (simp add: find_from_append)
next
  case (Cons x ms)
  obtain t r where x: "x = (t, r)" by (cases x)
  let ?rest = "spaced ws (render_member fs) ms @ post"
  let ?m = "render_member fs (t, r)"
  let ?acc = "if r then (req @ [t], opt) else (req, opt @ [t])"
  have mem: "t \<in> set (map cf_tag fs)" using Cons.prems x by simp
  note nm = name_of_mem [OF mem assms(1,2)]
  note facts = render_member_facts(1,2) [OF nm(2), of r ?rest] render_member_facts(3-5) [OF nm(2), of r]
  have noted: "note_member (name_to_tag fs) ?m (req, opt) = ?acc"
    using facts(3,4) nm(1) by (simp add: note_member_def asc_def)
  have start: "find_from (p @ ws @ ?m @ ?rest) (length p) (asc ''<field '') = Some (length (p @ ws))"
    using facts(1) skipsD [OF skips_ws [OF ws(1)]] by (simp add: find_from_append)
  have stop: "find_from (p @ ws @ ?m @ ?rest) (length (p @ ws)) (asc ''/>'') =
      Some (length (p @ ws) + (length ?m - 2))"
    using facts(2) find_from_append [of "p @ ws" "?m @ ?rest"] by simp
  have ne: "?m \<noteq> []"
    "Suc (Suc (length p + length ws + length ?m - 2)) = length p + (length ws + length ?m)"
    using facts(5) by auto
  have "members_loop (name_to_tag fs) (p @ spaced ws (render_member fs) (x # ms) @ post) (length p) (req, opt) =
      members_loop (name_to_tag fs) ((p @ ws @ ?m) @ ?rest) (length (p @ ws @ ?m)) ?acc"
    using facts(5) start stop noted ne by (subst members_loop.simps) (simp add: x Let_def)
  also have "\<dots> = (fst ?acc @ map fst (filter snd ms), snd ?acc @ map fst (filter (Not \<circ> snd) ms))"
    using Cons.IH [of "p @ ws @ ?m" "fst ?acc" "snd ?acc"] Cons.prems by (simp add: o_def)
  finally show ?case by (simp add: x o_def)
qed

lemma message_tag_facts:
  assumes "attr_ok (cm_name m)" "attr_ok (cm_msg_type m)"
  shows "find_sub (asc ''<message '') (message_tag m @ rest) = Some 0"
    "find_sub (asc ''>'') (message_tag m @ rest) = Some (length (message_tag m) - 1)"
    "extract_attr (message_tag m) (asc ''name'') = Some (cm_name m)"
    "extract_attr (message_tag m) (asc ''msgtype'') = Some (cm_msg_type m)"
    "extract_attr (message_tag m) (asc ''msgcat'') =
       Some (case cm_category m of Admin \<Rightarrow> asc ''admin'' | Application \<Rightarrow> asc ''app'')"
    "1 \<le> length (message_tag m)"
  using assms
  by (simp_all add: piece_defs find_sub_skip extract_attr_Cons extract_attr_skip upto_quote_at attr_okD
      upto_quote_Cons split: MessageCategory.splits)

lemma skips_message_tag:
  assumes "message_ok fs m" "pat \<in> {asc ''</message>'', asc ''</messages>''}"
  shows "skips pat (message_tag m)"
proof -
  let ?ys = "cm_name m @ 34 # asc '' msgtype='' @ 34 # cm_msg_type m @ 34 # asc '' msgcat='' @ 34 #
    (case cm_category m of Admin \<Rightarrow> asc ''admin'' | Application \<Rightarrow> asc ''app'') @ 34 # asc ''>''"
  have "60 \<notin> set ?ys"
    using assms(1) by (auto simp: message_ok_def attr_okD asc_def split: MessageCategory.splits)
  moreover have "message_tag m = 60 # asc ''message name='' @ 34 # ?ys" by (simp add: piece_defs)
  ultimately show ?thesis using assms(2) skips_tag [of "asc ''message name=''" "34 # ?ys"]
    by (auto simp: asc_def)
qed

lemma skips_member:
  assumes "attr_ok (name_of fs (fst x))" "pat \<in> {asc ''</message>'', asc ''</messages>''}"
  shows "skips pat (render_member fs x)"
proof -
  let ?ys = "name_of fs (fst x) @ 34 # asc '' required='' @ 34 # (if snd x then asc ''Y'' else asc ''N'') @ 34 # asc ''/>''"
  have "60 \<notin> set ?ys" using assms(1) by (auto simp: attr_okD asc_def)
  moreover have "render_member fs x = 60 # asc ''field name='' @ 34 # ?ys" by (cases x) (simp add: piece_defs)
  ultimately show ?thesis using assms(2) skips_tag [of "asc ''field name=''" "34 # ?ys"]
    by (auto simp: asc_def)
qed

lemma members_of_split:
  "map fst (filter snd (members_of m)) = cm_required_fields m"
  "map fst (filter (Not \<circ> snd) (members_of m)) = cm_optional_fields m"
  by (simp_all add: members_of_def filter_map o_def)

lemma category_of_rendered: "category_of (case c of Admin \<Rightarrow> asc ''admin'' | Application \<Rightarrow> asc ''app'') = c"
  by (simp add: category_of_def asc_def split: MessageCategory.splits)

lemma skips_members:
  assumes "message_ok fs m" "distinct (map cf_name fs)" "list_all field_ok fs"
    and "pat \<in> {asc ''</message>'', asc ''</messages>''}" "layout_ok L"
  shows "skips pat (spaced (ly_part L) (render_member fs) (members_of m))"
proof (rule skips_spaced)
  show "skips pat (ly_part L)" using assms(4,5) by (auto intro: skips_layout)
next
  fix x assume "x \<in> set (members_of m)"
  then have "fst x \<in> set (map cf_tag fs)" using assms(1) by (auto simp: members_of_def message_ok_def)
  then have "attr_ok (name_of fs (fst x))" using assms(2,3) by (rule name_of_mem(2))
  then show "skips pat (render_member fs x)" using assms(4) by (rule skips_member)
qed

lemma messages_loop_rendered:
  assumes "distinct (map cf_name fs)" "list_all field_ok fs" "layout_ok L"
  shows "list_all (message_ok fs) ms \<Longrightarrow> skips (asc ''<message '') gap \<Longrightarrow>
    messages_loop (name_to_tag fs) (p @ gap @ spaced (ly_item L) (render_message L fs) ms @ ly_section L) (length p) acc =
      Some (Inr (acc @ ms))"
proof (induction ms arbitrary: p gap acc)
  case Nil
  have "find_sub (asc ''<message '') (gap @ ly_section L) = None"
    using skipsD [OF skips_append [OF Nil.prems(2) skips_layout [OF assms(3)]], of "ly_section L" "[]"]
    by (simp add: asc_def)
  then show ?case by (subst messages_loop.simps) (simp add: find_from_append)
next
  case (Cons m ms)
  let ?body = "spaced (ly_part L) (render_member fs) (members_of m) @ ly_item L"
  let ?fin = "asc ''</message>''"
  let ?rest = "spaced (ly_item L) (render_message L fs) ms @ ly_section L"
  let ?q = "p @ gap @ ly_item L"
  let ?sec = "?q @ message_tag m @ ?body @ ?fin @ ?rest"
  have m: "message_ok fs m" and ms: "list_all (message_ok fs) ms" using Cons.prems by simp_all
  then have ok: "attr_ok (cm_name m)" "attr_ok (cm_msg_type m)" by (simp_all add: message_ok_def)
  note tag = message_tag_facts(1,2) [OF ok, of "?body @ ?fin @ ?rest"] message_tag_facts(3-6) [OF ok]
  have start: "find_from ?sec (length p) (asc ''<message '') = Some (length ?q)"
    using skipsD [OF Cons.prems(2)] skipsD [OF skips_layout [OF assms(3), of "ly_item L"]] tag(1)
    by (simp add: find_from_append)
  have header: "find_from ?sec (length ?q) (asc ''>'') = Some (length ?q + length (message_tag m) - 1)"
    using tag(2,6) find_from_append [of ?q "message_tag m @ ?body @ ?fin @ ?rest"] by simp
  have hd_eq: "length ?q + length (message_tag m) - 1 + 1 = length ?q + length (message_tag m)" using tag(6) by simp
  have tagtext: "str_slice ?sec (length ?q) (length ?q + length (message_tag m)) = Some (message_tag m)"
    by (rule str_slice_append)
  have "skips ?fin (message_tag m @ ?body)"
    using m assms by (intro skips_append skips_message_tag skips_members skips_layout [OF assms(3)]) auto
  from skipsD [OF this, of "?fin @ ?rest"]
  have "find_sub ?fin (message_tag m @ ?body @ ?fin @ ?rest) = Some (length (message_tag m @ ?body))"
    by (simp add: asc_def)
  then have close: "find_from ?sec (length ?q) ?fin = Some (length ?q + length (message_tag m @ ?body))"
    using find_from_append [of ?q "message_tag m @ ?body @ ?fin @ ?rest"] by simp
  have body: "str_slice ?sec (length ?q + length (message_tag m)) (length ?q + length (message_tag m @ ?body)) = Some ?body"
    using str_slice_append [of "?q @ message_tag m" ?body "?fin @ ?rest"] by (simp add: add.assoc)
  have "set (map fst (members_of m)) \<subseteq> set (map cf_tag fs)" using m by (auto simp: members_of_def message_ok_def)
  from members_loop_rendered [OF assms(1,2) _ _ this, of "ly_part L" "ly_item L" "[]" "[]" "[]"]
  have members: "members_loop (name_to_tag fs) ?body 0 ([], []) = (cm_required_fields m, cm_optional_fields m)"
    using assms(3) by (simp add: members_of_split layout_ok_def)
  have next_pos: "length ?q + length (message_tag m @ ?body) + 10 = length (?q @ render_message L fs m)"
    by (simp add: render_message_def) (simp add: asc_def)
  have lt: "length p < length ?sec" using tag(6) by (cases "message_tag m") simp_all
  have eta: "\<lparr>cm_msg_type = cm_msg_type m, cm_name = cm_name m, cm_category = cm_category m,
      cm_required_fields = cm_required_fields m, cm_optional_fields = cm_optional_fields m\<rparr> = m"
    by (cases m) simp
  have "messages_loop (name_to_tag fs) ?sec (length p) acc =
      messages_loop (name_to_tag fs) ?sec (length ?q + length (message_tag m @ ?body) + 10) (acc @ [m])"
    by (subst messages_loop.simps)
      (simp only: start header hd_eq tagtext tag(3-5) close body members lt if_True option.case Let_def
        prod.case category_of_rendered eta)
  also have "\<dots> = messages_loop (name_to_tag fs) ((?q @ render_message L fs m) @ [] @ ?rest)
      (length (?q @ render_message L fs m)) (acc @ [m])"
    by (simp only: next_pos) (simp add: render_message_def [of L fs m])
  also have "\<dots> = Some (Inr ((acc @ [m]) @ ms))" by (rule Cons.IH [OF ms skips_Nil])
  finally show ?case by (simp add: render_message_def [of L fs m])
qed

section \<open>Whole dictionaries\<close>

lemma version_of_tag:
  assumes "attr_ok major" "attr_ok minor"
  shows "parse_version (fix_tag major minor @ rest) = Some (Inr (asc ''FIX.'' @ major @ asc ''.'' @ minor))"
proof -
  let ?t = "fix_tag major minor"
  have start: "find_sub (asc ''<fix '') (?t @ rest) = Some 0" by (simp add: fix_tag_def asc_def)
  have stop: "find_sub (asc ''>'') (?t @ rest) = Some (length ?t - 1)" "1 \<le> length ?t"
    using assms by (simp_all add: fix_tag_def asc_def find_sub_skip attr_okD)
  have attrs: "extract_attr ?t (asc ''major'') = Some major" "extract_attr ?t (asc ''minor'') = Some minor"
    using assms by (simp_all add: fix_tag_def asc_def extract_attr_Cons extract_attr_skip upto_quote_at attr_okD)
  have "find_from (?t @ rest) 0 (asc ''>'') = Some (length ?t - 1)"
    using stop find_from_append [of "[]" "?t @ rest" "asc ''>''"] by simp
  moreover have "str_slice (?t @ rest) 0 (length ?t - 1 + 1) = Some ?t"
    by (simp only: le_add_diff_inverse2 [OF stop(2)]) (simp add: str_slice_def)
  ultimately show ?thesis using start attrs by (simp add: parse_version_def need_def)
qed

lemma skips_fix_tag:
  assumes "attr_ok major" "attr_ok minor" "pat \<in> {asc ''<fields>'', asc ''<messages>''}"
  shows "skips pat (fix_tag major minor)"
proof -
  let ?ys = "major @ 34 # asc '' minor='' @ 34 # minor @ 34 # asc ''>''"
  have "60 \<notin> set ?ys" using assms by (auto simp: attr_okD asc_def)
  moreover have "fix_tag major minor = 60 # asc ''fix major='' @ 34 # ?ys" by (simp add: fix_tag_def asc_def)
  ultimately show ?thesis using assms(3) skips_tag [of "asc ''fix major=''" "34 # ?ys"] by (auto simp: asc_def)
qed

lemma skips_fields_text:
  assumes "list_all field_ok fs" "layout_ok L" "pat \<in> {asc ''</fields>'', asc ''<messages>''}"
  shows "skips pat (fields_text L fs)"
proof -
  have "skips pat (asc ''<fields>'')"
    using assms(3) skips_tag [of "asc ''fields>''" "[]"] by (auto simp: asc_def)
  moreover have "skips pat (ly_item L)" "skips pat (ly_section L)" using assms(2,3) by (auto intro: skips_layout)
  ultimately show ?thesis
    using assms unfolding fields_text_def by (intro skips_append skips_spaced skips_field) (auto simp: list_all_iff)
qed

lemma fields_of_text:
  assumes "skips (asc ''<fields>'') p" "list_all field_ok fs" "layout_ok L"
  shows "parse_fields (p @ fields_text L fs @ asc ''</fields>'' @ rest) = Some (Inr fs)"
proof -
  let ?xml = "p @ fields_text L fs @ asc ''</fields>'' @ rest"
  have "find_sub (asc ''<fields>'') (fields_text L fs @ asc ''</fields>'' @ rest) = Some 0"
    by (simp add: fields_text_def asc_def)
  then have start: "find_sub (asc ''<fields>'') ?xml = Some (length p)"
    using skipsD [OF assms(1)] by simp
  have "find_sub (asc ''</fields>'') (fields_text L fs @ asc ''</fields>'' @ rest) = Some (length (fields_text L fs))"
    using skipsD [OF skips_fields_text [OF assms(2,3)], of "asc ''</fields>''"] by (simp add: asc_def)
  then have stop: "find_from ?xml (length p) (asc ''</fields>'') = Some (length p + length (fields_text L fs))"
    by (simp add: find_from_append)
  have "skips (asc ''<field '') (asc ''<fields>'')"
    using skips_tag [of "asc ''fields>''" "[]"] by (simp add: asc_def)
  from fields_loop_rendered [OF assms(3,2) this, of "[]" "[]"]
  have "fields_loop (fields_text L fs) 0 [] = Some (Inr fs)" by (simp add: fields_text_def)
  then show ?thesis using start stop str_slice_append [of p "fields_text L fs"]
    by (simp add: parse_fields_def need_def)
qed

lemma skips_message:
  assumes "message_ok fs m" "distinct (map cf_name fs)" "list_all field_ok fs" "layout_ok L"
  shows "skips (asc ''</messages>'') (render_message L fs m)"
proof -
  let ?pat = "asc ''</messages>''"
  have "skips ?pat (asc ''</message>'')" using skips_tag [of "asc ''/message>''" "[]"] by (simp add: asc_def)
  moreover have "skips ?pat (message_tag m)" by (rule skips_message_tag [OF assms(1)]) simp
  moreover have "skips ?pat (spaced (ly_part L) (render_member fs) (members_of m))"
    by (rule skips_members [OF assms(1-3) _ assms(4)]) simp
  moreover have "skips ?pat (ly_item L)" by (rule skips_layout [OF assms(4)]) simp
  ultimately show ?thesis by (simp add: render_message_def skips_append)
qed

lemma messages_of_text:
  assumes "list_all (message_ok fs) ms" "distinct (map cf_name fs)" "list_all field_ok fs"
    and "skips (asc ''<messages>'') p" "layout_ok L"
  shows "parse_messages (p @ messages_text L fs ms @ asc ''</messages>'' @ rest) (name_to_tag fs) = Some (Inr ms)"
proof -
  let ?fin = "asc ''</messages>'' @ rest"
  let ?xml = "p @ messages_text L fs ms @ ?fin"
  have "find_sub (asc ''<messages>'') (messages_text L fs ms @ ?fin) = Some 0"
    by (simp add: messages_text_def asc_def)
  then have start: "find_sub (asc ''<messages>'') ?xml = Some (length p)"
    using skipsD [OF assms(4)] by simp
  have "skips (asc ''</messages>'') (asc ''<messages>'')"
    using skips_tag [of "asc ''messages>''" "[]"] by (simp add: asc_def)
  moreover have "skips (asc ''</messages>'') (ly_item L)" "skips (asc ''</messages>'') (ly_section L)"
    by (simp_all add: skips_layout [OF assms(5)])
  ultimately have "skips (asc ''</messages>'') (messages_text L fs ms)"
    using assms unfolding messages_text_def
    by (auto simp: list_all_iff intro!: skips_append skips_spaced skips_message)
  then have "find_sub (asc ''</messages>'') (messages_text L fs ms @ ?fin) = Some (length (messages_text L fs ms))"
    using skipsD [of "asc ''</messages>''"] by (simp add: asc_def)
  then have stop: "find_from ?xml (length p) (asc ''</messages>'') = Some (length p + length (messages_text L fs ms))"
    by (simp add: find_from_append)
  have "skips (asc ''<message '') (asc ''<messages>'')"
    using skips_tag [of "asc ''messages>''" "[]"] by (simp add: asc_def)
  from messages_loop_rendered [OF assms(2,3,5,1) this, of "[]" "[]"]
  have "messages_loop (name_to_tag fs) (messages_text L fs ms) 0 [] = Some (Inr ms)" by (simp add: messages_text_def)
  then show ?thesis using start stop str_slice_append [of p "messages_text L fs ms"]
    by (simp add: parse_messages_def need_def)
qed

lemma from_xml_rendered:
  assumes "attr_ok major" "attr_ok minor" "layout_ok L" "dictionary_ok fs ms" "memory (index_size fs)"
  shows "from_xml memory (render_dictionary L major minor fs ms trailer) =
    Some (Inr \<lparr>cd_fix_version = asc ''FIX.'' @ major @ asc ''.'' @ minor, cd_fields = fs, cd_messages = ms,
               cd_tag_index = the (build_tag_index memory fs)\<rparr>)"
proof -
  let ?xml = "render_dictionary L major minor fs ms trailer"
  have ok: "list_all field_ok fs" "distinct (map cf_name fs)" "list_all (message_ok fs) ms"
    using assms(4) by (simp_all add: dictionary_ok_def)
  let ?p = "fix_tag major minor @ ly_section L"
  let ?q = "?p @ fields_text L fs @ asc ''</fields>'' @ ly_section L"
  have "skips (asc ''<messages>'') (asc ''</fields>'')"
    using skips_tag [of "asc ''/fields>''" "[]"] by (simp add: asc_def)
  moreover have "skips (asc ''<messages>'') (ly_section L)" by (simp add: skips_layout [OF assms(3)])
  ultimately have "skips (asc ''<messages>'') ?q"
    using assms ok by (intro skips_append skips_fix_tag skips_fields_text) auto
  from messages_of_text [OF ok(3,2,1) this assms(3)]
  have messages: "parse_messages ?xml (name_to_tag fs) = Some (Inr ms)"
    by (simp add: render_dictionary_def)
  have "skips (asc ''<fields>'') ?p"
    using assms by (intro skips_append skips_fix_tag skips_layout [OF assms(3)]) auto
  from fields_of_text [OF this ok(1) assms(3)]
  have fs: "parse_fields ?xml = Some (Inr fs)" by (simp add: render_dictionary_def)
  have version: "parse_version ?xml = Some (Inr (asc ''FIX.'' @ major @ asc ''.'' @ minor))"
    using version_of_tag [OF assms(1,2)] by (simp add: render_dictionary_def)
  obtain ix where "build_tag_index memory fs = Some ix" using build_tag_index_rep [of memory, OF assms(5)] by blast
  then show ?thesis using version fs messages by (simp add: from_xml_def)
qed

text \<open>The dictionary that ships with the source.\<close>

definition TEST_DICTIONARY_XML :: bytes where
  "TEST_DICTIONARY_XML = asc (tl (concat (map ((@) [CHR 0x0A])
     [''<fix major=\"4\" minor=\"4\">'',
      ''  <fields>'',
      ''    <field number=\"8\" name=\"BeginString\" type=\"STRING\"/>'',
      ''    <field number=\"9\" name=\"BodyLength\" type=\"LENGTH\"/>'',
      ''    <field number=\"10\" name=\"CheckSum\" type=\"STRING\"/>'',
      ''    <field number=\"11\" name=\"ClOrdID\" type=\"STRING\"/>'',
      ''    <field number=\"35\" name=\"MsgType\" type=\"STRING\"/>'',
      ''    <field number=\"38\" name=\"OrderQty\" type=\"QTY\"/>'',
      ''    <field number=\"40\" name=\"OrdType\" type=\"CHAR\"/>'',
      ''    <field number=\"44\" name=\"Price\" type=\"PRICE\"/>'',
      ''    <field number=\"49\" name=\"SenderCompID\" type=\"STRING\"/>'',
      ''    <field number=\"54\" name=\"Side\" type=\"CHAR\">'',
      ''      <value enum=\"1\" description=\"BUY\"/>'',
      ''      <value enum=\"2\" description=\"SELL\"/>'',
      ''    </field>'',
      ''    <field number=\"55\" name=\"Symbol\" type=\"STRING\"/>'',
      ''    <field number=\"56\" name=\"TargetCompID\" type=\"STRING\"/>'',
      ''    <field number=\"98\" name=\"EncryptMethod\" type=\"INT\"/>'',
      ''    <field number=\"108\" name=\"HeartBtInt\" type=\"INT\"/>'',
      ''    <field number=\"112\" name=\"TestReqID\" type=\"STRING\"/>'',
      ''  </fields>'',
      ''  <messages>'',
      ''    <message name=\"Heartbeat\" msgtype=\"0\" msgcat=\"admin\">'',
      ''      <field name=\"TestReqID\" required=\"N\"/>'',
      ''    </message>'',
      ''    <message name=\"Logon\" msgtype=\"A\" msgcat=\"admin\">'',
      ''      <field name=\"EncryptMethod\" required=\"Y\"/>'',
      ''      <field name=\"HeartBtInt\" required=\"Y\"/>'',
      ''    </message>'',
      ''    <message name=\"NewOrderSingle\" msgtype=\"D\" msgcat=\"app\">'',
      ''      <field name=\"ClOrdID\" required=\"Y\"/>'',
      ''      <field name=\"Symbol\" required=\"Y\"/>'',
      ''      <field name=\"Side\" required=\"Y\"/>'',
      ''      <field name=\"OrderQty\" required=\"Y\"/>'',
      ''      <field name=\"OrdType\" required=\"Y\"/>'',
      ''      <field name=\"Price\" required=\"N\"/>'',
      ''    </message>'',
      ''  </messages>'',
      ''</fix>''])))"

definition test_fields :: "CompiledFieldDef list" where
  "test_fields = map (\<lambda>(t, n, ty, vs). \<lparr>cf_tag = t, cf_name = asc n, cf_field_type = asc ty, cf_values = vs\<rparr>)
     [(8, ''BeginString'', ''STRING'', []),
      (9, ''BodyLength'', ''LENGTH'', []),
      (10, ''CheckSum'', ''STRING'', []),
      (11, ''ClOrdID'', ''STRING'', []),
      (35, ''MsgType'', ''STRING'', []),
      (38, ''OrderQty'', ''QTY'', []),
      (40, ''OrdType'', ''CHAR'', []),
      (44, ''Price'', ''PRICE'', []),
      (49, ''SenderCompID'', ''STRING'', []),
      (54, ''Side'', ''CHAR'', [(asc ''1'', asc ''BUY''), (asc ''2'', asc ''SELL'')]),
      (55, ''Symbol'', ''STRING'', []),
      (56, ''TargetCompID'', ''STRING'', []),
      (98, ''EncryptMethod'', ''INT'', []),
      (108, ''HeartBtInt'', ''INT'', []),
      (112, ''TestReqID'', ''STRING'', [])]"

definition test_messages :: "CompiledMessageDef list" where
  "test_messages =
     [\<lparr>cm_msg_type = asc ''0'', cm_name = asc ''Heartbeat'', cm_category = Admin,
       cm_required_fields = [], cm_optional_fields = [112]\<rparr>,
      \<lparr>cm_msg_type = asc ''A'', cm_name = asc ''Logon'', cm_category = Admin,
       cm_required_fields = [98, 108], cm_optional_fields = []\<rparr>,
      \<lparr>cm_msg_type = asc ''D'', cm_name = asc ''NewOrderSingle'', cm_category = Application,
       cm_required_fields = [11, 55, 54, 38, 40], cm_optional_fields = [44]\<rparr>]"

definition test_layout :: Layout where
  "test_layout = \<lparr>ly_section = [10, 32, 32], ly_item = [10, 32, 32, 32, 32], ly_part = [10, 32, 32, 32, 32, 32, 32]\<rparr>"

lemma test_ok: "attr_ok (asc ''4'')" "layout_ok test_layout" "dictionary_ok test_fields test_messages"
proof -
  show "attr_ok (asc ''4'')" by (simp add: attr_ok_def asc_def)
  show "layout_ok test_layout" by (simp add: layout_ok_def test_layout_def)
  have "list_all field_ok test_fields"
    by (simp add: test_fields_def field_ok_def attr_ok_def asc_def)
  moreover have "distinct (map cf_name test_fields)" by (simp add: test_fields_def asc_def)
  moreover have "list_all (message_ok test_fields) test_messages"
    by (simp add: test_fields_def test_messages_def message_ok_def attr_ok_def asc_def)
  ultimately show "dictionary_ok test_fields test_messages" by (simp add: dictionary_ok_def)
qed

lemma test_dictionary_rendered:
  "TEST_DICTIONARY_XML =
     render_dictionary test_layout (asc ''4'') (asc ''4'') test_fields test_messages (asc (CHR 0x0A # ''</fix>''))"
  by (simp add: TEST_DICTIONARY_XML_def render_dictionary_def fix_tag_def fields_text_def messages_text_def
      render_field_def render_message_def members_of_def name_of_def test_layout_def test_fields_def test_messages_def
      piece_defs dec.simps digit_def)

lemma test_index_size: "index_size test_fields = 113"
  by (simp add: index_size_def test_fields_def)

lemma test_compiles:
  assumes "memory 113"
  shows "from_xml memory TEST_DICTIONARY_XML =
    Some (Inr \<lparr>cd_fix_version = asc ''FIX.'' @ asc ''4'' @ asc ''.'' @ asc ''4'', cd_fields = test_fields,
               cd_messages = test_messages, cd_tag_index = the (build_tag_index memory test_fields)\<rparr>)"
  unfolding test_dictionary_rendered
  by (rule from_xml_rendered [OF test_ok(1) test_ok(1) test_ok(2,3)]) (simp add: test_index_size assms)

text \<open>At a fixed version and layout, and with memory, the XML form is a codec of dictionaries: it is injective.\<close>

definition read_dictionary :: "bytes \<Rightarrow> (CompiledFieldDef list \<times> CompiledMessageDef list) option" where
  "read_dictionary xml =
     (case from_xml (\<lambda>_. True) xml of Some (Inr d) \<Rightarrow> Some (cd_fields d, cd_messages d) | _ \<Rightarrow> None)"

interpretation xml_codec: codec "\<lambda>(fs, ms). dictionary_ok fs ms"
  "\<lambda>(fs, ms). render_dictionary test_layout (asc ''4'') (asc ''4'') fs ms []" read_dictionary
  by unfold_locales
    (auto simp: read_dictionary_def from_xml_rendered [OF test_ok(1) test_ok(1) test_ok(2)])

section \<open>Properties\<close>

text \<open>
  C14. Compiling a written dictionary gives the dictionary back: the same version, fields (with their
  enumerated values) and messages (category, required and optional tags), and a lookup by tag that agrees
  with the fields. The written form is the one of the shipped dictionary: a QuickFIX-like text with fixed
  attribute order and three spacing strings of its own, one in front of each section, one in front of each
  field and message and one in front of each of their parts; every \<open><field\<close>, \<open><value\<close> and \<open><message\<close> is followed by a space.
  Nothing is escaped, so attribute values hold no \<open>\"\<close>, \<open><\<close>, \<open>>\<close> or \<open>=\<close>; field names are distinct and the members of
  messages are declared fields. The allocator can serve an index with a slot for every number up to the
  largest tag. The shipped dictionary is an instance.
\<close>

theorem dictionary_roundtrip:
  assumes "attr_ok major" "attr_ok minor" "layout_ok L" "dictionary_ok fs ms" "memory (index_size fs)"
  shows "\<exists>d. from_xml memory (render_dictionary L major minor fs ms trailer) = Some (Inr d) \<and>
     cd_fix_version d = asc ''FIX.'' @ major @ asc ''.'' @ minor \<and> cd_fields d = fs \<and> cd_messages d = ms \<and>
     (\<forall>tag. lookup_field d tag = Some (find (\<lambda>f. cf_tag f = tag) (rev fs)))"
proof -
  let ?d = "\<lparr>cd_fix_version = asc ''FIX.'' @ major @ asc ''.'' @ minor, cd_fields = fs, cd_messages = ms,
             cd_tag_index = the (build_tag_index memory fs)\<rparr>"
  have d: "from_xml memory (render_dictionary L major minor fs ms trailer) = Some (Inr ?d)"
    using assms by (rule from_xml_rendered)
  then have "lookup_field ?d tag = Some (find (\<lambda>f. cf_tag f = tag) (rev fs))" for tag
    using lookup_field_last [OF from_xml_index [OF d]] by simp
  with d show ?thesis by (intro exI [of _ ?d]) simp
qed

theorem dictionary_roundtrip_witness:
  "\<exists>d. from_xml (\<lambda>n. n \<le> 200) TEST_DICTIONARY_XML = Some (Inr d) \<and> cd_fix_version d = asc ''FIX.4.4'' \<and>
     cd_fields d = test_fields \<and> cd_messages d = test_messages \<and>
     (\<forall>tag. lookup_field d tag = Some (find (\<lambda>f. cf_tag f = tag) (rev test_fields)))"
proof -
  have "(\<lambda>n. n \<le> 200) (index_size test_fields)" by (simp add: test_index_size)
  from dictionary_roundtrip [of _ _ _ _ _ "\<lambda>n. n \<le> 200", OF test_ok(1) test_ok(1) test_ok(2,3) this,
      where trailer = "asc (CHR 0x0A # ''</fix>'')", folded test_dictionary_rendered]
  show ?thesis by (simp add: asc_def)
qed

text \<open>
  What the form excludes: a tag name that is followed by a line break is not recognised, and the field is
  silently missing from the compiled dictionary.
\<close>

lemma broken_line_field_skipped:
  "parse_fields (asc ''<fields><field'' @ [10] @ asc ''number=\"1\" name=\"A\" type=\"B\"/></fields>'') = Some (Inr [])"
  by (simp add: parse_fields_def need_def find_from_def str_slice_def asc_def fields_loop.simps)

text \<open>
  Validation against a compiled dictionary never panics; it reports nothing exactly when the message
  type is known and every required tag is present, and otherwise one text for each missing tag.
\<close>

theorem validate_message_correct:
  assumes "from_xml memory xml = Some (Inr d)"
  shows "\<exists>es. validate_message d msg_type present = Some es \<and>
     (es = [] \<longleftrightarrow> (\<exists>m. lookup_message d msg_type = Some m \<and> set (cm_required_fields m) \<subseteq> set present)) \<and>
     length es = (case lookup_message d msg_type of None \<Rightarrow> 1
        | Some m \<Rightarrow> length (filter (\<lambda>t. t \<notin> set present) (cm_required_fields m)))"
proof (cases "lookup_message d msg_type")
  case None
  then show ?thesis by (simp add: validate_message_def)
next
  case (Some m)
  have "filter (\<lambda>t. t \<notin> set present) (cm_required_fields m) = [] \<longleftrightarrow> set (cm_required_fields m) \<subseteq> set present"
    by (auto simp: filter_empty_conv)
  then show ?thesis
    using Some by (simp add: validate_message_def missing_texts_all [OF from_xml_index [OF assms]])
qed

theorem validate_message_correct_witness:
  "\<exists>d es. from_xml (\<lambda>_. True) TEST_DICTIONARY_XML = Some (Inr d) \<and>
     validate_message d (asc ''D'') [11, 55] = Some es \<and> length es = 3"
proof -
  obtain d where d: "from_xml (\<lambda>_. True) TEST_DICTIONARY_XML = Some (Inr d)" and ms: "cd_messages d = test_messages"
    using test_compiles by simp
  have "lookup_message d (asc ''D'') = Some (test_messages ! 2)"
    by (simp add: lookup_message_def ms test_messages_def asc_def)
  then show ?thesis using validate_message_correct [OF d, of "asc ''D''" "[11, 55]"] d
    by (auto simp: test_messages_def)
qed

text \<open>
  The compiler panics on a document whose field tag is not closed before the closing tag of the
  field: it takes the end of \<open></field>\<close> for the end of the opening tag and slices backwards.
\<close>

theorem unclosed_field_panics: "from_xml memory (fix_tag (asc ''4'') (asc ''4'') @ asc ''<fields><field x</field></fields>'') = None"
proof -
  let ?t = "fix_tag (asc ''4'') (asc ''4'')"
  let ?sec = "asc ''<fields><field x</field>''"
  let ?xml = "?t @ ?sec @ asc ''</fields>''"
  have xml: "?t @ asc ''<fields><field x</field></fields>'' = ?xml" by (simp add: asc_def)
  have start: "find_sub (asc ''<fields>'') ?xml = Some (length ?t)"
    using skipsD [OF skips_fix_tag [OF test_ok(1) test_ok(1)], of "asc ''<fields>''"] by (simp add: asc_def)
  have stop: "find_from ?xml (length ?t) (asc ''</fields>'') = Some (length ?t + length ?sec)"
    by (simp add: find_from_append) (simp add: asc_def)
  have "field_shape ?sec 8 = None"
    by (simp add: field_shape_def field_children_def find_from_def str_slice_def asc_def)
  moreover have "find_from ?sec 0 (asc ''<field '') = Some 8" "0 < length ?sec"
    by (simp_all add: find_from_def asc_def)
  ultimately have "fields_loop ?sec 0 [] = None"
    by (subst fields_loop.simps) (simp only: if_True option.case)
  then have "parse_fields ?xml = None"
    using start stop str_slice_append [of ?t ?sec] by (simp add: parse_fields_def need_def)
  then show ?thesis using version_of_tag [OF test_ok(1) test_ok(1)] by (simp add: xml from_xml_def)
qed

text \<open>The standard fields have distinct tags, and each is found under its own.\<close>

lemma standard_tags_distinct: "distinct (map fd_tag STANDARD_FIELDS)"
  by (simp add: STANDARD_FIELDS_def)

lemma find_key: "x \<in> set xs \<Longrightarrow> distinct (map f xs) \<Longrightarrow> find (\<lambda>y. f y = f x) xs = Some x"
  by (induction xs) (auto simp: image_iff)

lemma lookup_standard_complete: "f \<in> set STANDARD_FIELDS \<Longrightarrow> lookup_standard (fd_tag f) = Some f"
  unfolding lookup_standard_def by (rule find_key [OF _ standard_tags_distinct])

end
