(* ===== verification/Json.thy ===== *)
theory Json
  imports Prelude
begin

text \<open>
  JSON text: the escaping of \<open>src/src/dashboard.rs\<close>, and a reference reader of JSON that the
  dashboard's hand-written documents are judged by. The reader accepts the documents without white
  space and the escapes below \<open>\u0080\<close>; it takes fuel, and twice the length of the text is enough.
\<close>

section \<open>Escaping\<close>

text \<open>A lower-case hexadecimal digit, and the four of \<open>{:04x}\<close> for a number below 256.\<close>

definition hex_digit :: "nat \<Rightarrow> byte" where
  "hex_digit n = (if n < 10 then 48 + of_nat n else 87 + of_nat n)"

definition escape_char :: "byte \<Rightarrow> bytes" where
  "escape_char c =
     (if c = 34 then [92, 34] else if c = 92 then [92, 92] else if c = 10 then [92, 110]
      else if c = 13 then [92, 114] else if c = 9 then [92, 116]
      else if c < 0x20 then [92, 117, 48, 48, hex_digit (unat c div 16), hex_digit (unat c mod 16)]
      else [c])"

text \<open>
  Escaping works on characters; those it changes are ASCII, and the bytes of the others are at least
  \<open>0x80\<close>, so it works byte by byte on the encoding.
\<close>

definition json_escape :: "bytes \<Rightarrow> bytes" where
  "json_escape s = concat (map escape_char s)"

section \<open>The reference reader\<close>

datatype json = JStr bytes | JNum nat | JBool bool | JArr "json list" | JObj "(bytes \<times> json) list"

definition hex_value :: "byte \<Rightarrow> nat option" where
  "hex_value b =
     (if 48 \<le> b \<and> b \<le> 57 then Some (unat b - 48) else if 97 \<le> b \<and> b \<le> 102 then Some (unat b - 87)
      else if 65 \<le> b \<and> b \<le> 70 then Some (unat b - 55) else None)"

definition unescape :: "byte \<Rightarrow> byte option" where
  "unescape e =
     (if e = 34 \<or> e = 92 \<or> e = 47 then Some e else if e = 110 then Some 10 else if e = 114 then Some 13
      else if e = 116 then Some 9 else if e = 98 then Some 8 else if e = 102 then Some 12 else None)"

definition unicode_escape :: "bytes \<Rightarrow> byte option" where
  "unicode_escape ds =
     (case map hex_value ds of
        [Some 0, Some 0, Some x, Some y] \<Rightarrow> if x < 8 then Some (of_nat (16 * x + y)) else None
      | _ \<Rightarrow> None)"

fun json_string :: "bytes \<Rightarrow> (bytes \<times> bytes) option" where
  "json_string [] = None"
| "json_string (c # r) =
     (if c = 34 then Some ([], r)
      else if c < 0x20 then None
      else if c = 92 then
        (case r of [] \<Rightarrow> None
         | e # t \<Rightarrow>
             (case (if e = 117 then unicode_escape (take 4 t) else unescape e) of None \<Rightarrow> None
              | Some v \<Rightarrow> map_option (apfst ((#) v)) (json_string (if e = 117 then drop 4 t else t))))
      else map_option (apfst ((#) c)) (json_string r))"

definition decimal :: "bytes \<Rightarrow> nat" where
  "decimal ds = foldl (\<lambda>a b. 10 * a + (unat b - 48)) 0 ds"

fun json_val :: "nat \<Rightarrow> bytes \<Rightarrow> (json \<times> bytes) option"
  and json_elems :: "nat \<Rightarrow> bytes \<Rightarrow> (json list \<times> bytes) option"
  and json_members :: "nat \<Rightarrow> bytes \<Rightarrow> ((bytes \<times> json) list \<times> bytes) option" where
  "json_val 0 s = None"
| "json_val (Suc n) s =
     (case s of [] \<Rightarrow> None
      | c # r \<Rightarrow>
          if c = 34 then map_option (apfst JStr) (json_string r)
          else if c = 91 then
            (if take 1 r = [93] then Some (JArr [], tl r) else map_option (apfst JArr) (json_elems n r))
          else if c = 123 then
            (if take 1 r = [125] then Some (JObj [], tl r) else map_option (apfst JObj) (json_members n r))
          else if take 4 s = asc ''true'' then Some (JBool True, drop 4 s)
          else if take 5 s = asc ''false'' then Some (JBool False, drop 5 s)
          else if is_digit c then Some (JNum (decimal (takeWhile is_digit s)), dropWhile is_digit s)
          else None)"
| "json_elems 0 s = None"
| "json_elems (Suc n) s =
     (case json_val n s of
        Some (v, c # r) \<Rightarrow>
          if c = 44 then map_option (apfst ((#) v)) (json_elems n r)
          else if c = 93 then Some ([v], r) else None
      | _ \<Rightarrow> None)"
| "json_members 0 s = None"
| "json_members (Suc n) s =
     (case s of [] \<Rightarrow> None
      | q # t \<Rightarrow>
          if q = 34 then
            (case json_string t of
               Some (k, d # u) \<Rightarrow>
                 if d = 58 then
                   (case json_val n u of
                      Some (v, c # r) \<Rightarrow>
                        if c = 44 then map_option (apfst ((#) (k, v))) (json_members n r)
                        else if c = 125 then Some ([(k, v)], r) else None
                    | _ \<Rightarrow> None)
                 else None
             | _ \<Rightarrow> None)
          else None)"

definition json_read :: "bytes \<Rightarrow> json option" where
  "json_read s = (case json_val (2 * length s) s of Some (v, []) \<Rightarrow> Some v | _ \<Rightarrow> None)"

section \<open>Printing\<close>

fun commas :: "bytes list \<Rightarrow> bytes" where
  "commas [] = []"
| "commas [x] = x"
| "commas (x # y # xs) = x @ 44 # commas (y # xs)"

fun json_print :: "json \<Rightarrow> bytes" where
  "json_print (JStr s) = 34 # json_escape s @ [34]"
| "json_print (JNum n) = dec n"
| "json_print (JBool b) = (if b then asc ''true'' else asc ''false'')"
| "json_print (JArr vs) = 91 # commas (map json_print vs) @ [93]"
| "json_print (JObj ms) = 123 # commas (map (\<lambda>(k, v). 34 # json_escape k @ 34 # 58 # json_print v) ms) @ [125]"

section \<open>Reading what is printed\<close>

lemma hex_value_digit:
  assumes "n < 16" shows "hex_value (hex_digit n) = Some n"
proof -
  have "list_all (\<lambda>k. hex_value (hex_digit k) = Some k) [0..<16]" by code_simp
  then show ?thesis using assms by (simp add: list_all_iff)
qed

lemma json_string_escape_char: "json_string (escape_char c @ r) = map_option (apfst ((#) c)) (json_string r)"
proof (cases "c \<in> {34, 92, 10, 13, 9} \<or> 0x20 \<le> c")
  case True
  then show ?thesis by (auto simp: escape_char_def unescape_def not_less)
next
  case False
  then have c: "c < 0x20" "escape_char c = [92, 117, 48, 48, hex_digit (unat c div 16), hex_digit (unat c mod 16)]"
    by (auto simp: escape_char_def)
  have lt: "unat c < 32" using c(1) by (simp add: word_less_nat_alt)
  then have "unat c div 16 < 8" "unat c div 16 < 16" "unat c mod 16 < 16" by auto
  moreover have "of_nat (16 * (unat c div 16) + unat c mod 16) = c" by simp
  moreover have "hex_value 48 = Some 0" by (simp add: hex_value_def)
  ultimately have "unicode_escape [48, 48, hex_digit (unat c div 16), hex_digit (unat c mod 16)] = Some c"
    by (simp add: unicode_escape_def hex_value_digit del: of_nat_add of_nat_mult)
  then show ?thesis by (simp add: c(2))
qed

lemma json_string_escape: "json_string (json_escape s @ 34 # r) = Some (s, r)"
  by (induction s) (simp_all add: json_escape_def json_string_escape_char)

text \<open>What may follow a value: nothing that continues a number.\<close>

definition ends_value :: "bytes \<Rightarrow> bool" where
  "ends_value r \<longleftrightarrow> (case r of [] \<Rightarrow> True | c # _ \<Rightarrow> \<not> is_digit c)"

lemma ends_value_simps [simp]: "ends_value []" "ends_value (44 # r)" "ends_value (93 # r)" "ends_value (125 # r)"
  by (simp_all add: ends_value_def is_digit_def)

lemma digits_prefix:
  assumes "ends_value r"
  shows "takeWhile is_digit (dec n @ r) = dec n" "dropWhile is_digit (dec n @ r) = r"
proof -
  have "\<forall>b \<in> set (dec n). is_digit b" by (auto dest: dec_digits)
  moreover have "takeWhile is_digit r = []" "dropWhile is_digit r = r"
    using assms by (auto simp: ends_value_def split: list.splits)
  ultimately show "takeWhile is_digit (dec n @ r) = dec n" "dropWhile is_digit (dec n @ r) = r"
    by (simp_all add: takeWhile_append2 dropWhile_append2)
qed

lemma dec_head: obtains d t where "dec n = d # t" "is_digit d"
  using dec_digits [of _ n] by (cases "dec n") auto

lemma json_num:
  assumes "ends_value r"
  shows "json_val (Suc k) (dec n @ r) = Some (JNum n, r)"
proof -
  obtain d t where d: "dec n = d # t" "is_digit d" by (rule dec_head)
  have "d \<noteq> 34" "d \<noteq> 91" "d \<noteq> 123" "d \<noteq> 116" "d \<noteq> 102" using d(2) by (auto simp: is_digit_def)
  moreover have "decimal (dec n) = n" by (simp add: decimal_def dec_value)
  ultimately show ?thesis using digits_prefix [OF assms, of n] d by (simp add: asc_def)
qed

lemma json_print_nonempty [simp]: "json_print v \<noteq> []"
  by (cases v rule: json_print.cases) (simp_all add: asc_def)

lemma hd_json_print: "take 1 (json_print v @ r) \<noteq> [93]"
proof (cases v)
  case (JNum n)
  obtain d t where "dec n = d # t" "is_digit d" by (rule dec_head)
  then show ?thesis using JNum by (auto simp: is_digit_def)
qed (auto simp: asc_def)

text \<open>The claims for a value, for the elements of an array and for the members of an object.\<close>

definition reads :: "json \<Rightarrow> bool" where
  "reads v \<longleftrightarrow> (\<forall>k r. 2 * length (json_print v) \<le> k \<longrightarrow> ends_value r \<longrightarrow> json_val k (json_print v @ r) = Some (v, r))"

lemma elems_read:
  "\<forall>v \<in> set vs. reads v \<Longrightarrow> vs \<noteq> [] \<Longrightarrow> 2 * length (commas (map json_print vs)) < k \<Longrightarrow>
   json_elems k (commas (map json_print vs) @ 93 # r) = Some (vs, r)"
proof (induction vs arbitrary: k)
  case (Cons v vs)
  obtain m where k: "k = Suc m" using Cons.prems by (cases k) auto
  show ?case
  proof (cases vs)
    case Nil
    then have "json_val m (json_print v @ 93 # r) = Some (v, 93 # r)"
      using Cons.prems k by (auto simp: reads_def)
    then show ?thesis using Nil k by simp
  next
    case (Cons w ws)
    have "json_val m (json_print v @ 44 # commas (map json_print vs) @ 93 # r) =
        Some (v, 44 # commas (map json_print vs) @ 93 # r)"
      using Cons.prems k Cons by (auto simp: reads_def)
    moreover have "json_elems m (commas (map json_print vs) @ 93 # r) = Some (vs, r)"
      using Cons.IH [of m] Cons.prems k Cons by simp
    ultimately show ?thesis using Cons k by simp
  qed
qed simp

definition member_text :: "bytes \<times> json \<Rightarrow> bytes" where
  "member_text = (\<lambda>(k, v). 34 # json_escape k @ 34 # 58 # json_print v)"

lemma members_read:
  "\<forall>x \<in> set ms. reads (snd x) \<Longrightarrow> ms \<noteq> [] \<Longrightarrow> 2 * length (commas (map member_text ms)) < k \<Longrightarrow>
   json_members k (commas (map member_text ms) @ 125 # r) = Some (ms, r)"
proof (induction ms arbitrary: k)
  case (Cons x ms)
  obtain key v where x: "x = (key, v)" by (cases x)
  obtain m where k: "k = Suc m" using Cons.prems by (cases k) auto
  show ?case
  proof (cases ms)
    case Nil
    then have "json_val m (json_print v @ 125 # r) = Some (v, 125 # r)"
      using Cons.prems k x by (auto simp: reads_def member_text_def)
    then show ?thesis using Nil k x by (simp add: member_text_def json_string_escape)
  next
    case (Cons w ws)
    have "json_val m (json_print v @ 44 # commas (map member_text ms) @ 125 # r) =
        Some (v, 44 # commas (map member_text ms) @ 125 # r)"
      using Cons.prems k Cons x by (auto simp: reads_def member_text_def)
    moreover have "json_members m (commas (map member_text ms) @ 125 # r) = Some (ms, r)"
      using Cons.IH [of m] Cons.prems k Cons x by simp
    ultimately show ?thesis using Cons k x
      by (simp add: member_text_def json_string_escape split: prod.splits)
  qed
qed simp

lemma json_print_JObj: "json_print (JObj ms) = 123 # commas (map member_text ms) @ [125]"
  by (simp add: member_text_def)

lemma reads_all: "reads v"
proof (induction v)
  case (JStr s)
  show ?case unfolding reads_def
  proof (intro allI impI)
    fix k r assume "2 * length (json_print (JStr s)) \<le> k"
    then obtain m where "k = Suc m" by (cases k) auto
    then show "json_val k (json_print (JStr s) @ r) = Some (JStr s, r)" by (simp add: json_string_escape)
  qed
next
  case (JNum n)
  show ?case unfolding reads_def
  proof (intro allI impI)
    fix k r assume "2 * length (json_print (JNum n)) \<le> k" "ends_value r"
    moreover from this obtain m where "k = Suc m" by (cases k) auto
    ultimately show "json_val k (json_print (JNum n) @ r) = Some (JNum n, r)" by (simp only: json_print.simps json_num)
  qed
next
  case (JBool b)
  show ?case unfolding reads_def
  proof (intro allI impI)
    fix k r assume "2 * length (json_print (JBool b)) \<le> k"
    moreover have "0 < length (json_print (JBool b))" by (simp add: asc_def)
    ultimately obtain m where "k = Suc m" by (cases k) auto
    then show "json_val k (json_print (JBool b) @ r) = Some (JBool b, r)" by (simp add: asc_def)
  qed
next
  case (JArr vs)
  show ?case unfolding reads_def
  proof (intro allI impI)
    fix k r assume k: "2 * length (json_print (JArr vs)) \<le> k"
    then obtain m where m: "k = Suc m" by (cases k) auto
    show "json_val k (json_print (JArr vs) @ r) = Some (JArr vs, r)"
    proof (cases vs)
      case Nil
      then show ?thesis using m by simp
    next
      case (Cons w ws)
      have "take 1 (commas (map json_print vs) @ 93 # r) \<noteq> [93]"
        using Cons hd_json_print [of w] by (cases ws) (simp_all del: take_Suc_Cons)
      moreover have "json_elems m (commas (map json_print vs) @ 93 # r) = Some (vs, r)"
        using JArr k m Cons by (intro elems_read) auto
      ultimately show ?thesis using m by simp
    qed
  qed
next
  case (JObj ms)
  show ?case unfolding reads_def
  proof (intro allI impI)
    fix k r assume k: "2 * length (json_print (JObj ms)) \<le> k"
    then obtain m where m: "k = Suc m" by (cases k) auto
    show "json_val k (json_print (JObj ms) @ r) = Some (JObj ms, r)"
    proof (cases ms)
      case Nil
      then show ?thesis using m by simp
    next
      case (Cons w ws)
      have "take 1 (commas (map member_text ms) @ 125 # r) \<noteq> [125]"
        using Cons by (cases ws) (auto simp: member_text_def split: prod.splits)
      moreover have "json_members m (commas (map member_text ms) @ 125 # r) = Some (ms, r)"
        using JObj k m Cons unfolding json_print_JObj by (intro members_read) (auto simp: snds.simps)
      ultimately show ?thesis using m unfolding json_print_JObj by simp
    qed
  qed
qed

lemma json_read_print: "json_read (json_print v) = Some v"
proof -
  have "json_val (2 * length (json_print v)) (json_print v @ []) = Some (v, [])"
    using reads_all [of v] unfolding reads_def by (meson ends_value_simps(1) order_refl)
  then show ?thesis by (simp add: json_read_def)
qed

text \<open>Printing is a codec with the reader, hence injective.\<close>

interpretation json_codec: codec "\<lambda>_. True" json_print json_read
  by unfold_locales (rule json_read_print)

end
