(* ===== verification/Dashboard.thy ===== *)
theory Dashboard
  imports Json
begin

text \<open>
  \<open>src/src/dashboard.rs\<close>: the monitoring page. The dashboard keeps the session statuses in a vector,
  updated in place by session id, and answers HTTP requests with JSON, HTML and plain text written by
  hand. Reading the clock at creation is an argument; a \<open>usize\<close> counter is a \<open>nat\<close>.
\<close>

section \<open>State\<close>

record DashboardConfig =
  dc_bind_address :: bytes
  dc_port :: u16
  dc_refresh_interval_ms :: u64
  dc_enable_metrics_endpoint :: bool
  dc_enable_sessions_endpoint :: bool
  dc_enable_health_endpoint :: bool

definition default_dashboard_config :: DashboardConfig where
  "default_dashboard_config =
     \<lparr>dc_bind_address = asc ''0.0.0.0'', dc_port = 8080, dc_refresh_interval_ms = 5000,
      dc_enable_metrics_endpoint = True, dc_enable_sessions_endpoint = True, dc_enable_health_endpoint = True\<rparr>"

record SessionStatus =
  st_session_id :: bytes
  st_sender_comp_id :: bytes
  st_target_comp_id :: bytes
  st_state :: bytes
  st_outbound_seq :: u64
  st_inbound_seq :: u64
  st_messages_sent :: u64
  st_messages_received :: u64
  st_last_activity_ms :: u64
  st_uptime_secs :: u64

record HealthStatus =
  hs_healthy :: bool
  hs_version :: bytes
  hs_uptime_secs :: u64
  hs_active_sessions :: nat
  hs_messages_processed :: u64
  hs_engine_state :: bytes

text \<open>\<open>CARGO_PKG_VERSION\<close> is the version of \<open>Cargo.toml\<close>.\<close>

definition default_health :: HealthStatus where
  "default_health =
     \<lparr>hs_healthy = True, hs_version = asc ''0.1.0'', hs_uptime_secs = 0, hs_active_sessions = 0,
      hs_messages_processed = 0, hs_engine_state = asc ''starting''\<rparr>"

record HttpResponse =
  hr_status_code :: u16
  hr_content_type :: bytes
  hr_body :: bytes

definition resp_json :: "bytes \<Rightarrow> HttpResponse" where
  "resp_json body = \<lparr>hr_status_code = 200, hr_content_type = asc ''application/json'', hr_body = body\<rparr>"

definition resp_html :: "bytes \<Rightarrow> HttpResponse" where
  "resp_html body = \<lparr>hr_status_code = 200, hr_content_type = asc ''text/html; charset=utf-8'', hr_body = body\<rparr>"

definition resp_text :: "bytes \<Rightarrow> HttpResponse" where
  "resp_text body = \<lparr>hr_status_code = 200, hr_content_type = asc ''text/plain; charset=utf-8'', hr_body = body\<rparr>"

definition not_found :: HttpResponse where
  "not_found = \<lparr>hr_status_code = 404, hr_content_type = asc ''text/plain'', hr_body = asc ''404 Not Found''\<rparr>"

definition method_not_allowed :: HttpResponse where
  "method_not_allowed =
     \<lparr>hr_status_code = 405, hr_content_type = asc ''text/plain'', hr_body = asc ''405 Method Not Allowed''\<rparr>"

record Dashboard =
  da_config :: DashboardConfig
  da_sessions :: "SessionStatus list"
  da_health :: HealthStatus
  da_start_time_ms :: u64

definition new_dashboard :: "u64 \<Rightarrow> DashboardConfig \<Rightarrow> Dashboard" where
  "new_dashboard start_time_ms config =
     \<lparr>da_config = config, da_sessions = [], da_health = default_health, da_start_time_ms = start_time_ms\<rparr>"

section \<open>Updates\<close>

definition update_session :: "SessionStatus \<Rightarrow> Dashboard \<Rightarrow> Dashboard" where
  "update_session status d =
     (case position (\<lambda>s. st_session_id s = st_session_id status) (da_sessions d) of
        Some i \<Rightarrow> d\<lparr>da_sessions := (da_sessions d)[i := status]\<rparr>
      | None \<Rightarrow> d\<lparr>da_sessions := da_sessions d @ [status]\<rparr>)"

definition remove_session :: "bytes \<Rightarrow> Dashboard \<Rightarrow> Dashboard" where
  "remove_session session_id d = d\<lparr>da_sessions := filter (\<lambda>s. st_session_id s \<noteq> session_id) (da_sessions d)\<rparr>"

definition update_health :: "HealthStatus \<Rightarrow> Dashboard \<Rightarrow> Dashboard" where
  "update_health health d = d\<lparr>da_health := health\<rparr>"

definition dashboard_health :: "Dashboard \<Rightarrow> HealthStatus" where "dashboard_health d = da_health d"
definition session_count :: "Dashboard \<Rightarrow> nat" where "session_count d = length (da_sessions d)"

section \<open>Rendering\<close>

text \<open>\<open>write!\<close> of a text is appending it; \<open>writeln!\<close> ends it with a line feed.\<close>

definition line :: "bytes \<Rightarrow> bytes" where
  "line s = s @ [10]"

definition text_lines :: "string list \<Rightarrow> bytes" where
  "text_lines ls = butlast (concat (map (line \<circ> asc) ls))"

definition bool_text :: "bool \<Rightarrow> bytes" where
  "bool_text b = (if b then asc ''true'' else asc ''false'')"

definition render_json_health :: "Dashboard \<Rightarrow> bytes" where
  "render_json_health d =
     (let h = da_health d in
      asc ''{'' @ asc ''\"healthy\":'' @ bool_text (hs_healthy h) @
      asc '',\"version\":\"'' @ json_escape (hs_version h) @ asc ''\"'' @
      asc '',\"uptime_secs\":'' @ dec (unat (hs_uptime_secs h)) @
      asc '',\"active_sessions\":'' @ dec (hs_active_sessions h) @
      asc '',\"messages_processed\":'' @ dec (unat (hs_messages_processed h)) @
      asc '',\"engine_state\":\"'' @ json_escape (hs_engine_state h) @ asc ''\"'' @ asc ''}'')"

definition session_object :: "SessionStatus \<Rightarrow> bytes" where
  "session_object s =
     asc ''{'' @ asc ''\"session_id\":\"'' @ json_escape (st_session_id s) @ asc ''\"'' @
     asc '',\"sender_comp_id\":\"'' @ json_escape (st_sender_comp_id s) @ asc ''\"'' @
     asc '',\"target_comp_id\":\"'' @ json_escape (st_target_comp_id s) @ asc ''\"'' @
     asc '',\"state\":\"'' @ json_escape (st_state s) @ asc ''\"'' @
     asc '',\"outbound_seq\":'' @ dec (unat (st_outbound_seq s)) @
     asc '',\"inbound_seq\":'' @ dec (unat (st_inbound_seq s)) @
     asc '',\"messages_sent\":'' @ dec (unat (st_messages_sent s)) @
     asc '',\"messages_received\":'' @ dec (unat (st_messages_received s)) @
     asc '',\"last_activity_ms\":'' @ dec (unat (st_last_activity_ms s)) @
     asc '',\"uptime_secs\":'' @ dec (unat (st_uptime_secs s)) @ asc ''}''"

fun sessions_loop :: "nat \<Rightarrow> SessionStatus list \<Rightarrow> bytes" where
  "sessions_loop i [] = []"
| "sessions_loop i (s # ss) = (if 0 < i then asc '','' else []) @ session_object s @ sessions_loop (Suc i) ss"

definition render_json_sessions :: "Dashboard \<Rightarrow> bytes" where
  "render_json_sessions d = asc ''['' @ sessions_loop 0 (da_sessions d) @ asc '']''"

definition render_json_latency :: bytes where
  "render_json_latency =
     asc ''{'' @ asc ''\"p50_ns\":0'' @ asc '',\"p90_ns\":0'' @ asc '',\"p99_ns\":0'' @ asc '',\"p999_ns\":0'' @
     asc '',\"count\":0'' @ asc ''}''"

definition render_prometheus_metrics :: "Dashboard \<Rightarrow> bytes" where
  "render_prometheus_metrics d =
     (let h = da_health d in
      line (asc ''# HELP velocitas_up Engine health (1=up, 0=down)'') @
      line (asc ''# TYPE velocitas_up gauge'') @
      line (asc ''velocitas_up '' @ (if hs_healthy h then asc ''1'' else asc ''0'')) @
      line (asc ''# HELP velocitas_active_sessions Number of active FIX sessions'') @
      line (asc ''# TYPE velocitas_active_sessions gauge'') @
      line (asc ''velocitas_active_sessions '' @ dec (hs_active_sessions h)) @
      line (asc ''# HELP velocitas_messages_processed_total Total messages processed'') @
      line (asc ''# TYPE velocitas_messages_processed_total counter'') @
      line (asc ''velocitas_messages_processed_total '' @ dec (unat (hs_messages_processed h))) @
      line (asc ''# HELP velocitas_uptime_seconds Engine uptime'') @
      line (asc ''# TYPE velocitas_uptime_seconds gauge'') @
      line (asc ''velocitas_uptime_seconds '' @ dec (unat (hs_uptime_secs h))))"

definition html_head :: "nat \<Rightarrow> bytes" where
  "html_head refresh_secs =
     text_lines [''<!DOCTYPE html>'',
      ''<html>'',
      ''<head>'',
      ''<meta charset=\"utf-8\">'',
      ''<meta http-equiv=\"refresh\" content=\"''] @ dec refresh_secs @
     text_lines
     [''\">'',
      ''<title>Velocitas FIX Engine Dashboard</title>'',
      ''<style>'',
      ''body { font-family: -apple-system, BlinkMacSystemFont, sans-serif; margin: 2em; background: #f5f5f5; }'',
      ''h1 { color: #333; }'',
      ''.status { display: inline-block; padding: 4px 12px; border-radius: 4px; color: #fff; font-weight: bold; }'',
      ''.status.healthy { background: #27ae60; }'',
      ''.status.unhealthy { background: #e74c3c; }'',
      ''table { border-collapse: collapse; width: 100%; margin-top: 1em; background: #fff; }'',
      ''th, td { border: 1px solid #ddd; padding: 8px; text-align: left; }'',
      ''th { background: #2c3e50; color: #fff; }'',
      ''tr:nth-child(even) { background: #f9f9f9; }'',
      ''.metrics { display: flex; gap: 1em; margin-top: 1em; flex-wrap: wrap; }'',
      ''.metric-card { background: #fff; border: 1px solid #ddd; border-radius: 4px; padding: 1em; min-width: 180px; }'',
      ''.metric-value { font-size: 1.8em; font-weight: bold; color: #2c3e50; }'',
      ''.metric-label { color: #666; font-size: 0.9em; }'',
      ''</style>'',
      ''</head>'',
      ''<body>'',
      ''<h1>Velocitas FIX Engine</h1>'']"

definition html_cards :: "HealthStatus \<Rightarrow> bytes" where
  "html_cards h =
     text_lines [''<div class=\"metrics\">'', ''<div class=\"metric-card\"><div class=\"metric-value\">''] @
     dec (hs_active_sessions h) @
     text_lines [''</div><div class=\"metric-label\">Active Sessions</div></div>'', ''<div class=\"metric-card\"><div class=\"metric-value\">''] @
     dec (unat (hs_messages_processed h)) @
     text_lines [''</div><div class=\"metric-label\">Messages Processed</div></div>'', ''<div class=\"metric-card\"><div class=\"metric-value\">''] @
     dec (unat (hs_uptime_secs h)) @
     text_lines [''</div><div class=\"metric-label\">Uptime (secs)</div></div>'', ''<div class=\"metric-card\"><div class=\"metric-value\">''] @
     hs_version h @
     text_lines [''</div><div class=\"metric-label\">Version</div></div>'', ''</div>'']"

definition html_row :: "SessionStatus \<Rightarrow> bytes" where
  "html_row s =
     asc ''<tr><td>'' @ st_session_id s @ asc ''</td><td>'' @ st_sender_comp_id s @
     asc ''</td><td>'' @ st_target_comp_id s @ asc ''</td><td>'' @ st_state s @
     asc ''</td><td>'' @ dec (unat (st_outbound_seq s)) @ asc ''</td><td>'' @ dec (unat (st_inbound_seq s)) @
     asc ''</td><td>'' @ dec (unat (st_messages_sent s)) @ asc ''</td><td>'' @ dec (unat (st_messages_received s)) @
     asc ''</td><td>'' @ dec (unat (st_last_activity_ms s)) @ asc ''</td><td>'' @ dec (unat (st_uptime_secs s)) @
     asc ''</td></tr>''"

definition html_sessions :: "SessionStatus list \<Rightarrow> bytes" where
  "html_sessions ss =
     (if ss = [] then asc ''<p>No active sessions.</p>''
      else asc ''<table><tr><th>Session ID</th><th>Sender</th><th>Target</th><th>State</th><th>Out Seq</th><th>In Seq</th><th>Sent</th><th>Received</th><th>Last Activity (ms)</th><th>Uptime (s)</th></tr>'' @
        concat (map html_row ss) @ asc ''</table>'')"

definition render_html_dashboard :: "Dashboard \<Rightarrow> bytes" where
  "render_html_dashboard d =
     (let h = da_health d in
      html_head (unat (dc_refresh_interval_ms (da_config d) div 1000)) @
      asc ''<p>Engine State: <span class=\"status '' @ (if hs_healthy h then asc ''healthy'' else asc ''unhealthy'') @
      asc ''\">'' @ hs_engine_state h @ asc ''</span></p>'' @
      html_cards h @ asc ''<h2>Sessions</h2>'' @ html_sessions (da_sessions d) @ asc ''</body></html>'')"

section \<open>Routing\<close>

definition handle_request :: "Dashboard \<Rightarrow> bytes \<Rightarrow> bytes \<Rightarrow> HttpResponse" where
  "handle_request d http_method path =
     (if http_method \<noteq> asc ''GET'' then method_not_allowed
      else if path = asc ''/health'' then
        (if dc_enable_health_endpoint (da_config d) then resp_json (render_json_health d) else not_found)
      else if path = asc ''/metrics'' then
        (if dc_enable_metrics_endpoint (da_config d) then resp_text (render_prometheus_metrics d) else not_found)
      else if path = asc ''/sessions'' then
        (if dc_enable_sessions_endpoint (da_config d) then resp_json (render_json_sessions d) else not_found)
      else if path = asc ''/'' then resp_html (render_html_dashboard d)
      else if path = asc ''/api/latency'' then resp_json render_json_latency
      else not_found)"

section \<open>The JSON documents\<close>

definition session_json :: "SessionStatus \<Rightarrow> json" where
  "session_json s = JObj
     [(asc ''session_id'', JStr (st_session_id s)), (asc ''sender_comp_id'', JStr (st_sender_comp_id s)),
      (asc ''target_comp_id'', JStr (st_target_comp_id s)), (asc ''state'', JStr (st_state s)),
      (asc ''outbound_seq'', JNum (unat (st_outbound_seq s))), (asc ''inbound_seq'', JNum (unat (st_inbound_seq s))),
      (asc ''messages_sent'', JNum (unat (st_messages_sent s))),
      (asc ''messages_received'', JNum (unat (st_messages_received s))),
      (asc ''last_activity_ms'', JNum (unat (st_last_activity_ms s))),
      (asc ''uptime_secs'', JNum (unat (st_uptime_secs s)))]"

definition health_json :: "HealthStatus \<Rightarrow> json" where
  "health_json h = JObj
     [(asc ''healthy'', JBool (hs_healthy h)), (asc ''version'', JStr (hs_version h)),
      (asc ''uptime_secs'', JNum (unat (hs_uptime_secs h))), (asc ''active_sessions'', JNum (hs_active_sessions h)),
      (asc ''messages_processed'', JNum (unat (hs_messages_processed h))),
      (asc ''engine_state'', JStr (hs_engine_state h))]"

lemma escape_simps [simp]: "json_escape [] = []" "json_escape (c # s) = escape_char c @ json_escape s"
  by (simp_all add: json_escape_def)

lemma session_object_json: "session_object s = json_print (session_json s)"
  by (simp add: session_object_def session_json_def asc_def escape_char_def)

lemma health_printed: "render_json_health d = json_print (health_json (da_health d))"
  by (simp add: render_json_health_def health_json_def asc_def escape_char_def bool_text_def Let_def)

lemma commas_Cons: "commas (x # xs) = x @ concat (map ((#) 44) xs)"
  by (induction xs arbitrary: x) simp_all

lemma sessions_loop_rest: "0 < i \<Longrightarrow> sessions_loop i ss = concat (map (\<lambda>s. 44 # session_object s) ss)"
  by (induction i ss rule: sessions_loop.induct) (simp_all add: asc_def)

lemma sessions_loop_commas: "sessions_loop 0 ss = commas (map session_object ss)"
  by (cases ss) (simp_all add: commas_Cons sessions_loop_rest o_def)

lemma sessions_printed: "render_json_sessions d = json_print (JArr (map session_json (da_sessions d)))"
proof -
  have "session_object = json_print \<circ> session_json" by (rule ext) (simp only: session_object_json o_apply)
  then show ?thesis by (simp only: render_json_sessions_def sessions_loop_commas json_print.simps map_map) (simp add: asc_def)
qed

section \<open>The sessions as a directory\<close>

definition session_map :: "Dashboard \<Rightarrow> bytes \<Rightarrow> SessionStatus option" where
  "session_map d k = find (\<lambda>s. st_session_id s = k) (da_sessions d)"

definition ids_distinct :: "Dashboard \<Rightarrow> bool" where
  "ids_distinct d \<longleftrightarrow> distinct (map st_session_id (da_sessions d))"

lemma find_position: "find P xs = map_option ((!) xs) (position P xs)"
  by (induction xs) (auto simp: option.map_comp o_def)

lemma find_update_same: "position P xs = Some i \<Longrightarrow> P v \<Longrightarrow> find P (xs[i := v]) = Some v"
  by (induction xs arbitrary: i) (auto split: if_splits nat.splits)

lemma find_update_other:
  "i < length xs \<Longrightarrow> \<not> P (xs ! i) \<Longrightarrow> \<not> P v \<Longrightarrow> find P (xs[i := v]) = find P xs"
  by (induction xs arbitrary: i) (auto split: nat.splits)

lemma find_snoc: "find P (xs @ [y]) = (if find P xs = None \<and> P y then Some y else find P xs)"
  by (induction xs) auto

lemma update_session_map:
  "session_map (update_session st d) = (session_map d)(st_session_id st \<mapsto> st)"
proof (rule ext)
  fix k
  let ?P = "\<lambda>s. st_session_id s = st_session_id st"
  show "session_map (update_session st d) k = ((session_map d)(st_session_id st \<mapsto> st)) k"
  proof (cases "position ?P (da_sessions d)")
    case None
    then have "\<forall>s \<in> set (da_sessions d). st_session_id s \<noteq> st_session_id st" by (simp add: position_None)
    then have "find ?P (da_sessions d) = None" by (auto simp: find_None_iff)
    then show ?thesis using None by (auto simp: update_session_def session_map_def find_snoc split: option.splits)
  next
    case (Some i)
    have i: "i < length (da_sessions d)" "st_session_id (da_sessions d ! i) = st_session_id st"
      using position_Some [OF Some] by simp_all
    show ?thesis
    proof (cases "k = st_session_id st")
      case True
      then show ?thesis using Some by (simp add: update_session_def session_map_def find_update_same)
    next
      case False
      then show ?thesis using Some i by (simp add: update_session_def session_map_def find_update_other)
    qed
  qed
qed

lemma remove_session_map: "session_map (remove_session k d) = (session_map d)(k := None)"
proof (rule ext)
  fix j
  have "find (\<lambda>s. st_session_id s = j) (filter (\<lambda>s. st_session_id s \<noteq> k) xs) =
      (if j = k then None else find (\<lambda>s. st_session_id s = j) xs)" for xs
    by (induction xs) auto
  from this [of "da_sessions d"] show "session_map (remove_session k d) j = ((session_map d)(k := None)) j"
    by (auto simp: remove_session_def session_map_def)
qed

lemma update_session_distinct: "ids_distinct d \<Longrightarrow> ids_distinct (update_session st d)"
proof (cases "position (\<lambda>s. st_session_id s = st_session_id st) (da_sessions d)")
  case None
  then have "\<forall>s \<in> set (da_sessions d). st_session_id s \<noteq> st_session_id st" by (simp add: position_None)
  then show "ids_distinct d \<Longrightarrow> ids_distinct (update_session st d)"
    using None by (auto simp: ids_distinct_def update_session_def)
next
  case (Some i)
  have "map st_session_id ((da_sessions d)[i := st]) = map st_session_id (da_sessions d)"
    using position_Some [OF Some] by (simp add: map_update list_update_same_conv)
  then show "ids_distinct d \<Longrightarrow> ids_distinct (update_session st d)"
    using Some by (simp add: ids_distinct_def update_session_def)
qed

text \<open>An update stores the status under its own id; as a directory it takes the key from outside.\<close>

definition store_session :: "Dashboard \<Rightarrow> bytes \<Rightarrow> SessionStatus \<Rightarrow> (SessionStatus \<times> Dashboard) option" where
  "store_session d k st = (let st' = st\<lparr>st_session_id := k\<rparr> in Some (st', update_session st' d))"

interpretation sessions: directory ids_distinct session_map store_session
  by unfold_locales (auto simp: store_session_def Let_def update_session_map update_session_distinct)

datatype dash_event = Update SessionStatus | Remove bytes | Health HealthStatus

definition dash_step :: "Dashboard \<Rightarrow> dash_event \<Rightarrow> Dashboard" where
  "dash_step d e =
     (case e of Update st \<Rightarrow> update_session st d | Remove k \<Rightarrow> remove_session k d | Health h \<Rightarrow> update_health h d)"

definition map_step :: "(bytes \<Rightarrow> SessionStatus option) \<Rightarrow> dash_event \<Rightarrow> bytes \<Rightarrow> SessionStatus option" where
  "map_step m e = (case e of Update st \<Rightarrow> m(st_session_id st \<mapsto> st) | Remove k \<Rightarrow> m(k := None) | Health h \<Rightarrow> m)"

interpretation dashboard: machine dash_step ids_distinct
proof
  fix d e assume "ids_distinct d"
  then show "ids_distinct (dash_step d e)"
    using update_session_distinct [of d]
    by (cases e) (auto simp: dash_step_def remove_session_def update_health_def ids_distinct_def distinct_map_filter)
qed

lemma dash_step_map: "session_map (dash_step d e) = map_step (session_map d) e"
  by (cases e) (auto simp: dash_step_def map_step_def update_session_map remove_session_map update_health_def
      session_map_def)

lemma session_count_card: "ids_distinct d \<Longrightarrow> session_count d = card (dom (session_map d))"
proof -
  assume "ids_distinct d"
  moreover have "dom (session_map d) = set (map st_session_id (da_sessions d))"
    by (auto simp: session_map_def dom_def find_None_iff)
  ultimately show ?thesis by (simp add: session_count_def ids_distinct_def distinct_card del: set_map)
qed

section \<open>Properties\<close>

text \<open>
  C25. The dashboard implements a map from session ids to statuses: after any sequence of updates,
  removals and health reports, looking an id up gives what the sequence of map updates gives, and the
  number of tracked sessions is the number of ids in the map.
\<close>

theorem dashboard_refines:
  "session_map (foldl dash_step (new_dashboard t c) es) = foldl map_step Map.empty es \<and>
   session_count (foldl dash_step (new_dashboard t c) es) = card (dom (foldl map_step Map.empty es))"
proof -
  have start: "ids_distinct (new_dashboard t c)" "session_map (new_dashboard t c) = Map.empty"
    by (auto simp: ids_distinct_def new_dashboard_def session_map_def)
  have run: "session_map (foldl dash_step d es) = foldl map_step (session_map d) es" for d
    by (induction es arbitrary: d) (simp_all add: dash_step_map)
  then show ?thesis
    using session_count_card [OF dashboard.run_inv [OF start(1)], of es] start(2) by simp
qed

text \<open>
  C23. The JSON bodies are JSON: whatever the texts hold (quotes, backslashes, control characters), a JSON
  reader gets back from \<open>/sessions\<close> exactly the tracked sessions with all their fields, and from
  \<open>/health\<close> the health status.
\<close>

theorem dashboard_json:
  assumes "dc_enable_sessions_endpoint (da_config d)" "dc_enable_health_endpoint (da_config d)"
  shows "hr_status_code (handle_request d (asc ''GET'') (asc ''/sessions'')) = 200 \<and>
    json_read (hr_body (handle_request d (asc ''GET'') (asc ''/sessions''))) =
      Some (JArr (map session_json (da_sessions d))) \<and>
    hr_status_code (handle_request d (asc ''GET'') (asc ''/health'')) = 200 \<and>
    json_read (hr_body (handle_request d (asc ''GET'') (asc ''/health''))) = Some (health_json (da_health d))"
proof -
  have paths: "asc ''/sessions'' \<noteq> asc ''/health''" "asc ''/sessions'' \<noteq> asc ''/metrics''" by (simp_all add: asc_def)
  show ?thesis using assms paths
    by (simp add: handle_request_def resp_json_def sessions_printed health_printed json_read_print
        del: json_print.simps)
qed

definition sample_status :: SessionStatus where
  "sample_status =
     \<lparr>st_session_id = asc ''A\"B'', st_sender_comp_id = [10, 1], st_target_comp_id = asc ''T'', st_state = asc ''Active'',
      st_outbound_seq = 3, st_inbound_seq = 2, st_messages_sent = 3, st_messages_received = 2,
      st_last_activity_ms = 7, st_uptime_secs = 9\<rparr>"

theorem dashboard_json_witness:
  "json_read (hr_body (handle_request (update_session sample_status (new_dashboard 0 default_dashboard_config))
      (asc ''GET'') (asc ''/sessions''))) = Some (JArr [session_json sample_status])"
  using dashboard_json [of "update_session sample_status (new_dashboard 0 default_dashboard_config)"]
  by (simp add: update_session_def new_dashboard_def default_dashboard_config_def)

text \<open>The page, unlike the JSON, shows texts as they are: markup in a session id reaches the browser.\<close>

lemma html_not_escaped:
  assumes "s \<in> set (da_sessions d)"
  shows "\<exists>pre post. render_html_dashboard d = pre @ st_session_id s @ post"
proof -
  obtain xs ys where split: "da_sessions d = xs @ s # ys" using assms by (auto dest: split_list)
  define page where "page = html_head (unat (dc_refresh_interval_ms (da_config d) div 1000)) @
      asc ''<p>Engine State: <span class=\"status '' @
      (if hs_healthy (da_health d) then asc ''healthy'' else asc ''unhealthy'') @
      asc ''\">'' @ hs_engine_state (da_health d) @ asc ''</span></p>'' @ html_cards (da_health d) @
      asc ''<h2>Sessions</h2>''"
  have "\<exists>pre post. html_sessions (da_sessions d) = pre @ st_session_id s @ post"
    unfolding split html_sessions_def by (auto simp: html_row_def [of s]) (metis append.assoc)
  then obtain pre post where "html_sessions (da_sessions d) = pre @ st_session_id s @ post" by blast
  then have "render_html_dashboard d = (page @ pre) @ st_session_id s @ (post @ asc ''</body></html>'')"
    by (simp add: render_html_dashboard_def page_def Let_def)
  then show ?thesis by blast
qed

end
