(* ===== verification/DashboardServer.thy ===== *)
theory DashboardServer
  imports Dashboard "HOL-Library.Sublist"
begin

text \<open>
  The dashboard's HTTP server, \<open>src/src/bin/dashboard.rs\<close>. A connection is the bytes that its client
  sends; what the server does with it is the new dashboard and the bytes of the reply, none when the
  connection is dropped without one. Binding, accepting and printing are left out.
\<close>

section \<open>The command line\<close>

text \<open>\<open>str::parse::<u16>\<close>; an invalid port ends the process, here \<^const>\<open>None\<close>.\<close>

definition parse_u16 :: "bytes \<Rightarrow> u16 option" where
  "parse_u16 s =
     (let digits = (if take 1 s = [43] then drop 1 s else s);
          n = foldl (\<lambda>a b. 10 * a + (unat b - 48)) 0 digits in
      if digits = [] \<or> \<not> list_all is_digit digits \<or> 65536 \<le> n then None else Some (of_nat n))"

fun parse_port :: "bytes list \<Rightarrow> u16 option" where
  "parse_port (a # p # args) = (if a = asc ''--port'' then parse_u16 p else parse_port (p # args))"
| "parse_port _ = Some 8080"

section \<open>The request line\<close>

text \<open>
  The number of bytes of the white space character (\<open>char::is_whitespace\<close>) that a text in UTF-8 starts
  with, 0 when it starts with another one. The encodings of these characters start with a lead byte, so
  the text need not be split into characters first.
\<close>

fun white :: "bytes \<Rightarrow> nat" where
  "white (b # bs) =
     (if in_range 9 13 b \<or> b = 32 then 1
      else if b = 0xC2 \<and> (take 1 bs = [0x85] \<or> take 1 bs = [0xA0]) then 2
      else if b = 0xE1 \<and> take 2 bs = [0x9A, 0x80] then 3
      else if b = 0xE2 \<and> take 1 bs = [0x80] \<and>
        (case drop 1 bs of [] \<Rightarrow> False | c # _ \<Rightarrow> in_range 0x80 0x8A c \<or> c = 0xA8 \<or> c = 0xA9 \<or> c = 0xAF) then 3
      else if b = 0xE2 \<and> take 2 bs = [0x81, 0x9F] then 3
      else if b = 0xE3 \<and> take 2 bs = [0x80, 0x80] then 3
      else 0)"
| "white [] = 0"

fun split_white :: "bytes \<Rightarrow> bytes \<Rightarrow> bytes list" where
  "split_white w [] = [w]"
| "split_white w (b # bs) =
     (case white (b # bs) of 0 \<Rightarrow> split_white (w @ [b]) bs | Suc n \<Rightarrow> w # split_white [] (drop n bs))"

definition split_whitespace :: "bytes \<Rightarrow> bytes list" where
  "split_whitespace s = filter (\<lambda>w. w \<noteq> []) (split_white [] s)"

definition parse_request_line :: "bytes \<Rightarrow> (bytes \<times> bytes) option" where
  "parse_request_line s = (case split_whitespace s of http_method # path # _ \<Rightarrow> Some (http_method, path) | _ \<Rightarrow> None)"

text \<open>\<open>reader.lines().next()\<close>: no line at all, or bytes that are not UTF-8, and the connection is dropped.\<close>

definition first_line :: "bytes \<Rightarrow> bytes option" where
  "first_line received =
     (let l = takeWhile (\<lambda>b. b \<noteq> 10) received in
      if received = [] then None
      else from_utf8 (if length l < length received \<and> l \<noteq> [] \<and> last l = 13 then butlast l else l))"

section \<open>One connection\<close>

definition status_text :: "u16 \<Rightarrow> bytes" where
  "status_text c =
     (if c = 200 then asc ''OK'' else if c = 404 then asc ''Not Found'' else if c = 405 then asc ''Method Not Allowed''
      else asc ''Unknown'')"

definition crlf :: bytes where "crlf = [13, 10]"

definition reply_head :: "HttpResponse \<Rightarrow> bytes" where
  "reply_head r =
     asc ''HTTP/1.1 '' @ dec (unat (hr_status_code r)) @ asc '' '' @ status_text (hr_status_code r) @ crlf @
     asc ''Content-Type: '' @ hr_content_type r @ crlf @
     asc ''Content-Length: '' @ dec (length (hr_body r)) @ crlf @
     asc ''Connection: close'' @ crlf @ crlf"

definition with_uptime :: "u64 \<Rightarrow> Dashboard \<Rightarrow> Dashboard" where
  "with_uptime s d = update_health ((dashboard_health d)\<lparr>hs_uptime_secs := s\<rparr>) d"

text \<open>\<open>elapsed\<close>: the nanoseconds since the start.\<close>

definition serve_connection :: "nat \<Rightarrow> bytes \<Rightarrow> Dashboard \<Rightarrow> bytes option \<times> Dashboard" where
  "serve_connection elapsed received d =
     (let d = with_uptime (of_nat (elapsed div 1000000000)) d in
      (Option.bind (first_line received) (\<lambda>l.
         map_option (\<lambda>(http_method, path). let r = handle_request d http_method path in reply_head r @ hr_body r)
           (parse_request_line l)), d))"

fun serve_all :: "(nat \<times> bytes) list \<Rightarrow> Dashboard \<Rightarrow> bytes option list" where
  "serve_all [] d = []"
| "serve_all ((elapsed, received) # cs) d =
     (let (r, d) = serve_connection elapsed received d in r # serve_all cs d)"

section \<open>The server\<close>

definition seed_demo_data :: "Dashboard \<Rightarrow> Dashboard" where
  "seed_demo_data d =
     (let d = update_session
        \<lparr>st_session_id = asc ''NYSE-1'', st_sender_comp_id = asc ''BANK_OMS'', st_target_comp_id = asc ''NYSE'',
         st_state = asc ''Active'', st_outbound_seq = 42567, st_inbound_seq = 41234, st_messages_sent = 1234567,
         st_messages_received = 987654, st_last_activity_ms = 1711008000000, st_uptime_secs = 28800\<rparr> d;
          d = update_session
        \<lparr>st_session_id = asc ''LSE-1'', st_sender_comp_id = asc ''BANK_OMS'', st_target_comp_id = asc ''LSE'',
         st_state = asc ''Active'', st_outbound_seq = 18900, st_inbound_seq = 17800, st_messages_sent = 567890,
         st_messages_received = 456789, st_last_activity_ms = 1711008000000, st_uptime_secs = 28800\<rparr> d in
      update_health
        \<lparr>hs_healthy = True, hs_version = asc ''0.1.0'', hs_uptime_secs = 0, hs_active_sessions = 2,
         hs_messages_processed = 1802457, hs_engine_state = asc ''running''\<rparr> d)"

definition dashboard_main :: "bytes list \<Rightarrow> u64 \<Rightarrow> (nat \<times> bytes) list \<Rightarrow> bytes option list option" where
  "dashboard_main args start_ms cs =
     map_option (\<lambda>port. serve_all cs (seed_demo_data (new_dashboard start_ms (default_dashboard_config\<lparr>dc_port := port\<rparr>))))
       (parse_port args)"

section \<open>The words of a line\<close>

text \<open>A word of printable ASCII.\<close>

definition plain :: "bytes \<Rightarrow> bool" where
  "plain w \<longleftrightarrow> w \<noteq> [] \<and> list_all (in_range 33 126) w"

lemma plain_not_white: "in_range 33 126 b \<Longrightarrow> white (b # bs) = 0"
proof -
  assume "in_range 33 126 b"
  then have u: "33 \<le> unat b" "unat b \<le> 126" by (simp_all add: in_range_def word_le_nat_alt)
  have "\<not> in_range 9 13 b" using u(1) by (simp add: in_range_def word_le_nat_alt)
  moreover have "b \<noteq> 32" using u(1) by auto
  moreover have "b \<notin> {0xC2, 0xE1, 0xE2, 0xE3}" using u(2) by auto
  ultimately show ?thesis by simp
qed

lemma split_plain: "list_all (in_range 33 126) w \<Longrightarrow> split_white u (w @ s) = split_white (u @ w) s"
  by (induction w arbitrary: u) (simp_all add: plain_not_white del: white.simps)

lemma split_blank: "split_white u (32 # s) = u # split_white [] s"
  by simp

lemma request_words:
  assumes "plain m" "plain p"
  shows "parse_request_line (m @ 32 # p @ 32 # s) = Some (m, p)" "parse_request_line (m @ 32 # p) = Some (m, p)"
  using assms split_plain [of p "[]" "[]"]
  by (simp_all add: parse_request_line_def split_whitespace_def plain_def split_plain split_blank
      del: split_white.simps(2))

section \<open>The reply\<close>

text \<open>What a client takes as the body: the bytes behind the first empty line.\<close>

fun after_blank_line :: "bytes \<Rightarrow> bytes option" where
  "after_blank_line [] = None"
| "after_blank_line (b # bs) =
     (if take 4 (b # bs) = crlf @ crlf then Some (drop 4 (b # bs)) else after_blank_line bs)"

lemma after_text: "13 \<notin> set l \<Longrightarrow> after_blank_line (l @ s) = after_blank_line s"
  by (induction l) (auto simp: crlf_def)

lemma after_crlf: "s \<noteq> [] \<Longrightarrow> hd s \<noteq> 13 \<Longrightarrow> after_blank_line (crlf @ s) = after_blank_line s"
  by (cases s) (simp_all add: crlf_def)

definition head_ok :: "HttpResponse \<Rightarrow> bool" where
  "head_ok r \<longleftrightarrow> hr_status_code r \<in> {200, 404, 405} \<and> 13 \<notin> set (hr_content_type r)"

lemma handle_request_head: "head_ok (handle_request d m p)"
  by (simp add: handle_request_def head_ok_def resp_json_def resp_text_def resp_html_def not_found_def
      method_not_allowed_def asc_def)

lemma dec_no_cr: "13 \<notin> set (dec n)"
  using dec_digits [of 13 n] by (auto simp: is_digit_def)

lemma reply_body_found:
  assumes "head_ok r"
  shows "after_blank_line (reply_head r @ hr_body r) = Some (hr_body r)"
proof -
  have status: "13 \<notin> set (status_text (hr_status_code r))" by (simp add: status_text_def asc_def)
  define last_part where "last_part = asc ''Connection: close'' @ crlf @ crlf @ hr_body r"
  define length_part where "length_part = (asc ''Content-Length: '' @ dec (length (hr_body r))) @ crlf @ last_part"
  define type_part where "type_part = (asc ''Content-Type: '' @ hr_content_type r) @ crlf @ length_part"
  have "after_blank_line (reply_head r @ hr_body r) =
      after_blank_line ((asc ''HTTP/1.1 '' @ dec (unat (hr_status_code r)) @ asc '' '' @ status_text (hr_status_code r)) @
        crlf @ type_part)"
    by (simp add: reply_head_def type_part_def length_part_def last_part_def)
  also have "\<dots> = after_blank_line (crlf @ type_part)"
    by (rule after_text) (simp add: dec_no_cr status asc_def)
  also have "\<dots> = after_blank_line type_part" by (rule after_crlf) (simp_all add: type_part_def asc_def)
  also have "\<dots> = after_blank_line (crlf @ length_part)"
    unfolding type_part_def by (rule after_text) (use assms in \<open>simp add: head_ok_def asc_def\<close>)
  also have "\<dots> = after_blank_line length_part" by (rule after_crlf) (simp_all add: length_part_def asc_def)
  also have "\<dots> = after_blank_line (crlf @ last_part)"
    unfolding length_part_def by (rule after_text) (simp add: dec_no_cr asc_def)
  also have "\<dots> = after_blank_line last_part" by (rule after_crlf) (simp_all add: last_part_def asc_def)
  also have "\<dots> = after_blank_line (crlf @ crlf @ hr_body r)"
    unfolding last_part_def by (rule after_text) (simp add: asc_def)
  finally show ?thesis by (simp add: crlf_def)
qed

lemma plain_bytes: "plain w \<Longrightarrow> b \<in> set w \<Longrightarrow> b < 0x80 \<and> b \<noteq> 10 \<and> b \<noteq> 13"
  by (auto simp: plain_def list_all_iff in_range_def word_le_nat_alt word_less_nat_alt)

lemma first_line_request:
  assumes "plain m" "plain p"
  shows "first_line (m @ [32] @ p @ asc '' HTTP/1.1'' @ crlf @ rest) = Some (m @ [32] @ p @ asc '' HTTP/1.1'')"
proof -
  let ?l = "m @ [32] @ p @ asc '' HTTP/1.1''"
  have l: "b < 0x80 \<and> b \<noteq> 10" if "b \<in> set ?l" for b
    using that plain_bytes [OF assms(1)] plain_bytes [OF assms(2)] by (auto simp: asc_def)
  have "takeWhile (\<lambda>b. b \<noteq> 10) ((?l @ [13]) @ 10 # rest) = ?l @ [13]"
    using l by (subst takeWhile_append2) auto
  then have "takeWhile (\<lambda>b. b \<noteq> 10) (m @ [32] @ p @ asc '' HTTP/1.1'' @ crlf @ rest) = ?l @ [13]"
    by (simp add: crlf_def)
  moreover have "from_utf8 ?l = Some ?l" using l by (auto simp: from_utf8_def intro!: utf8_valid_ascii)
  ultimately show ?thesis by (simp add: first_line_def Let_def crlf_def butlast_append)
qed

section \<open>The dashboard between connections\<close>

text \<open>A connection changes the uptime and nothing else, so no answer depends on the connections before it.\<close>

lemma with_uptime_twice: "with_uptime s (with_uptime s' d) = with_uptime s d"
  by (simp add: with_uptime_def update_health_def dashboard_health_def)

lemma serve_after: "fst (serve_connection e r (with_uptime s d)) = fst (serve_connection e r d)"
  by (simp add: serve_connection_def with_uptime_twice Let_def)

lemma serve_all_separately: "serve_all cs (with_uptime s d) = map (\<lambda>(e, r). fst (serve_connection e r d)) cs"
  by (induction cs arbitrary: s)
    (auto simp: serve_connection_def with_uptime_twice Let_def)

lemma with_own_uptime: "with_uptime (hs_uptime_secs (da_health d)) d = d"
  by (simp add: with_uptime_def update_health_def dashboard_health_def)

text \<open>
  C24. The dashboard server over any sequence of connections. Every connection is answered as if it were
  the first one; a well-formed request line, whatever follows it, is answered with a head whose
  Content-Length is the length of the body that a client finds behind the first empty line, and that body
  is what the dashboard renders for the method and path, with the uptime of that moment.
\<close>

theorem dashboard_answers:
  assumes "cs ! i = (elapsed, m @ [32] @ p @ asc '' HTTP/1.1'' @ crlf @ rest)" "i < length cs" "plain m" "plain p"
  shows "length (serve_all cs d) = length cs \<and>
    (let r = handle_request (with_uptime (of_nat (elapsed div 1000000000)) d) m p in
      \<exists>reply. serve_all cs d ! i = Some reply \<and> after_blank_line reply = Some (hr_body r) \<and>
        prefix (asc ''HTTP/1.1 '' @ dec (unat (hr_status_code r)) @ asc '' '') reply \<and>
        sublist (crlf @ asc ''Content-Length: '' @ dec (length (hr_body r)) @ crlf) reply)"
proof -
  let ?r = "handle_request (with_uptime (of_nat (elapsed div 1000000000)) d) m p"
  have all: "serve_all cs d = map (\<lambda>(e, r). fst (serve_connection e r d)) cs"
    using serve_all_separately [of cs "hs_uptime_secs (da_health d)" d] by (simp only: with_own_uptime)
  have "parse_request_line (m @ [32] @ p @ asc '' HTTP/1.1'') = Some (m, p)"
    using request_words(1) [OF assms(3,4), of "asc ''HTTP/1.1''"] by (simp add: asc_def)
  then have "serve_all cs d ! i = Some (reply_head ?r @ hr_body ?r)"
    using assms(1,2) by (simp add: all serve_connection_def first_line_request [OF assms(3,4)] Let_def del: append.simps)
  moreover have "sublist (crlf @ asc ''Content-Length: '' @ dec (length (hr_body ?r)) @ crlf) (reply_head ?r @ hr_body ?r)"
    unfolding sublist_def reply_head_def
    by (rule exI [of _ "asc ''HTTP/1.1 '' @ dec (unat (hr_status_code ?r)) @ asc '' '' @ status_text (hr_status_code ?r) @ crlf @
        asc ''Content-Type: '' @ hr_content_type ?r"],
        rule exI [of _ "asc ''Connection: close'' @ crlf @ crlf @ hr_body ?r"]) simp
  moreover have "prefix (asc ''HTTP/1.1 '' @ dec (unat (hr_status_code ?r)) @ asc '' '') (reply_head ?r @ hr_body ?r)"
    by (simp add: reply_head_def)
  ultimately show ?thesis using reply_body_found [OF handle_request_head] by (simp add: all Let_def)
qed

theorem dashboard_answers_witness:
  "serve_all [(0, []), (7000000000, asc ''GET /nothing HTTP/1.1'' @ [13, 10, 13, 10])] (seed_demo_data (new_dashboard 0 default_dashboard_config))
     ! 1 \<noteq> None"
proof -
  let ?d = "seed_demo_data (new_dashboard 0 default_dashboard_config)"
  have "plain (asc ''GET'')" "plain (asc ''/nothing'')" by (simp_all add: plain_def in_range_def asc_def)
  from dashboard_answers [where cs = "[(0, []), (7000000000, asc ''GET /nothing HTTP/1.1'' @ [13, 10, 13, 10])]" and i = 1
      and elapsed = 7000000000 and rest = "[13, 10]" and d = ?d, OF _ _ this]
  show ?thesis by (auto simp: asc_def crlf_def Let_def)
qed

end
