(* ===== verification/Metrics.thy ===== *)
theory Metrics
  imports Prelude "HOL-Library.Multiset"
begin

text \<open>
  \<open>src/src/metrics.rs\<close>: counters, gauges and latency histograms with their Prometheus text. Counters
  and gauges are atomic machine integers, so an operation of any thread is one step on the value. The
  HDR histogram is a third-party package: it is a record of operations, an argument of the definitions
  that use it. A result is \<^const>\<open>None\<close> for a panic (\<open>expect\<close> on an error of the package).
\<close>

section \<open>Text\<close>

definition metrics_line :: "bytes \<Rightarrow> bytes" where
  "metrics_line s = s @ [10]"

text \<open>An \<open>i64\<close> as \<open>Display\<close> writes it.\<close>

definition dec_i64 :: "i64 \<Rightarrow> bytes" where
  "dec_i64 v = (if sint v < 0 then 45 # dec (nat (- sint v)) else dec (nat (sint v)))"

fun labels_loop :: "nat \<Rightarrow> (bytes \<times> bytes) list \<Rightarrow> bytes" where
  "labels_loop i [] = []"
| "labels_loop i ((k, v) # ls) =
     (if 0 < i then asc '','' else []) @ k @ asc ''=\"'' @ v @ asc ''\"'' @ labels_loop (Suc i) ls"

definition format_labels :: "(bytes \<times> bytes) list \<Rightarrow> bytes" where
  "format_labels ls = asc ''{'' @ labels_loop 0 ls @ asc ''}''"

section \<open>Counters\<close>

record Counter =
  ct_name :: bytes
  ct_help :: bytes
  ct_labels :: "(bytes \<times> bytes) list"
  ct_value :: u64

definition counter_with_labels :: "bytes \<Rightarrow> bytes \<Rightarrow> (bytes \<times> bytes) list \<Rightarrow> Counter" where
  "counter_with_labels name help labels = \<lparr>ct_name = name, ct_help = help, ct_labels = labels, ct_value = 0\<rparr>"

definition new_counter :: "bytes \<Rightarrow> bytes \<Rightarrow> Counter" where
  "new_counter name help = \<lparr>ct_name = name, ct_help = help, ct_labels = [], ct_value = 0\<rparr>"

definition counter_inc_by :: "u64 \<Rightarrow> Counter \<Rightarrow> Counter" where
  "counter_inc_by n c = c\<lparr>ct_value := ct_value c + n\<rparr>"

definition counter_inc :: "Counter \<Rightarrow> Counter" where
  "counter_inc c = c\<lparr>ct_value := ct_value c + 1\<rparr>"

definition counter_get :: "Counter \<Rightarrow> u64" where "counter_get c = ct_value c"

definition counter_reset :: "Counter \<Rightarrow> Counter" where "counter_reset c = c\<lparr>ct_value := 0\<rparr>"

definition counter_render :: "Counter \<Rightarrow> bytes" where
  "counter_render c =
     metrics_line (asc ''# HELP '' @ ct_name c @ asc '' '' @ ct_help c) @
     metrics_line (asc ''# TYPE '' @ ct_name c @ asc '' counter'') @
     (if ct_labels c = [] then metrics_line (ct_name c @ asc '' '' @ dec (unat (counter_get c)))
      else metrics_line (ct_name c @ format_labels (ct_labels c) @ asc '' '' @ dec (unat (counter_get c))))"

section \<open>Gauges\<close>

record Gauge =
  ga_name :: bytes
  ga_help :: bytes
  ga_labels :: "(bytes \<times> bytes) list"
  ga_value :: i64

definition gauge_with_labels :: "bytes \<Rightarrow> bytes \<Rightarrow> (bytes \<times> bytes) list \<Rightarrow> Gauge" where
  "gauge_with_labels name help labels = \<lparr>ga_name = name, ga_help = help, ga_labels = labels, ga_value = 0\<rparr>"

definition new_gauge :: "bytes \<Rightarrow> bytes \<Rightarrow> Gauge" where
  "new_gauge name help = \<lparr>ga_name = name, ga_help = help, ga_labels = [], ga_value = 0\<rparr>"

definition gauge_inc :: "Gauge \<Rightarrow> Gauge" where "gauge_inc g = g\<lparr>ga_value := ga_value g + 1\<rparr>"
definition gauge_dec :: "Gauge \<Rightarrow> Gauge" where "gauge_dec g = g\<lparr>ga_value := ga_value g - 1\<rparr>"
definition gauge_set :: "i64 \<Rightarrow> Gauge \<Rightarrow> Gauge" where "gauge_set v g = g\<lparr>ga_value := v\<rparr>"
definition gauge_get :: "Gauge \<Rightarrow> i64" where "gauge_get g = ga_value g"

definition gauge_render :: "Gauge \<Rightarrow> bytes" where
  "gauge_render g =
     metrics_line (asc ''# HELP '' @ ga_name g @ asc '' '' @ ga_help g) @
     metrics_line (asc ''# TYPE '' @ ga_name g @ asc '' gauge'') @
     (if ga_labels g = [] then metrics_line (ga_name g @ asc '' '' @ dec_i64 (gauge_get g))
      else metrics_line (ga_name g @ format_labels (ga_labels g) @ asc '' '' @ dec_i64 (gauge_get g)))"

section \<open>Histograms\<close>

text \<open>
  The percentiles the source asks for, and the operations of the package: creation and recording may
  fail; \<open>hi_recorded\<close> lists the recorded values with their counts.
\<close>

datatype Percentile = P50 | P90 | P99 | P99_9

record ('h, 'f) HistOps =
  hi_new_with_bounds :: "u64 \<Rightarrow> u64 \<Rightarrow> nat \<Rightarrow> 'h option"
  hi_high :: "'h \<Rightarrow> u64"
  hi_record :: "u64 \<Rightarrow> 'h \<Rightarrow> 'h option"
  hi_value_at_percentile :: "Percentile \<Rightarrow> 'h \<Rightarrow> u64"
  hi_mean :: "'h \<Rightarrow> 'f"
  hi_min :: "'h \<Rightarrow> u64"
  hi_max :: "'h \<Rightarrow> u64"
  hi_len :: "'h \<Rightarrow> u64"
  hi_reset :: "'h \<Rightarrow> 'h"
  hi_recorded :: "'h \<Rightarrow> (u64 \<times> u64) list"

record 'h LatencyHistogram =
  lh_name :: bytes
  lh_help :: bytes
  lh_histogram :: 'h

definition new_histogram :: "('h, 'f) HistOps \<Rightarrow> bytes \<Rightarrow> bytes \<Rightarrow> u64 \<Rightarrow> 'h LatencyHistogram run" where
  "new_histogram H name help max_value_ns =
     map_option (\<lambda>h. \<lparr>lh_name = name, lh_help = help, lh_histogram = h\<rparr>) (hi_new_with_bounds H 1 max_value_ns 3)"

definition histogram_record :: "('h, 'f) HistOps \<Rightarrow> u64 \<Rightarrow> 'h LatencyHistogram \<Rightarrow> 'h LatencyHistogram run" where
  "histogram_record H value_ns l =
     (let v = min value_ns (hi_high H (lh_histogram l)) in
      map_option (\<lambda>h. l\<lparr>lh_histogram := h\<rparr>) (hi_record H v (lh_histogram l)))"

definition histogram_percentile :: "('h, 'f) HistOps \<Rightarrow> Percentile \<Rightarrow> 'h LatencyHistogram \<Rightarrow> u64" where
  "histogram_percentile H p l = hi_value_at_percentile H p (lh_histogram l)"

definition histogram_mean :: "('h, 'f) HistOps \<Rightarrow> 'h LatencyHistogram \<Rightarrow> 'f" where
  "histogram_mean H l = hi_mean H (lh_histogram l)"

definition histogram_min :: "('h, 'f) HistOps \<Rightarrow> 'h LatencyHistogram \<Rightarrow> u64" where
  "histogram_min H l = hi_min H (lh_histogram l)"

definition histogram_max :: "('h, 'f) HistOps \<Rightarrow> 'h LatencyHistogram \<Rightarrow> u64" where
  "histogram_max H l = hi_max H (lh_histogram l)"

definition histogram_count :: "('h, 'f) HistOps \<Rightarrow> 'h LatencyHistogram \<Rightarrow> u64" where
  "histogram_count H l = hi_len H (lh_histogram l)"

definition histogram_reset :: "('h, 'f) HistOps \<Rightarrow> 'h LatencyHistogram \<Rightarrow> 'h LatencyHistogram" where
  "histogram_reset H l = l\<lparr>lh_histogram := hi_reset H (lh_histogram l)\<rparr>"

text \<open>
  \<open>q / 100.0\<close> in double precision, as \<open>Display\<close> writes it (the shortest text that reads back): the
  last of the four quotients is not the double nearest to \<open>0.999\<close>.
\<close>

definition quantile_text :: "Percentile \<Rightarrow> bytes" where
  "quantile_text p =
     (case p of P50 \<Rightarrow> asc ''0.5'' | P90 \<Rightarrow> asc ''0.9'' | P99 \<Rightarrow> asc ''0.99'' | P99_9 \<Rightarrow> asc ''0.9990000000000001'')"

definition recorded_sum :: "(u64 \<times> u64) list \<Rightarrow> u64" where
  "recorded_sum vs = foldl (\<lambda>s (v, n). s + v * n) 0 vs"

definition histogram_render :: "('h, 'f) HistOps \<Rightarrow> 'h LatencyHistogram \<Rightarrow> bytes" where
  "histogram_render H l =
     (let h = lh_histogram l in
      metrics_line (asc ''# HELP '' @ lh_name l @ asc '' '' @ lh_help l) @
      metrics_line (asc ''# TYPE '' @ lh_name l @ asc '' summary'') @
      concat (map (\<lambda>q. metrics_line (lh_name l @ asc ''{quantile=\"'' @ quantile_text q @ asc ''\"} '' @
          dec (unat (hi_value_at_percentile H q h)))) [P50, P90, P99, P99_9]) @
      metrics_line (lh_name l @ asc ''_count '' @ dec (unat (hi_len H h))) @
      metrics_line (lh_name l @ asc ''_sum '' @ dec (unat (recorded_sum (hi_recorded H h)))))"

section \<open>The registry\<close>

record MetricsSnapshot =
  ms_messages_parsed :: u64
  ms_messages_sent :: u64
  ms_messages_rejected :: u64
  ms_journal_writes :: u64
  ms_risk_checks_passed :: u64
  ms_risk_checks_blocked :: u64
  ms_kill_switch_activations :: u64
  ms_active_sessions :: i64
  ms_pending_resends :: i64
  ms_parse_latency_p50_ns :: u64
  ms_parse_latency_p99_ns :: u64
  ms_serialize_latency_p50_ns :: u64
  ms_serialize_latency_p99_ns :: u64
  ms_wire_to_wire_latency_p50_ns :: u64
  ms_wire_to_wire_latency_p99_ns :: u64
  ms_journal_write_latency_p50_ns :: u64
  ms_journal_write_latency_p99_ns :: u64

record 'h EngineMetrics =
  em_messages_parsed :: Counter
  em_messages_sent :: Counter
  em_messages_rejected :: Counter
  em_active_sessions :: Gauge
  em_pending_resends :: Gauge
  em_parse_latency_ns :: "'h LatencyHistogram"
  em_serialize_latency_ns :: "'h LatencyHistogram"
  em_wire_to_wire_latency_ns :: "'h LatencyHistogram"
  em_journal_writes :: Counter
  em_journal_write_latency_ns :: "'h LatencyHistogram"
  em_risk_checks_passed :: Counter
  em_risk_checks_blocked :: Counter
  em_kill_switch_activations :: Counter

definition MAX_LATENCY_NS :: u64 where "MAX_LATENCY_NS = 10000000000"

definition new_metrics :: "('h, 'f) HistOps \<Rightarrow> 'h EngineMetrics run" where
  "new_metrics H =
     Option.bind (new_histogram H (asc ''velocitas_parse_latency_ns'') (asc ''Parse latency in nanoseconds'') MAX_LATENCY_NS)
       (\<lambda>parse.
     Option.bind (new_histogram H (asc ''velocitas_serialize_latency_ns'') (asc ''Serialize latency in nanoseconds'') MAX_LATENCY_NS)
       (\<lambda>serialize.
     Option.bind (new_histogram H (asc ''velocitas_wire_to_wire_latency_ns'') (asc ''Wire-to-wire latency in nanoseconds'') MAX_LATENCY_NS)
       (\<lambda>wire.
     Option.bind (new_histogram H (asc ''velocitas_journal_write_latency_ns'') (asc ''Journal write latency in nanoseconds'') MAX_LATENCY_NS)
       (\<lambda>journal.
     Some
       \<lparr>em_messages_parsed = new_counter (asc ''velocitas_messages_parsed_total'') (asc ''Total FIX messages parsed''),
        em_messages_sent = new_counter (asc ''velocitas_messages_sent_total'') (asc ''Total FIX messages sent''),
        em_messages_rejected = new_counter (asc ''velocitas_messages_rejected_total'') (asc ''Total FIX messages rejected''),
        em_active_sessions = new_gauge (asc ''velocitas_active_sessions'') (asc ''Number of active FIX sessions''),
        em_pending_resends = new_gauge (asc ''velocitas_pending_resends'') (asc ''Number of pending resend requests''),
        em_parse_latency_ns = parse, em_serialize_latency_ns = serialize, em_wire_to_wire_latency_ns = wire,
        em_journal_writes = new_counter (asc ''velocitas_journal_writes_total'') (asc ''Total journal write operations''),
        em_journal_write_latency_ns = journal,
        em_risk_checks_passed = new_counter (asc ''velocitas_risk_checks_passed_total'') (asc ''Total risk checks that passed''),
        em_risk_checks_blocked = new_counter (asc ''velocitas_risk_checks_blocked_total'') (asc ''Total risk checks that blocked an order''),
        em_kill_switch_activations = new_counter (asc ''velocitas_kill_switch_activations_total'') (asc ''Total kill-switch activations'')\<rparr>))))"

definition render_prometheus :: "('h, 'f) HistOps \<Rightarrow> 'h EngineMetrics \<Rightarrow> bytes" where
  "render_prometheus H m =
     counter_render (em_messages_parsed m) @ [10] @
     counter_render (em_messages_sent m) @ [10] @
     counter_render (em_messages_rejected m) @ [10] @
     gauge_render (em_active_sessions m) @ [10] @
     gauge_render (em_pending_resends m) @ [10] @
     histogram_render H (em_parse_latency_ns m) @ [10] @
     histogram_render H (em_serialize_latency_ns m) @ [10] @
     histogram_render H (em_wire_to_wire_latency_ns m) @ [10] @
     counter_render (em_journal_writes m) @ [10] @
     histogram_render H (em_journal_write_latency_ns m) @ [10] @
     counter_render (em_risk_checks_passed m) @ [10] @
     counter_render (em_risk_checks_blocked m) @ [10] @
     counter_render (em_kill_switch_activations m)"

definition metrics_snapshot :: "('h, 'f) HistOps \<Rightarrow> 'h EngineMetrics \<Rightarrow> MetricsSnapshot" where
  "metrics_snapshot H m =
     \<lparr>ms_messages_parsed = counter_get (em_messages_parsed m),
      ms_messages_sent = counter_get (em_messages_sent m),
      ms_messages_rejected = counter_get (em_messages_rejected m),
      ms_journal_writes = counter_get (em_journal_writes m),
      ms_risk_checks_passed = counter_get (em_risk_checks_passed m),
      ms_risk_checks_blocked = counter_get (em_risk_checks_blocked m),
      ms_kill_switch_activations = counter_get (em_kill_switch_activations m),
      ms_active_sessions = gauge_get (em_active_sessions m),
      ms_pending_resends = gauge_get (em_pending_resends m),
      ms_parse_latency_p50_ns = histogram_percentile H P50 (em_parse_latency_ns m),
      ms_parse_latency_p99_ns = histogram_percentile H P99 (em_parse_latency_ns m),
      ms_serialize_latency_p50_ns = histogram_percentile H P50 (em_serialize_latency_ns m),
      ms_serialize_latency_p99_ns = histogram_percentile H P99 (em_serialize_latency_ns m),
      ms_wire_to_wire_latency_p50_ns = histogram_percentile H P50 (em_wire_to_wire_latency_ns m),
      ms_wire_to_wire_latency_p99_ns = histogram_percentile H P99 (em_wire_to_wire_latency_ns m),
      ms_journal_write_latency_p50_ns = histogram_percentile H P50 (em_journal_write_latency_ns m),
      ms_journal_write_latency_p99_ns = histogram_percentile H P99 (em_journal_write_latency_ns m)\<rparr>"

section \<open>Counters and gauges under threads\<close>

lemma counter_run: "counter_get (fold counter_inc_by es c) = counter_get c + sum_list es"
  by (induction es arbitrary: c) (simp_all add: counter_inc_by_def counter_get_def add.assoc)

lemma counter_inc_eq: "counter_inc = counter_inc_by 1"
  by (simp add: counter_inc_def counter_inc_by_def fun_eq_iff)

lemma counter_inc_times: "counter_get ((counter_inc ^^ n) c) = counter_get c + of_nat n"
  by (induction n) (simp_all add: counter_inc_def counter_get_def algebra_simps)

lemma unat_sum_small:
  "unat (v :: u64) + sum_list (map unat ns) < 2 ^ 64 \<Longrightarrow> unat (v + sum_list ns) = unat v + sum_list (map unat ns)"
proof (induction ns arbitrary: v)
  case (Cons n ns)
  have "unat (v + n) = unat v + unat n" using Cons.prems by (simp add: unat_word_ariths)
  then show ?case using Cons.IH [of "v + n"] Cons.prems by (simp add: add.assoc)
qed simp

text \<open>The operations on a gauge that move it, and their sum.\<close>

datatype gauge_move = Up | Down

definition gauge_step :: "gauge_move \<Rightarrow> Gauge \<Rightarrow> Gauge" where
  "gauge_step e = (case e of Up \<Rightarrow> gauge_inc | Down \<Rightarrow> gauge_dec)"

lemma gauge_run:
  "gauge_get (fold gauge_step es g) =
     gauge_get g + of_int (int (count (mset es) Up) - int (count (mset es) Down))"
proof (induction es arbitrary: g)
  case (Cons e es)
  from Cons.IH [of "gauge_step e g"] show ?case
    by (cases e) (simp_all add: gauge_step_def gauge_inc_def gauge_dec_def gauge_get_def)
qed simp

section \<open>Recording\<close>

text \<open>
  What the package documents: a value up to the highest trackable one is recorded, which adds one to the
  number of values (a count that saturates at \<open>2 ^ 64 - 1\<close>) and leaves the bounds alone.
\<close>

definition hist_law :: "('h, 'f) HistOps \<Rightarrow> ('h \<Rightarrow> bool) \<Rightarrow> bool" where
  "hist_law H ok \<longleftrightarrow>
     (\<forall>h v. ok h \<longrightarrow> v \<le> hi_high H h \<longrightarrow>
        (\<exists>h'. hi_record H v h = Some h' \<and> ok h' \<and> hi_high H h' = hi_high H h \<and>
           unat (hi_len H h') = min (unat (hi_len H h) + 1) (2 ^ 64 - 1)))"

fun record_all :: "('h, 'f) HistOps \<Rightarrow> u64 list \<Rightarrow> 'h LatencyHistogram \<Rightarrow> 'h LatencyHistogram run" where
  "record_all H [] l = Some l"
| "record_all H (v # vs) l = Option.bind (histogram_record H v l) (record_all H vs)"

text \<open>A histogram that keeps its values, to show that the laws can hold.\<close>

definition list_hist :: "(u64 \<times> u64 list, unit) HistOps" where
  "list_hist =
     \<lparr>hi_new_with_bounds = (\<lambda>_ hi _. Some (hi, [])), hi_high = fst,
      hi_record = (\<lambda>v (hi, vs). if v \<le> hi then Some (hi, v # vs) else None),
      hi_value_at_percentile = (\<lambda>_ (hi, vs). if vs = [] then 0 else hd (sort vs)), hi_mean = (\<lambda>_. ()),
      hi_min = (\<lambda>(hi, vs). fold min vs hi), hi_max = (\<lambda>(hi, vs). fold max vs 0),
      hi_len = (\<lambda>(hi, vs). of_nat (min (length vs) (2 ^ 64 - 1))), hi_reset = (\<lambda>(hi, vs). (hi, [])),
      hi_recorded = (\<lambda>(hi, vs). map (\<lambda>v. (v, 1)) vs)\<rparr>"

lemma list_hist_law: "hist_law list_hist (\<lambda>_. True)"
proof -
  have "unat (of_nat (min n (2 ^ 64 - 1)) :: u64) = min n (2 ^ 64 - 1)" for n
    by (rule unat_of_nat_small) (simp add: min_less_iff_disj)
  then show ?thesis by (auto simp: hist_law_def list_hist_def)
qed

section \<open>Properties\<close>

text \<open>
  A counter that several threads increase holds, whatever the interleaving of their atomic
  operations, its old value plus everything that was added, in \<open>u64\<close> arithmetic; as long as the total
  stays below \<open>2^64\<close> it is the exact total.
\<close>

theorem counter_threads:
  assumes "mset schedule = mset (concat threads)"
  shows "counter_get (fold counter_inc_by schedule c) = counter_get c + sum_list (concat threads) \<and>
    (unat (counter_get c) + sum_list (map unat (concat threads)) < 2 ^ 64 \<longrightarrow>
       unat (counter_get (fold counter_inc_by schedule c)) = unat (counter_get c) + sum_list (map unat (concat threads)))"
proof -
  have "sum_list schedule = sum_list (concat threads)" using assms by (metis sum_mset_sum_list)
  then show ?thesis by (simp add: counter_run unat_sum_small)
qed

theorem counter_threads_witness:
  "unat (counter_get (fold counter_inc_by [1, 5, 2] (new_counter [] []))) = 8"
  using counter_threads [of "[1, 5, 2]" "[[1, 2], [5]]" "new_counter [] []"]
  by (simp add: new_counter_def counter_get_def)

text \<open>
  Recording latencies never panics, however large they are: under the package's documented laws any
  sequence of values is recorded, clamped to the highest trackable value, and counted, up to the largest
  count a \<open>u64\<close> holds.
\<close>

theorem latencies_recorded:
  assumes "hist_law H ok" "ok (lh_histogram l)"
  shows "\<exists>l'. record_all H vs l = Some l' \<and>
    unat (histogram_count H l') = min (unat (histogram_count H l) + length vs) (2 ^ 64 - 1) \<and>
    hi_high H (lh_histogram l') = hi_high H (lh_histogram l) \<and> lh_name l' = lh_name l"
  using assms(2)
proof (induction vs arbitrary: l)
  case (Cons v vs)
  let ?h = "lh_histogram l"
  have "min v (hi_high H ?h) \<le> hi_high H ?h" by simp
  then obtain h where h: "hi_record H (min v (hi_high H ?h)) ?h = Some h" "ok h"
    "hi_high H h = hi_high H ?h" "unat (hi_len H h) = min (unat (hi_len H ?h) + 1) (2 ^ 64 - 1)"
    using assms(1) Cons.prems unfolding hist_law_def by blast
  let ?l = "l\<lparr>lh_histogram := h\<rparr>"
  have "histogram_record H v l = Some ?l" using h(1) by (simp add: histogram_record_def Let_def)
  moreover have "ok (lh_histogram ?l)" using h(2) by simp
  from Cons.IH [OF this] obtain l' where "record_all H vs ?l = Some l'"
    "unat (histogram_count H l') = min (unat (histogram_count H ?l) + length vs) (2 ^ 64 - 1)"
    "hi_high H (lh_histogram l') = hi_high H h" "lh_name l' = lh_name l" by auto
  ultimately show ?case using h by (simp add: histogram_count_def)
next
  case Nil
  have "unat (histogram_count H l) < 2 ^ 64" using unsigned_less [of "histogram_count H l"] by simp
  then show ?case by simp
qed

theorem latencies_recorded_witness:
  "\<exists>l'. record_all list_hist [3, 99] \<lparr>lh_name = [], lh_help = [], lh_histogram = (10, [])\<rparr> = Some l' \<and>
     histogram_count list_hist l' = 2"
  using latencies_recorded [OF list_hist_law, where l = "\<lparr>lh_name = [], lh_help = [], lh_histogram = (10, [])\<rparr>" and vs = "[3, 99]"]
  by (auto simp: histogram_count_def list_hist_def word_unat_eq_iff)

text \<open>
  Label values are not escaped, so a quote in one ends it: the rendered labels of one key read as those
  of two.
\<close>

lemma labels_not_escaped:
  "format_labels [(asc ''a'', asc ''x\",b=\"y'')] = format_labels [(asc ''a'', asc ''x''), (asc ''b'', asc ''y'')]"
  by (simp add: format_labels_def asc_def)

text \<open>The text of the highest quantile is not \<open>0.999\<close>.\<close>

lemma quantile_p999: "quantile_text P99_9 \<noteq> asc ''0.999''"
  by (simp add: quantile_text_def asc_def)

end
