(* ===== verification/Server.thy ===== *)
theory Server
  imports EngineProps Acceptor
begin

text \<open>
  \<open>src/src/server.rs\<close> and \<open>src/src/client.rs\<close>: the two programs that put the components together. A
  client connects a socket and runs an initiator; a server reads a Logon from each connection it
  accepts, registers the peer in the shared acceptor pool and runs an engine for it on a thread of its
  own. The socket is the \<open>Stream\<close> record of the socket transport, the clocks are a record of
  readings, and what other threads do to the pool while a session runs is a sequence of events.
\<close>

section \<open>The world of a socket engine\<close>

record 'c Clock =
  ck_now :: "'c \<Rightarrow> nat \<times> 'c"
  ck_wall :: "'c \<Rightarrow> u64 \<times> 'c"
  ck_wall_ms :: "'c \<Rightarrow> u64 \<times> 'c"

definition tcp_world :: "'s Stream \<Rightarrow> 'c Clock \<Rightarrow> ('c \<times> 's StdTcpTransport) World" where
  "tcp_world os ck =
     \<lparr>wo_now = (\<lambda>(c, t). let (n, c) = ck_now ck c in (n, c, t)),
      wo_wall = (\<lambda>(c, t). let (n, c) = ck_wall ck c in (n, c, t)),
      wo_send = (\<lambda>d (c, t). let (r, t) = tcp_send os d t in (r, c, t)),
      wo_recv = (\<lambda>n (c, t). let (r, t) = tcp_recv os n t in (r, c, t)),
      wo_close = (\<lambda>(c, t). (c, tcp_close t))\<rparr>"

lemma tcp_world_bounded: "read_bounded os \<Longrightarrow> recv_bounded (tcp_world os ck)"
  using transport.recv_bound [OF tcp_transport, of os]
  by (auto simp: recv_bounded_def tcp_world_def Let_def case_prod_beta)

section \<open>The client\<close>

record FixClientConfig =
  fc_remote_host :: bytes
  fc_remote_port :: u16
  fc_sender_comp_id :: bytes
  fc_target_comp_id :: bytes
  fc_fix_version :: bytes
  fc_heartbeat_interval :: nat
  fc_reconnect_attempts :: u32

definition default_client_config :: FixClientConfig where
  "default_client_config =
     \<lparr>fc_remote_host = asc ''127.0.0.1'', fc_remote_port = 9878, fc_sender_comp_id = [], fc_target_comp_id = [],
      fc_fix_version = asc ''FIX.4.4'', fc_heartbeat_interval = secs 30, fc_reconnect_attempts = 3\<rparr>"

definition client_session_config :: "FixClientConfig \<Rightarrow> SessionConfig" where
  "client_session_config c =
     \<lparr>sc_session_id = fc_sender_comp_id c @ asc ''-'' @ fc_target_comp_id c, sc_fix_version = fc_fix_version c,
      sc_sender_comp_id = fc_sender_comp_id c, sc_target_comp_id = fc_target_comp_id c, sc_role = Initiator,
      sc_heartbeat_interval = fc_heartbeat_interval c, sc_reconnect_interval = secs 1,
      sc_max_reconnect_attempts = fc_reconnect_attempts c, sc_sequence_reset_policy = Daily,
      sc_validate_comp_ids = True, sc_max_msg_rate = 50000\<rparr>"

text \<open>\<open>n\<close> iterations of the engine's loop; \<^const>\<open>None\<close> inside the pair means that it is still running.\<close>

definition connect_and_run ::
  "nat \<Rightarrow> 's Stream \<Rightarrow> 'c Clock \<Rightarrow> FixClientConfig \<Rightarrow> 'a App \<Rightarrow> 'a \<Rightarrow> 'c \<Rightarrow> ((IoKind + unit) option \<times> 'a) run" where
  "connect_and_run n os ck config app a c =
     (case tcp_connect os (fc_remote_host config) (fc_remote_port config) (new_std_tcp kernel_tcp) of
        (Inl err, _) \<Rightarrow> Some (Some (Inl err), a)
      | (Inr _, t) \<Rightarrow>
          (let (now, c) = ck_now ck c;
               e = new_initiator (c, t) (new_session now (client_session_config config)) in
           map_option (\<lambda>(r, a, _). (r, a)) (run_initiator n (tcp_world os ck) app a e)))"

section \<open>The server\<close>

record FixServerConfig =
  fs_bind_address :: bytes
  fs_port :: u16
  fs_sender_comp_id :: bytes
  fs_fix_version :: bytes
  fs_heartbeat_interval :: nat
  fs_allowed_comp_ids :: "bytes list"
  fs_max_connections :: nat
  fs_connection_pool_size :: nat

definition default_server_config :: FixServerConfig where
  "default_server_config =
     \<lparr>fs_bind_address = asc ''0.0.0.0'', fs_port = 9878, fs_sender_comp_id = asc ''VELOCITAS'',
      fs_fix_version = asc ''FIX.4.4'', fs_heartbeat_interval = secs 30, fs_allowed_comp_ids = [],
      fs_max_connections = 256, fs_connection_pool_size = 64\<rparr>"

definition server_acceptor_config :: "FixServerConfig \<Rightarrow> AcceptorConfig" where
  "server_acceptor_config c =
     default_acceptor_config
       \<lparr>ac_bind_address := fs_bind_address c, ac_port := fs_port c, ac_max_connections := fs_max_connections c,
        ac_connection_pool_size := fs_connection_pool_size c, ac_allowed_comp_ids := fs_allowed_comp_ids c\<rparr>"

definition server_session_config :: "FixServerConfig \<Rightarrow> u64 \<Rightarrow> bytes \<Rightarrow> SessionConfig" where
  "server_session_config c conn_id comp_id =
     \<lparr>sc_session_id = asc ''ACC-'' @ dec (unat conn_id), sc_fix_version = fs_fix_version c,
      sc_sender_comp_id = fs_sender_comp_id c, sc_target_comp_id = comp_id, sc_role = Session.Acceptor,
      sc_heartbeat_interval = fs_heartbeat_interval c, sc_reconnect_interval = 0, sc_max_reconnect_attempts = 0,
      sc_sequence_reset_policy = Daily, sc_validate_comp_ids = True, sc_max_msg_rate = 50000\<rparr>"

subsection \<open>The first message\<close>

definition check_logon :: "bytes \<Rightarrow> (IoKind + bytes) run" where
  "check_logon msg =
     (case parse new_parser msg of
        Inl _ \<Rightarrow> Some (Inl InvalidData)
      | Inr (view, _) \<Rightarrow>
          Option.bind (msg_type view) (\<lambda>mt.
            case mt of None \<Rightarrow> Some (Inl InvalidData)
            | Some mt \<Rightarrow>
                if mt \<noteq> asc ''A'' then Some (Inl InvalidData)
                else map_option (\<lambda>cid. case cid of None \<Rightarrow> Inl InvalidData | Some cid \<Rightarrow> Inr cid) (sender_comp_id view)))"

text \<open>
  Reading into the rest of a buffer of 4096 bytes until it starts with a whole message. A read that
  returns more than was asked for breaks the contract of \<open>Read\<close>; slicing the buffer by it panics.
\<close>

function read_logon :: "'s Stream \<Rightarrow> bytes \<Rightarrow> 's \<Rightarrow> ((IoKind + bytes) \<times> 's) run" where
  "read_logon os buf s =
     (case st_read os (4096 - length buf) s of
        (Inl err, s) \<Rightarrow> Some (Inl err, s)
      | (Inr d, s) \<Rightarrow>
          if d = [] then Some (Inl UnexpectedEof, s)
          else if 4096 < length buf + length d then None
          else
            (case find_message_boundary (buf @ d) of
               None \<Rightarrow> read_logon os (buf @ d) s
             | Some b \<Rightarrow> map_option (\<lambda>r. (r, s)) (check_logon (take b (buf @ d)))))"
  by pat_completeness auto
termination
proof (relation "measure (\<lambda>(os, buf, s). 4096 - length buf)", goal_cases)
  case (2 os buf s r s' d)
  then have "0 < length d" "\<not> 4096 < length buf + length d" by simp_all
  then show ?case by (simp del: length_greater_0_conv)
qed simp

declare read_logon.simps [simp del]

definition handshake :: "'s Stream \<Rightarrow> 's \<Rightarrow> (IoKind + bytes \<times> 's) run" where
  "handshake os s =
     (case st_set_nodelay os True s of Inl err \<Rightarrow> Some (Inl err)
      | Inr s \<Rightarrow>
     (case st_set_read_timeout os 10000 s of Inl err \<Rightarrow> Some (Inl err)
      | Inr s \<Rightarrow>
          map_option (\<lambda>(r, s). case r of Inl err \<Rightarrow> Inl err | Inr cid \<Rightarrow> Inr (cid, s)) (read_logon os [] s)))"

subsection \<open>One connection\<close>

datatype Outcome = Returned "IoKind + unit" | Running | Panicked

text \<open>
  The engine of an accepted connection: the transport takes the socket over, the session is new, and
  the Logon that was read is answered.
\<close>

definition open_session ::
  "'s Stream \<Rightarrow> 'c Clock \<Rightarrow> FixServerConfig \<Rightarrow> u64 \<Rightarrow> bytes \<Rightarrow> 's \<Rightarrow> 'c \<Rightarrow>
   (IoKind + ('c \<times> 's StdTcpTransport) Engine) run" where
  "open_session os ck config conn_id cid s c =
     (case tcp_from_stream os s kernel_tcp of Inl err \<Rightarrow> Some (Inl err)
      | Inr t \<Rightarrow>
          (let (now, c) = ck_now ck c;
               e = new_acceptor (c, t) (new_session now (server_session_config config conn_id cid)) in
           map_option (\<lambda>(r, e). case r of Inl err \<Rightarrow> Inl err | Inr _ \<Rightarrow> Inr e)
             (handle_inbound_logon (tcp_world os ck) e)))"

definition handle_connection ::
  "nat \<Rightarrow> 's Stream \<Rightarrow> 'c Clock \<Rightarrow> FixServerConfig \<Rightarrow> 'a App \<Rightarrow> 'a \<Rightarrow> AcceptorEvent list \<Rightarrow>
   bytes \<Rightarrow> 's \<Rightarrow> 'c \<Rightarrow> Acceptor \<Rightarrow> Outcome \<times> Acceptor" where
  "handle_connection n os ck config app a others remote s c acc =
     (case handshake os s of
        None \<Rightarrow> (Panicked, acc)
      | Some (Inl err) \<Rightarrow> (Returned (Inl err), acc)
      | Some (Inr (cid, s)) \<Rightarrow>
          (let (now_ms, c) = ck_wall_ms ck c; (now, c) = ck_now ck c in
           case accept_connection now remote cid now_ms acc of
             (Inl _, acc) \<Rightarrow> (Returned (Inl PermissionDenied), acc)
           | (Inr conn_id, acc) \<Rightarrow>
               (case open_session os ck config conn_id cid s c of
                  None \<Rightarrow> (Panicked, acc)
                | Some (Inl err) \<Rightarrow> (Returned (Inl err), acc)
                | Some (Inr e) \<Rightarrow>
                    (let acc = foldl acceptor_step acc others in
                     case run_acceptor n (tcp_world os ck) app a e of
                       None \<Rightarrow> (Panicked, acc)
                     | Some (None, _) \<Rightarrow> (Running, acc)
                     | Some (Some r, _) \<Rightarrow> (Returned r, snd (release_connection conn_id acc))))))"

subsection \<open>The accept loop\<close>

text \<open>
  Binding gives the results of the accepts; an accept that fails is skipped, and each other one becomes
  a thread with the peer's address as far as it is known.
\<close>

fun spawned :: "(IoKind + 's \<times> (IoKind + bytes)) list \<Rightarrow> ('s \<times> bytes) list" where
  "spawned [] = []"
| "spawned (Inl err # rest) = spawned rest"
| "spawned (Inr (s, addr) # rest) =
     (s, case addr of Inl _ \<Rightarrow> asc ''unknown'' | Inr remote \<Rightarrow> remote) # spawned rest"

definition server_start ::
  "(bytes \<Rightarrow> IoKind + (IoKind + 's \<times> (IoKind + bytes)) list) \<Rightarrow> FixServerConfig \<Rightarrow>
   IoKind + Acceptor \<times> ('s \<times> bytes) list" where
  "server_start listen config =
     (case listen (fs_bind_address config @ asc '':'' @ dec (unat (fs_port config))) of
        Inl err \<Rightarrow> Inl err
      | Inr incoming \<Rightarrow> Inr (new_acceptor_pool (server_acceptor_config config), spawned incoming))"

section \<open>The handshake\<close>

lemma check_logon_total: "check_logon msg \<noteq> None"
proof (cases "parse new_parser msg")
  case (Inl err)
  then show ?thesis by (simp add: check_logon_def)
next
  case (Inr r)
  then obtain v n where p: "parse new_parser msg = Inr (v, n)" by (cases r) auto
  then have v: "view_ok v" "idx_ok v" using parsed_view [OF p] by (simp_all add: new_parser_def)
  have "sender_comp_id v = Some (Option.bind (map_of (field_pairs v) SENDER_COMP_ID) from_utf8)"
    using get_field_map_of [OF v(1)] by (simp add: sender_comp_id_def get_field_str_def)
  then show ?thesis using p msg_type_last [OF v] by (simp add: check_logon_def split: option.split)
qed

lemma check_logon_sound:
  assumes "check_logon msg = Some (Inr cid)"
  obtains v n where "parse new_parser msg = Inr (v, n)" "msg_type v = Some (Some (asc ''A''))"
    "sender_comp_id v = Some (Some cid)"
  using assms that
  by (auto simp: check_logon_def split: sum.split_asm Option.bind_split_asm option.split_asm if_split_asm)

text \<open>
  The first message of a connection: a whole message within the first 4096 bytes, which parses as a
  Logon of the peer; and the bytes that a sequence of reads takes from a socket.
\<close>

definition first_logon :: "bytes \<Rightarrow> bytes \<Rightarrow> bool" where
  "first_logon data cid \<longleftrightarrow> length data \<le> 4096 \<and>
     (\<exists>b v n. find_message_boundary data = Some b \<and> parse new_parser (take b data) = Inr (v, n) \<and>
        msg_type v = Some (Some (asc ''A'')) \<and> sender_comp_id v = Some (Some cid))"

inductive received :: "'s Stream \<Rightarrow> 's \<Rightarrow> bytes \<Rightarrow> 's \<Rightarrow> bool" for os where
  received_none: "received os s [] s"
| received_more: "st_read os n s = (Inr d, s1) \<Longrightarrow> received os s1 data s' \<Longrightarrow> received os s (d @ data) s'"

lemma read_logon_sound:
  "read_logon os buf s = Some (Inr cid, s') \<Longrightarrow> \<exists>data. received os s data s' \<and> first_logon (buf @ data) cid"
proof (induction os buf s rule: read_logon.induct)
  case (1 os buf s)
  obtain r s1 where r: "st_read os (4096 - length buf) s = (r, s1)" by fastforce
  show ?case
  proof (cases r)
    case (Inr d)
    then have d: "d \<noteq> []" "\<not> 4096 < length buf + length d"
      using "1.prems" r by (auto simp: read_logon.simps [of os buf] split: if_splits)
    have got: "st_read os (4096 - length buf) s = (Inr d, s1)" using r Inr by simp
    show ?thesis
    proof (cases "find_message_boundary (buf @ d)")
      case None
      then have "read_logon os (buf @ d) s1 = Some (Inr cid, s')"
        using "1.prems" r Inr d by (simp add: read_logon.simps [of os buf])
      from "1.IH" [OF r [symmetric] Inr d None this] obtain data where
        "received os s1 data s'" "first_logon (buf @ d @ data) cid" by (auto simp: append_assoc)
      then show ?thesis using received_more [OF got] by blast
    next
      case (Some b)
      then have c: "check_logon (take b (buf @ d)) = Some (Inr cid)" "s1 = s'"
        using "1.prems" r Inr d by (auto simp: read_logon.simps [of os buf])
      obtain v n where "parse new_parser (take b (buf @ d)) = Inr (v, n)" "msg_type v = Some (Some (asc ''A''))"
        "sender_comp_id v = Some (Some cid)" using check_logon_sound [OF c(1)] .
      then have "first_logon (buf @ d) cid" using Some d unfolding first_logon_def by auto
      moreover have "received os s d s'" using received_more [OF got received_none] c(2) by simp
      ultimately show ?thesis by blast
    qed
  qed (use "1.prems" r in \<open>simp add: read_logon.simps [of os buf]\<close>)
qed

lemma read_logon_total:
  "read_bounded os \<Longrightarrow> length buf \<le> 4096 \<Longrightarrow> read_logon os buf s \<noteq> None"
proof (induction os buf s rule: read_logon.induct)
  case (1 os buf s)
  obtain r s1 where r: "st_read os (4096 - length buf) s = (r, s1)" by fastforce
  show ?case
  proof (cases r)
    case (Inr d)
    have "length d \<le> 4096 - length buf" using "1.prems"(1) r Inr unfolding read_bounded_def by (metis fst_conv)
    then have le: "length (buf @ d) \<le> 4096" using "1.prems" by simp
    show ?thesis
    proof (cases "d = []")
      case True
      then show ?thesis using r Inr by (simp add: read_logon.simps [of os buf])
    next
      case False
      show ?thesis
      proof (cases "find_message_boundary (buf @ d)")
        case None
        have "read_logon os (buf @ d) s1 \<noteq> None" using "1.IH" [OF r [symmetric] Inr False _ None] le "1.prems"(1) by simp
        then show ?thesis using r Inr False le None by (simp add: read_logon.simps [of os buf])
      next
        case (Some b)
        then show ?thesis using r Inr False le check_logon_total [of "take b (buf @ d)"]
          by (simp add: read_logon.simps [of os buf])
      qed
    qed
  qed (use r in \<open>simp add: read_logon.simps [of os buf]\<close>)
qed

lemma handshake_sound:
  assumes "handshake os s = Some (Inr (cid, s'))"
  shows "\<exists>s1 s2 data. st_set_nodelay os True s = Inr s1 \<and> st_set_read_timeout os 10000 s1 = Inr s2 \<and>
    received os s2 data s' \<and> first_logon data cid"
proof -
  from assms obtain s1 s2 where "st_set_nodelay os True s = Inr s1" "st_set_read_timeout os 10000 s1 = Inr s2"
    "read_logon os [] s2 = Some (Inr cid, s')"
    by (auto simp: handshake_def split: sum.split_asm prod.split_asm) (metis sum.exhaust)
  then show ?thesis using read_logon_sound [of os "[]" s2] by auto
qed

lemma handshake_total: "read_bounded os \<Longrightarrow> handshake os s \<noteq> None"
  using read_logon_total [of os "[]"] by (simp add: handshake_def split: sum.split)

text \<open>A buffer that is full without a message is reported as the end of the stream.\<close>

lemma full_buffer_eof:
  assumes "read_bounded os" "length buf = 4096" "read_logon os buf s = Some (r, s')"
  shows "\<exists>err. r = Inl err \<and> (err = UnexpectedEof \<or> fst (st_read os 0 s) = Inl err)"
proof -
  obtain x s1 where x: "st_read os 0 s = (x, s1)" by fastforce
  show ?thesis
  proof (cases x)
    case (Inr d)
    then have "d = []" using assms(1) x unfolding read_bounded_def by (metis fst_conv le_zero_eq length_0_conv)
    then show ?thesis using assms(2,3) x Inr by (simp add: read_logon.simps [of os buf])
  next
    case (Inl err)
    then show ?thesis using assms x by (auto simp: read_logon.simps [of os buf])
  qed
qed

section \<open>Opening a session\<close>

definition config_fits :: "FixServerConfig \<Rightarrow> bytes \<Rightarrow> bool" where
  "config_fits config cid \<longleftrightarrow>
     length (fs_fix_version config) + length (fs_sender_comp_id config) + length cid \<le> 3900 \<and>
     fs_heartbeat_interval config + secs 5 < secs (2 ^ 64)"

lemma inbound_logon_ok:
  assumes "engine_ok e" shows "\<exists>r e'. handle_inbound_logon W e = Some (r, e') \<and> engine_ok e'"
  unfolding handle_inbound_logon_def by (rule sends_ok) (use assms in simp)

lemma new_acceptor_ok: "cfg_fits (ss_config s) \<Longrightarrow> engine_ok (new_acceptor w s)"
  by (simp add: engine_ok_def new_acceptor_def new_initiator_def new_parser_def)

lemma open_session_ok:
  assumes "config_fits config cid"
  shows "open_session os ck config i cid s c \<noteq> None"
    "open_session os ck config i cid s c = Some (Inr e) \<Longrightarrow> engine_ok e"
proof -
  have fits: "cfg_fits (ss_config (new_session now (server_session_config config i cid)))" for now
    using assms by (simp add: cfg_fits_def config_fits_def new_session_def server_session_config_def)
  have "\<exists>r. open_session os ck config i cid s c = Some r \<and> (\<forall>e. r = Inr e \<longrightarrow> engine_ok e)"
  proof (cases "tcp_from_stream os s kernel_tcp")
    case (Inr t)
    obtain now c' where n: "ck_now ck c = (now, c')" by fastforce
    have "engine_ok (new_acceptor (c', t) (new_session now (server_session_config config i cid)))"
      by (rule new_acceptor_ok [OF fits])
    from inbound_logon_ok [OF this] obtain r e where r: "handle_inbound_logon (tcp_world os ck)
        (new_acceptor (c', t) (new_session now (server_session_config config i cid))) = Some (r, e)" "engine_ok e"
      by blast
    then show ?thesis using Inr n by (cases r) (simp_all add: open_session_def)
  qed (simp add: open_session_def)
  then show "open_session os ck config i cid s c \<noteq> None"
    "open_session os ck config i cid s c = Some (Inr e) \<Longrightarrow> engine_ok e" by auto
qed

section \<open>The connection and the pool\<close>

text \<open>The ways a connection can go, with what each does to the pool.\<close>

lemma connection_cases:
  assumes pre: "read_bounded os \<and> app_total app \<and>
    (\<forall>cid s'. handshake os s = Some (Inr (cid, s')) \<longrightarrow> config_fits config cid)"
    and c1: "ck_wall_ms ck c = (now_ms, c1)" and c2: "ck_now ck c1 = (now, c2)"
  obtains (refused) err where "handshake os s = Some (Inl err)"
      "handle_connection n os ck config app a others remote s c acc = (Returned (Inl err), acc)"
  | (denied) cid s' err where "handshake os s = Some (Inr (cid, s'))"
      "accept_connection now remote cid now_ms acc = reject acc err"
      "handle_connection n os ck config app a others remote s c acc =
         (Returned (Inl PermissionDenied), snd (reject acc err))"
  | (failed) cid s' i acc' err where "handshake os s = Some (Inr (cid, s'))"
      "accept_connection now remote cid now_ms acc = (Inr i, acc')"
      "open_session os ck config i cid s' c2 = Some (Inl err)"
      "handle_connection n os ck config app a others remote s c acc = (Returned (Inl err), acc')"
  | (running) cid s' i acc' e where "handshake os s = Some (Inr (cid, s'))"
      "accept_connection now remote cid now_ms acc = (Inr i, acc')"
      "open_session os ck config i cid s' c2 = Some (Inr e)"
      "handle_connection n os ck config app a others remote s c acc = (Running, foldl acceptor_step acc' others)"
  | (ended) cid s' i acc' e r where "handshake os s = Some (Inr (cid, s'))"
      "accept_connection now remote cid now_ms acc = (Inr i, acc')"
      "open_session os ck config i cid s' c2 = Some (Inr e)"
      "handle_connection n os ck config app a others remote s c acc =
         (Returned r, snd (release_connection i (foldl acceptor_step acc' others)))"
proof -
  have bounded: "read_bounded os" and total: "app_total app" and fits: "\<And>cid s'. handshake os s = Some (Inr (cid, s')) \<Longrightarrow> config_fits config cid"
    using pre by blast+
  consider err where "handshake os s = Some (Inl err)" | cid s' where "handshake os s = Some (Inr (cid, s'))"
    using handshake_total [OF bounded, of s] by (cases "handshake os s") (auto, metis sum.exhaust surj_pair)
  then show ?thesis
  proof cases
    case (1 err)
    then show ?thesis by (intro refused) (simp_all add: handle_connection_def)
  next
    case (2 cid s')
    show ?thesis
    proof (cases rule: accept_cases [where a = acc and now = now and addr = remote and cid = cid and t = now_ms])
      case (rejected err)
      then show ?thesis using 2 c1 c2 by (intro denied) (auto simp: handle_connection_def reject_def)
    next
      case (accepted slot sess)
      then obtain i acc' where acc: "accept_connection now remote cid now_ms acc = (Inr i, acc')" by blast
      note open_ok = open_session_ok [OF fits [OF 2], where os = os and ck = ck and i = i and s = s' and c = c2]
      obtain out where out: "open_session os ck config i cid s' c2 = Some out" using open_ok(1) by blast
      show ?thesis
      proof (cases out)
        case (Inl err)
        then show ?thesis using 2 c1 c2 acc out by (intro failed) (auto simp: handle_connection_def)
      next
        case (Inr e)
        then have "engine_ok e" using out open_ok(2) by simp
        from loop_ok [OF this tcp_world_bounded [OF bounded, where ck = ck] total, where n = n and a = a] obtain r a' e' where
          run: "run_acceptor n (tcp_world os ck) app a e = Some (r, a', e')"
          unfolding run_acceptor_def by blast
        show ?thesis
        proof (cases r)
          case None
          then show ?thesis using 2 c1 c2 acc out Inr run by (intro running) (auto simp: handle_connection_def)
        next
          case (Some x)
          then show ?thesis using 2 c1 c2 acc out Inr run by (intro ended) (auto simp: handle_connection_def)
        qed
      qed
    qed
  qed
qed

lemma accept_step: "accept_connection now addr cid t acc = (r, acc') \<Longrightarrow> acc' = acceptor_step acc (AcceptEv now addr cid t)"
  by simp

text \<open>Releasing an id leaves no slot in use under it.\<close>

lemma release_clears:
  assumes "ids_ok a" "c \<in> set (aa_connections (snd (release_connection i a)))" "pc_id c = i"
  shows "pc_state c = Available"
proof (cases "update_first (\<lambda>c. pc_id c = i \<and> pc_state c \<noteq> Available) clear_slot (aa_connections a)")
  case None
  have "update_first P f xs = None \<Longrightarrow> \<forall>x \<in> set xs. \<not> P x" for P f and xs :: "PooledConnection list"
    by (induction xs) (auto split: if_splits)
  from this [OF None] show ?thesis using assms(2,3) None by (auto simp: release_connection_def)
next
  case (Some cs)
  from update_first_Some [OF Some] obtain j where j: "j < length (aa_connections a)"
    "pc_id (aa_connections a ! j) = i" "cs = (aa_connections a)[j := clear_slot (aa_connections a ! j)]" by blast
  obtain k where k: "k < length cs" "c = cs ! k"
    using assms(2) Some by (auto simp: release_connection_def in_set_conv_nth)
  show ?thesis
  proof (cases "k = j")
    case True
    then show ?thesis using k j by (simp add: clear_slot_def)
  next
    case False
    then have "pc_id (aa_connections a ! k) = i" using k j assms(3) by simp
    then have "k = j" using assms(1) j k by (auto simp: ids_ok_def nth_eq_iff_index_eq distinct_conv_nth)
    with False show ?thesis by simp
  qed
qed

section \<open>Properties\<close>

text \<open>
  C11. A connection on the server. Let the socket keep the contract of a read, the application not
  panic, and the identifiers of a client that gets through the handshake fit a message. Then, whatever the
  peer sends, the thread does not panic, and what happens to the shared pool is exactly: nothing, when the
  handshake fails; the refused accept of that client; its accept alone, when the session cannot be opened;
  its accept and then what other threads do, while the session runs; and the same followed by the release
  of the very id the accept returned, when it has ended. The pool's invariants therefore survive it.
\<close>

theorem server_connection_safe:
  assumes "read_bounded os" "app_total app"
    and "\<And>cid s'. handshake os s = Some (Inr (cid, s')) \<Longrightarrow> config_fits config cid"
    and "ck_wall_ms ck c = (now_ms, c1)" "ck_now ck c1 = (now, c2)"
  shows "\<exists>outcome events.
    handle_connection n os ck config app a others remote s c acc = (outcome, foldl acceptor_step acc events) \<and>
    (case handshake os s of
       None \<Rightarrow> False
     | Some (Inl err) \<Rightarrow> outcome = Returned (Inl err) \<and> events = []
     | Some (Inr (cid, s')) \<Rightarrow>
         (case fst (accept_connection now remote cid now_ms acc) of
            Inl _ \<Rightarrow> outcome = Returned (Inl PermissionDenied) \<and> events = [AcceptEv now remote cid now_ms]
          | Inr i \<Rightarrow>
              (\<exists>err. open_session os ck config i cid s' c2 = Some (Inl err) \<and>
                 outcome = Returned (Inl err) \<and> events = [AcceptEv now remote cid now_ms]) \<or>
              (\<exists>e. open_session os ck config i cid s' c2 = Some (Inr e) \<and>
                 (outcome = Running \<and> events = AcceptEv now remote cid now_ms # others \<or>
                  (\<exists>r. outcome = Returned r \<and> events = AcceptEv now remote cid now_ms # others @ [ReleaseEv i])))))"
proof -
  have pre: "read_bounded os \<and> app_total app \<and>
      (\<forall>cid s'. handshake os s = Some (Inr (cid, s')) \<longrightarrow> config_fits config cid)"
    using assms(1-3) by blast
  from pre assms(4,5) show ?thesis
  proof (cases rule: connection_cases [where os = os and s = s and config = config and n = n and ck = ck and app = app and a = a and others = others
        and remote = remote and c = c and acc = acc])
    case (refused err)
    then show ?thesis by (intro exI [of _ "Returned (Inl err)"] exI [of _ "[]"]) simp
  next
    case (denied cid s' err)
    then have "snd (reject acc err) = acceptor_step acc (AcceptEv now remote cid now_ms)"
      "fst (accept_connection now remote cid now_ms acc) = Inl err" by (simp_all add: reject_def)
    then show ?thesis using denied(1,3)
      by (intro exI [of _ "Returned (Inl PermissionDenied)"] exI [of _ "[AcceptEv now remote cid now_ms]"])
        (simp del: acceptor_step.simps)
  next
    case (failed cid s' i acc' err)
    then have "acceptor_step acc (AcceptEv now remote cid now_ms) = acc'"
      "fst (accept_connection now remote cid now_ms acc) = Inr i" by simp_all
    then show ?thesis using failed(1,3,4)
      by (intro exI [of _ "Returned (Inl err)"] exI [of _ "[AcceptEv now remote cid now_ms]"])
        (simp del: acceptor_step.simps)
  next
    case (running cid s' i acc' e)
    then have "acceptor_step acc (AcceptEv now remote cid now_ms) = acc'"
      "fst (accept_connection now remote cid now_ms acc) = Inr i" by simp_all
    then show ?thesis using running(1,3,4)
      by (intro exI [of _ Running] exI [of _ "AcceptEv now remote cid now_ms # others"])
        (simp del: acceptor_step.simps)
  next
    case (ended cid s' i acc' e r)
    then have "acceptor_step acc (AcceptEv now remote cid now_ms) = acc'"
      "fst (accept_connection now remote cid now_ms acc) = Inr i" by simp_all
    then show ?thesis using ended(1,3,4)
      by (intro exI [of _ "Returned r"] exI [of _ "AcceptEv now remote cid now_ms # others @ [ReleaseEv i]"])
        (simp del: acceptor_step.simps(1))
  qed
qed

text \<open>
  C13. The gate of the server. A session is only opened for a peer whose first bytes on the socket, at most
  4096 of them, begin with a whole valid Logon that names it; a peer that is not allowed or already connected is
  refused and only counted; and a peer that does not get as far as a Logon leaves the pool as it was.
\<close>

theorem server_gate:
  shows "(\<forall>cid s'. handshake os s = Some (Inr (cid, s')) \<longrightarrow>
      (\<exists>s1 s2 data. st_set_nodelay os True s = Inr s1 \<and> st_set_read_timeout os 10000 s1 = Inr s2 \<and>
         received os s2 data s' \<and> first_logon data cid) \<and>
      (\<not> is_comp_id_allowed acc cid \<or> find_by_comp_id acc cid \<noteq> None \<longrightarrow>
        handle_connection n os ck config app a others remote s c acc =
          (Returned (Inl PermissionDenied), acc\<lparr>aa_total_rejected := aa_total_rejected acc + 1\<rparr>))) \<and>
    ((\<nexists>cid s'. handshake os s = Some (Inr (cid, s'))) \<longrightarrow>
      snd (handle_connection n os ck config app a others remote s c acc) = acc)"
proof (intro conjI allI impI)
  fix cid s' assume h: "handshake os s = Some (Inr (cid, s'))"
  then show "\<exists>s1 s2 data. st_set_nodelay os True s = Inr s1 \<and> st_set_read_timeout os 10000 s1 = Inr s2 \<and>
      received os s2 data s' \<and> first_logon data cid" by (rule handshake_sound)
  assume "\<not> is_comp_id_allowed acc cid \<or> find_by_comp_id acc cid \<noteq> None"
  then have "\<exists>err. accept_connection now remote cid t acc = reject acc err" for now t
    by (auto simp: accept_connection_def simp del: not_None_eq)
  then show "handle_connection n os ck config app a others remote s c acc =
      (Returned (Inl PermissionDenied), acc\<lparr>aa_total_rejected := aa_total_rejected acc + 1\<rparr>)"
    using h by (auto simp: handle_connection_def reject_def split: prod.split sum.split) (metis Inl_Inr_False prod.inject)+
next
  assume "\<nexists>cid s'. handshake os s = Some (Inr (cid, s'))"
  then show "snd (handle_connection n os ck config app a others remote s c acc) = acc"
    by (auto simp: handle_connection_def split: option.split sum.split)
qed

text \<open>The session of a connection just opened.\<close>

lemma send_logon_session:
  assumes "send_logon W e = Some (Inr (), e')"
  shows "ss_state (fe_session e') = ss_state (fe_session e)"
    "ss_inbound_seq_num (fe_session e') = ss_inbound_seq_num (fe_session e)"
    "ss_config (fe_session e') = ss_config (fe_session e)" "fe_recv e' = fe_recv e" "fe_parser e' = fe_parser e"
  using assms
  by (auto simp: send_logon_def send_built_def session_sent_def instant_def now_timestamp_def
      next_outbound_seq_num_def on_message_sent_def Let_def bind_eq_Some_conv split: prod.splits sum.splits)

lemma instant_keeps:
  "instant W e = (t, e') \<Longrightarrow> fe_session e' = fe_session e \<and> fe_recv e' = fe_recv e \<and> fe_parser e' = fe_parser e"
  by (auto simp: instant_def split: prod.splits)

lemma session_connected_keeps:
  "ss_inbound_seq_num (fe_session (session_connected W e)) = ss_inbound_seq_num (fe_session e)"
  "fe_recv (session_connected W e) = fe_recv e" "fe_parser (session_connected W e) = fe_parser e"
proof -
  obtain t e1 where e1: "instant W e = (t, e1)" by fastforce
  obtain t' e2 where e2: "instant W e1 = (t', e2)" by fastforce
  show "ss_inbound_seq_num (fe_session (session_connected W e)) = ss_inbound_seq_num (fe_session e)"
    "fe_recv (session_connected W e) = fe_recv e" "fe_parser (session_connected W e) = fe_parser e"
    using e1 e2 instant_keeps [OF e1] instant_keeps [OF e2]
    by (simp_all add: session_connected_def on_connected_def split: SessionState.split)
qed

lemma session_logon_keeps:
  "ss_state (fe_session (session_logon W e)) = Active"
  "ss_inbound_seq_num (fe_session (session_logon W e)) = ss_inbound_seq_num (fe_session e)"
  "fe_recv (session_logon W e) = fe_recv e" "fe_parser (session_logon W e) = fe_parser e"
  by (simp_all add: session_logon_def instant_def on_logon_def Let_def split: prod.split)

lemma opened_session:
  assumes "open_session os ck config i cid s c = Some (Inr e)"
  shows "ss_state (fe_session e) = Active" "ss_inbound_seq_num (fe_session e) = 1" "fe_recv e = []"
    "fe_parser e = new_parser"
proof -
  obtain t where t: "tcp_from_stream os s kernel_tcp = Inr t"
    using assms by (auto simp: open_session_def split: sum.splits)
  obtain now c' where n: "ck_now ck c = (now, c')" by fastforce
  let ?s = "new_session now (server_session_config config i cid)"
  let ?W = "tcp_world os ck" and ?e = "new_acceptor (c', t) (new_session now (server_session_config config i cid))"
  let ?l = "session_logon ?W (session_connected ?W ?e)"
  have logon: "send_logon ?W ?l = Some (Inr (), e)"
    using assms t n
    by (auto simp: open_session_def handle_inbound_logon_def split: prod.splits sum.split_asm)
      (metis (full_types) sum.exhaust unit.exhaust)
  have "ss_inbound_seq_num (fe_session ?e) = 1" "fe_recv ?e = []" "fe_parser ?e = new_parser"
    by (simp_all add: new_acceptor_def new_initiator_def new_session_def)
  then have "ss_state (fe_session ?l) = Active" "ss_inbound_seq_num (fe_session ?l) = 1" "fe_recv ?l = []"
    "fe_parser ?l = new_parser"
    by (simp_all add: session_logon_keeps session_connected_keeps)
  then show "ss_state (fe_session e) = Active" "ss_inbound_seq_num (fe_session e) = 1" "fe_recv e = []"
    "fe_parser e = new_parser"
    using send_logon_session [OF logon] by simp_all
qed

text \<open>
  A session that is behind: it expects number 1 and is not Active. The operations of a dispatch keep
  it so.
\<close>

definition behind :: "'w Engine \<Rightarrow> bool" where
  "behind e \<longleftrightarrow> fe_parser e = new_parser \<and> ss_inbound_seq_num (fe_session e) = 1 \<and>
     ss_state (fe_session e) \<in> {Resending, LogoutSent}"

lemma session_sent_behind: "behind (session_sent W e) = behind e"
  by (simp add: behind_def session_sent_def instant_def on_message_sent_def Let_def split: prod.split)

lemma send_built_behind:
  assumes "send_built W build after e = Some (r, e')" "behind e" "\<And>s. after s = s \<or> after s = on_logout_sent s"
  shows "behind e'"
proof -
  obtain ts w where w: "wo_wall W (fe_world e) = (ts, w)" by fastforce
  obtain seq s where n: "next_outbound_seq_num (fe_session e) = (seq, s)" by fastforce
  then have s: "behind (e\<lparr>fe_session := s\<rparr>)" "behind (e\<lparr>fe_session := on_logout_sent s\<rparr>)"
    using assms(2) by (auto simp: next_outbound_seq_num_def behind_def on_logout_sent_def)
  obtain buf len where b: "build (fe_send_buf e) (ss_config s) seq (to_fix_timestamp ts) = Some (buf, len)"
    using assms(1) w n by (auto simp: send_built_def now_timestamp_def Let_def Option.bind_eq_Some_conv)
  obtain x w' where x: "wo_send W (take len buf) w = (x, w')" by fastforce
  have keep: "behind (e\<lparr>fe_session := s', fe_world := w', fe_send_buf := buf\<rparr>) = behind (e\<lparr>fe_session := s'\<rparr>)" for s'
    by (simp add: behind_def)
  show ?thesis
  proof (cases x)
    case (Inl err)
    then show ?thesis using assms(1) w n b x s keep by (auto simp: send_built_def now_timestamp_def Let_def)
  next
    case (Inr k)
    then have "e' = session_sent W (e\<lparr>fe_world := w', fe_send_buf := buf, fe_session := after s\<rparr>)"
      using assms(1) w n b x by (simp add: send_built_def now_timestamp_def Let_def)
    moreover have "behind (e\<lparr>fe_world := w', fe_send_buf := buf, fe_session := after s\<rparr>)"
      using s assms(3) [of s] by (auto simp: behind_def)
    ultimately show ?thesis by (simp add: session_sent_behind)
  qed
qed

lemma run_app_behind: "run_app W p e = Some (r, a, e') \<Longrightarrow> behind e \<Longrightarrow> behind e'"
proof (induction p arbitrary: e)
  case (SendRaw d k)
  obtain x e1 where s: "send_raw W d e = (x, e1)" by fastforce
  then have "behind e1" using SendRaw.prems(2)
    by (auto simp: send_raw_def session_sent_def instant_def on_message_sent_def next_outbound_seq_num_def behind_def Let_def
        split: prod.splits sum.splits)
  then show ?case using SendRaw.IH [OF rangeI] SendRaw.prems(1) s by simp
next
  case (RequestStop p)
  then show ?case by (simp add: request_stop_def behind_def on_logout_sent_def)
next
  case (AskNow k)
  obtain x e1 where s: "instant W e = (x, e1)" by fastforce
  then have "behind e1" using AskNow.prems(2) instant_keeps [OF s] by (simp add: behind_def)
  then show ?case using AskNow.IH [OF rangeI] AskNow.prems(1) s by simp
next
  case (AskWall k)
  obtain t w where "wo_wall W (fe_world e) = (t, w)" by fastforce
  then show ?case using AskWall.IH [OF rangeI] AskWall.prems by (simp add: behind_def)
qed auto

text \<open>What is left after a message: behind still, or at the end.\<close>

definition behind_or_over :: "'w Engine \<Rightarrow> bool" where
  "behind_or_over e \<longleftrightarrow> behind e \<or>
     fe_parser e = new_parser \<and> ss_inbound_seq_num (fe_session e) = 1 \<and> ss_state (fe_session e) = Disconnected"

lemma then_do_Some:
  assumes "then_do m a rest = Some (r, a', e')"
  obtains err where "m = Some (Inl err, e')" "r = Inl err" "a' = a"
  | e1 where "m = Some (Inr (), e1)" "rest e1 = Some (r, a', e')"
proof -
  obtain x e1 where m: "m = Some (x, e1)" using assms by (auto simp: then_do_def Option.bind_eq_Some_conv)
  then show ?thesis using assms that by (cases x) (auto simp: then_do_def)
qed

lemma dispatch_behind:
  assumes "dispatch W app mt v a e = Some (r, a', e')" "behind e" shows "behind_or_over e'"
proof -
  have st: "ss_state (fe_session e) \<noteq> Disconnected" "ss_state (fe_session e) \<noteq> Connecting"
    "ss_state (fe_session e) \<noteq> LogonSent" using assms(2) by (auto simp: behind_def)
  have over: "behind_or_over (e1\<lparr>fe_session := on_disconnected (fe_session e1), fe_should_stop := True\<rparr>)"
    if "behind e1" for e1 :: "'w Engine" using that by (simp add: behind_or_over_def behind_def on_disconnected_def)
  have sent: "behind e1" if "send_heartbeat W e = Some (x, e1) \<or> send_logout W e = Some (x, e1)" for x e1
    using that assms(2) send_built_behind unfolding send_heartbeat_def send_logout_def by blast
  consider "mt = asc ''A''" | "mt = asc ''0''" | "mt = asc ''1''" | "mt = asc ''5''"
    | "mt \<noteq> asc ''A'' \<and> mt \<noteq> asc ''0'' \<and> mt \<noteq> asc ''1'' \<and> mt \<noteq> asc ''5''" by blast
  then show ?thesis
  proof cases
    case 1
    then show ?thesis using assms st by (simp add: dispatch_def dispatch_logon_def Let_def behind_or_over_def)
  next
    case 2
    then show ?thesis using assms by (simp add: dispatch_def asc_def behind_or_over_def)
  next
    case 3
    then have "then_do (send_heartbeat W e) a (\<lambda>e. Some (Inr (), a, e)) = Some (r, a', e')"
      using assms(1) by (simp add: dispatch_def asc_def)
    then obtain x where "send_heartbeat W e = Some (x, e')" by (rule then_do_Some) auto
    then show ?thesis using sent by (auto simp: behind_or_over_def)
  next
    case 4
    then have d: "dispatch_logout W app a e = Some (r, a', e')" using assms(1) by (simp add: dispatch_def asc_def)
    obtain y a1 where y: "ap_on_logout app a = (y, a1)" by fastforce
    show ?thesis
    proof (cases y)
      case (Inl err)
      then show ?thesis using d y assms(2) by (simp add: dispatch_logout_def behind_or_over_def)
    next
      case (Inr u)
      show ?thesis
      proof (cases "ss_state (fe_session e) = LogoutSent")
        case True
        then show ?thesis using d y Inr over [OF assms(2)] by (auto simp: dispatch_logout_def)
      next
        case False
        then have "then_do (send_logout W e) a1 (\<lambda>e. Some (Inr (), a1,
            e\<lparr>fe_session := on_disconnected (fe_session e), fe_should_stop := True\<rparr>)) = Some (r, a', e')"
          using d y Inr by (simp add: dispatch_logout_def)
        then obtain x e1 where "send_logout W e = Some (x, e1)"
          "e' = e1 \<or> e' = e1\<lparr>fe_session := on_disconnected (fe_session e1), fe_should_stop := True\<rparr>"
          by (rule then_do_Some) auto
        moreover from this have "behind e1" using sent by blast
        ultimately show ?thesis using over [of e1] by (auto simp: behind_or_over_def [of e1])
      qed
    qed
  next
    case 5
    then have "run_app W (ap_on_message app mt v a) e = Some (r, a', e')"
      using assms(1) by (simp add: dispatch_def call_app_def)
    from run_app_behind [OF this assms(2)] show ?thesis by (simp add: behind_or_over_def)
  qed
qed

text \<open>The messages of a list handled one after the other, up to the first error.\<close>

fun handle_all :: "'w World \<Rightarrow> 'a App \<Rightarrow> bytes list \<Rightarrow> 'a \<Rightarrow> 'w Engine \<Rightarrow> ('a, 'w) result" where
  "handle_all W app [] a e = Some (Inr (), a, e)"
| "handle_all W app (m # ms) a e =
     (case handle_message W app m a e of
        Some (Inr _, a, e) \<Rightarrow> handle_all W app ms a e
      | r \<Rightarrow> r)"

text \<open>A message that parses, has a type, and carries a number above 1.\<close>

definition numbered_above_1 :: "bytes \<Rightarrow> bool" where
  "numbered_above_1 m \<longleftrightarrow> (\<exists>v k mt q. parse new_parser m = Inr (v, k) \<and> msg_type v = Some (Some mt) \<and>
     msg_seq_num v = Some (Some q) \<and> 1 < q)"

lemma tcp_instant: "instant (tcp_world os ck) e = (n, e') \<Longrightarrow> snd (fe_world e') = snd (fe_world e)"
  by (auto simp: instant_def tcp_world_def split: prod.splits)

lemma gap_message:
  fixes e :: "('c \<times> 's StdTcpTransport) Engine"
  assumes "fe_parser e = new_parser" "ss_inbound_seq_num (fe_session e) = 1"
    and "parse new_parser msg = Inr (v, k)" "msg_type v = Some (Some mt)" "msg_seq_num v = Some (Some q)" "1 < q"
  shows "\<exists>e'. handle_message (tcp_world os ck) app msg a e = dispatch (tcp_world os ck) app mt v a e' \<and>
    ss_state (fe_session e') = Resending \<and> behind e' \<and> snd (fe_world e') = snd (fe_world e)"
proof -
  let ?W = "tcp_world os ck"
  obtain t e1 where i: "instant ?W e = (t, e1)" by fastforce
  let ?e1 = "session_received ?W e" and ?e = "session_validate ?W q (session_received ?W e)"
  have e1: "fe_parser ?e1 = new_parser" "ss_inbound_seq_num (fe_session ?e1) = 1" "snd (fe_world ?e1) = snd (fe_world e)"
    using i instant_keeps [OF i] tcp_instant [OF i] assms(1,2)
    by (simp_all add: session_received_def on_message_received_def)
  have "q \<noteq> 1" using assms(6) by auto
  then have "fe_session ?e = (fe_session ?e1)\<lparr>ss_state := Resending\<rparr>" "fe_parser ?e = fe_parser ?e1" "fe_world ?e = fe_world ?e1"
    using e1(2) assms(6) by (simp_all add: session_validate_def Let_def validate_inbound_seq_def)
  moreover have "handle_message ?W app msg a e = dispatch ?W app mt v a ?e"
    by (rule handle_parsed) (use assms in simp_all)
  ultimately show ?thesis using e1 by (intro exI [of _ ?e]) (simp add: behind_def)
qed

lemma handle_all_behind:
  fixes e :: "('c \<times> 's StdTcpTransport) Engine"
  assumes app: "app_total app"
  shows "engine_ok e \<Longrightarrow> fe_parser e = new_parser \<Longrightarrow> ss_inbound_seq_num (fe_session e) = 1 \<Longrightarrow>
    list_all numbered_above_1 ms \<Longrightarrow>
    \<exists>r a' e'. handle_all (tcp_world os ck) app ms a e = Some (r, a', e') \<and> engine_ok e' \<and>
      fe_parser e' = new_parser \<and> ss_inbound_seq_num (fe_session e') = 1 \<and> (ms \<noteq> [] \<longrightarrow> behind_or_over e')"
proof (induction ms arbitrary: a e)
  case (Cons m ms)
  let ?W = "tcp_world os ck"
  obtain v k mt q where m: "parse new_parser m = Inr (v, k)" "msg_type v = Some (Some mt)"
    "msg_seq_num v = Some (Some q)" "1 < q" using Cons.prems(4) by (auto simp: numbered_above_1_def)
  obtain e1 where e1: "handle_message ?W app m a e = dispatch ?W app mt v a e1" "behind e1"
    using gap_message [OF Cons.prems(2,3) m, of os ck app a] by blast
  obtain r a2 e2 where h: "handle_message ?W app m a e = Some (r, a2, e2)" "engine_ok e2"
    using safe_handle [OF app Cons.prems(1), of ?W m a] by (auto simp: safe_def)
  have over: "behind_or_over e2" using dispatch_behind e1 h(1) by metis
  then have e2: "fe_parser e2 = new_parser" "ss_inbound_seq_num (fe_session e2) = 1"
    by (auto simp: behind_or_over_def behind_def)
  show ?case
  proof (cases r)
    case (Inl err)
    then show ?thesis using h over e2 by simp
  next
    case (Inr u)
    have "list_all numbered_above_1 ms" using Cons.prems(4) by simp
    from Cons.IH [OF h(2) e2 this, of a2] obtain r' a' e' where
      "handle_all ?W app ms a2 e2 = Some (r', a', e')" "engine_ok e'" "fe_parser e' = new_parser"
      "ss_inbound_seq_num (fe_session e') = 1" "ms \<noteq> [] \<longrightarrow> behind_or_over e'" by blast
    then show ?thesis using h Inr over by (cases "ms = []") auto
  qed
qed simp

lemma timer_off:
  assumes "ss_state (fe_session e) \<noteq> Active"
  shows "drive_timer W e = Some (Inr False, snd (instant W e))"
proof -
  obtain now e1 where i: "instant W e = (now, e1)" by fastforce
  then have "ss_state (fe_session e1) \<noteq> Active" using assms core_instant by metis
  then show ?thesis unfolding drive_timer_def i by (simp add: check_heartbeat_def)
qed

text \<open>
  C21. The server's sequence numbers are one behind. The Logon is read before the session exists, so the
  session opened for it is Active and still expects number 1. The peer's messages after it carry higher
  numbers. Whatever list of such messages has been handled (by an application that does not panic, with
  identifiers that fit a message), the expected number is still 1, and after the first of them the session
  is in Resending, or LogoutSent or Disconnected at its end, with its heartbeat timer off. And each next one
  is taken for a gap: it moves the session to Resending and is then dispatched like the expected one, with
  nothing sent in between, so no resend is requested.
\<close>

theorem server_first_message_gap:
  assumes "open_session os ck config i cid s c = Some (Inr e)"
    and "config_fits config cid" "app_total app" "list_all numbered_above_1 ms"
  shows "ss_state (fe_session e) = Active \<and>
    (\<exists>r a' e'. handle_all (tcp_world os ck) app ms a e = Some (r, a', e') \<and>
       ss_inbound_seq_num (fe_session e') = 1 \<and>
       (ms \<noteq> [] \<longrightarrow> ss_state (fe_session e') \<in> {Resending, LogoutSent, Disconnected} \<and>
          drive_timer (tcp_world os ck) e' = Some (Inr False, snd (instant (tcp_world os ck) e'))) \<and>
       (\<forall>msg v k mt q. parse new_parser msg = Inr (v, k) \<and> msg_type v = Some (Some mt) \<and>
          msg_seq_num v = Some (Some q) \<and> 1 < q \<longrightarrow>
          (\<exists>e''. handle_message (tcp_world os ck) app msg a' e' = dispatch (tcp_world os ck) app mt v a' e'' \<and>
             ss_state (fe_session e'') = Resending \<and> ss_inbound_seq_num (fe_session e'') = 1 \<and>
             snd (fe_world e'') = snd (fe_world e'))))"
proof -
  let ?W = "tcp_world os ck"
  note opened = opened_session [OF assms(1)]
  obtain r a' e' where h: "handle_all ?W app ms a e = Some (r, a', e')" "fe_parser e' = new_parser"
    "ss_inbound_seq_num (fe_session e') = 1" "ms \<noteq> [] \<longrightarrow> behind_or_over e'"
    using handle_all_behind [OF assms(3) open_session_ok(2) [OF assms(2,1)] opened(4,2) assms(4)] by blast
  have "ss_state (fe_session e') \<in> {Resending, LogoutSent, Disconnected} \<and>
      drive_timer ?W e' = Some (Inr False, snd (instant ?W e'))" if "ms \<noteq> []"
    using that h(4) timer_off [of e' ?W] by (auto simp: behind_or_over_def behind_def)
  moreover have "\<exists>e''. handle_message ?W app msg a' e' = dispatch ?W app mt v a' e'' \<and>
      ss_state (fe_session e'') = Resending \<and> ss_inbound_seq_num (fe_session e'') = 1 \<and>
      snd (fe_world e'') = snd (fe_world e')"
    if "parse new_parser msg = Inr (v, k) \<and> msg_type v = Some (Some mt) \<and> msg_seq_num v = Some (Some q) \<and> 1 < q"
    for msg v k mt q
    using gap_message [OF h(2,3), of msg v k mt q os ck app a'] that unfolding behind_def by blast
  ultimately show ?thesis using opened(1) h(1,3) by blast
qed

text \<open>
  C22. The life of a pool slot. When the session of a connection has run and ended, no slot is in use under
  its id any more. When the session cannot be opened (the socket fails or the answer to the Logon cannot
  be sent) the slot is kept: whatever happens to the pool afterwards, as long as it is not an eviction (the
  server never evicts) or a release of that very id (which only this connection's thread has), the CompID
  stays taken and every later connection of the peer is refused.
\<close>

theorem server_slot:
  assumes "acc = foldl acceptor_step (new_acceptor_pool cfg) es"
    and "ac_connection_pool_size cfg + length es + length others + 1 < 2 ^ 64"
    and "handshake os s = Some (Inr (cid, s'))" "ck_wall_ms ck c = (t, c1)" "ck_now ck c1 = (now, c2)"
    and "accept_connection now remote cid t acc = (Inr i, acc')"
  shows "(\<forall>e r rest. open_session os ck config i cid s' c2 = Some (Inr e) \<and>
        run_acceptor n (tcp_world os ck) app a e = Some (Some r, rest) \<longrightarrow>
        fst (handle_connection n os ck config app a others remote s c acc) = Returned r \<and>
        (\<forall>slot \<in> set (aa_connections (snd (handle_connection n os ck config app a others remote s c acc))).
           pc_id slot = i \<longrightarrow> pc_state slot = Available)) \<and>
    (\<forall>err later. open_session os ck config i cid s' c2 = Some (Inl err) \<and> list_all (leaves_slot i) later \<longrightarrow>
        handle_connection n os ck config app a others remote s c acc = (Returned (Inl err), acc') \<and>
        find_by_comp_id (foldl acceptor_step acc' later) cid = Some i \<and>
        (\<forall>now' addr t'. accept_connection now' addr cid t' (foldl acceptor_step acc' later) =
           reject (foldl acceptor_step acc' later) (AlreadyConnected cid)))"
proof (intro conjI allI impI)
  fix e r rest
  assume run: "open_session os ck config i cid s' c2 = Some (Inr e) \<and>
    run_acceptor n (tcp_world os ck) app a e = Some (Some r, rest)"
  let ?a = "foldl acceptor_step (new_acceptor_pool cfg) (es @ AcceptEv now remote cid t # others)"
  have a: "foldl acceptor_step acc' others = ?a" using accept_step [OF assms(6)] assms(1) by simp
  have h: "handle_connection n os ck config app a others remote s c acc = (Returned r, snd (release_connection i ?a))"
    using assms(3-6) run a by (simp add: handle_connection_def split: prod.splits)
  then show "fst (handle_connection n os ck config app a others remote s c acc) = Returned r" by simp
  have pool: "ac_connection_pool_size cfg < 2 ^ 64" using assms(2) by simp
  have "ids_ok ?a"
    using assms(2) new_acceptor_ids(2) [OF pool] by (intro acceptor_run_ids [OF new_acceptor_ids(1) [OF pool]]) simp
  then show "\<forall>slot \<in> set (aa_connections (snd (handle_connection n os ck config app a others remote s c acc))).
      pc_id slot = i \<longrightarrow> pc_state slot = Available"
    using release_clears h by simp
next
  fix err later
  assume l: "open_session os ck config i cid s' c2 = Some (Inl err) \<and> list_all (leaves_slot i) later"
  let ?acc = "foldl acceptor_step acc' later"
  show "handle_connection n os ck config app a others remote s c acc = (Returned (Inl err), acc')"
    using assms(3-6) l by (simp add: handle_connection_def)
  have inv: "acc_inv acc" using acceptor_machine.run_inv [OF new_acceptor_inv] assms(1) by blast
  have add: "add_client acc cid (now, remote, t) = Some (i, acc')" using assms(6) by (simp add: add_client_def)
  have inv': "acc_inv acc'" using accept_inv [OF inv, of now remote cid t] assms(6) by simp
  have seated: "seated i cid ?acc"
    using clients.find_added [OF inv add] l by (intro run_seated found_seated) simp_all
  have ok: "acc_inv ?acc" by (rule acceptor_machine.run_inv [OF inv'])
  show "find_by_comp_id ?acc cid = Some i" by (rule seated_found [OF ok seated])
  fix now' addr t'
  have "\<not> ac_require_auth (aa_config acc)" "is_comp_id_allowed acc cid"
    using assms(6) by (auto simp: accept_connection_def reject_def split: if_splits)
  moreover have "aa_config ?acc = aa_config acc"
    using accept_step [OF assms(6)] acceptor_step_aa_config
      acceptor_machine.run_const [of aa_config, OF acceptor_step_aa_config inv'] by metis
  ultimately show "accept_connection now' addr cid t' ?acc = reject ?acc (AlreadyConnected cid)"
    by (intro seated_refuses [OF ok seated]) (simp_all add: is_comp_id_allowed_def)
qed

section \<open>A client at the server's gate\<close>

lemma send_logon_result:
  assumes "length (fe_send_buf e) = 4096" "cfg_fits (ss_config (fe_session e))" "wo_wall W (fe_world e) = (t, w1)"
  shows "\<exists>r e'. send_logon W e = Some (r, e') \<and>
    (r = (case fst (wo_send W (logon_text (ss_config (fe_session e)) (ss_outbound_seq_num (fe_session e))
       (to_fix_timestamp t)) w1) of Inl err \<Rightarrow> Inl err | Inr _ \<Rightarrow> Inr ()))"
proof -
  let ?c = "ss_config (fe_session e)" and ?n = "ss_outbound_seq_num (fe_session e)"
  let ?d = "logon_text ?c ?n (to_fix_timestamp t)"
  obtain x w2 where w2: "wo_send W ?d w1 = (x, w2)" by fastforce
  have b: "logon_builder (fe_send_buf e) ?c ?n (to_fix_timestamp t) =
      Some (?d @ drop (length ?d) (fe_send_buf e), length ?d)"
    using texts_fit(1) [OF assms(2) stamp_length, of ?n t] assms(1) by (simp add: builders_emit emit_fits)
  show ?thesis
    unfolding send_logon_def
    using send_built_run [where build = logon_builder and after = "\<lambda>s. s" and x = x and ?w2.0 = w2,
        OF assms(3) b] w2
    by (cases x) simp_all
qed

text \<open>A socket that delivers given pieces and then the end of the stream; writing may be broken.\<close>

definition chunk_stream :: "bool \<Rightarrow> bytes list Stream" where
  "chunk_stream up =
     \<lparr>st_read = (\<lambda>n ds. case ds of [] \<Rightarrow> (Inr [], [])
        | d # ds \<Rightarrow> if length d \<le> n then (Inr d, ds) else (Inr (take n d), drop n d # ds)),
      st_write_all = (\<lambda>_ ds. (if up then Inr () else Inl BrokenPipe, ds)), st_shutdown = (\<lambda>_. ()),
      st_connect = (\<lambda>_ _. Inl NotConnected), st_set_nodelay = (\<lambda>_. Inr), st_set_read_timeout = (\<lambda>_. Inr)\<rparr>"

lemma chunk_stream_bounded: "read_bounded (chunk_stream up)"
  by (auto simp: read_bounded_def chunk_stream_def split: list.splits if_splits)

lemma logon_text_checks:
  assumes "cfg_clean c" "length ts = 21" "SOH \<notin> set ts" "utf8_valid (sc_sender_comp_id c)"
  shows "check_logon (logon_text c seq ts) = Some (Inr (sc_sender_comp_id c))"
    "find_message_boundary (logon_text c seq ts) = Some (length (logon_text c seq ts))"
    "length (logon_text c seq ts) \<le> 4096"
    "\<exists>v. parse new_parser (logon_text c seq ts) = Inr (v, length (logon_text c seq ts)) \<and>
       msg_type v = Some (Some (asc ''A'')) \<and> msg_seq_num v = Some (Some seq)"
proof -
  let ?fs = "[(SENDER_COMP_ID, sc_sender_comp_id c), (TARGET_COMP_ID, sc_target_comp_id c),
      (MSG_SEQ_NUM, dec (unat seq)), (SENDING_TIME, ts), (ENCRYPT_METHOD, int_text 0),
      (HEARTBT_INT, int_text (of_nat (sc_heartbeat_interval c div 1000000000)))]"
  show len: "length (logon_text c seq ts) \<le> 4096" using texts_fit(1) assms by (auto simp: cfg_clean_def)
  have good: "list_all good_field ?fs"
    using assms by (simp add: good_field_def tag_defs cfg_clean_def dec_no_soh int_text_no_soh)
  have mt: "SOH \<notin> set (asc ''A'')" by (simp add: asc_def SOH_def)
  have sz: "length (wire (sc_fix_version c) ((MSG_TYPE, asc ''A'') # ?fs) @ []) \<le> fp_max_message_size new_parser"
    using len by (simp add: logon_text_def new_parser_def)
  have b: "SOH \<notin> set (sc_fix_version c)" using assms(1) by (simp add: cfg_clean_def)
  obtain v where v: "parse new_parser (logon_text c seq ts) = Inr (v, length (logon_text c seq ts))"
    "view_ok v" "idx_ok v" "field_pairs v = parsed_fields (sc_fix_version c) ((MSG_TYPE, asc ''A'') # ?fs)"
    using parse_wire_helper [OF b mt good _ sz] by (auto simp: logon_text_def MAX_FIELDS_def new_parser_def)
  have ty: "msg_type v = Some (Some (asc ''A''))"
    using v by (intro msg_type_parsed) (auto simp: tag_defs)
  have "sender_comp_id v = Some (Some (sc_sender_comp_id c))"
    using v(4) get_field_map_of [OF v(2)] assms(4)
    by (simp add: sender_comp_id_def get_field_str_def parsed_fields_def tag_defs from_utf8_def)
  then show "check_logon (logon_text c seq ts) = Some (Inr (sc_sender_comp_id c))"
    using v(1) ty by (simp add: check_logon_def)
  have "msg_seq_num v = Some (Some seq)"
    using v(4) get_field_map_of [OF v(2)]
    by (simp add: msg_seq_num_def get_field_u64_def parsed_fields_def tag_defs parse_u64_dec)
  then show "\<exists>v. parse new_parser (logon_text c seq ts) = Inr (v, length (logon_text c seq ts)) \<and>
      msg_type v = Some (Some (asc ''A'')) \<and> msg_seq_num v = Some (Some seq)" using v(1) ty by blast
  have "list_all good_field ((MSG_TYPE, asc ''A'') # ?fs)" using good mt by (simp add: good_field_def tag_defs)
  from find_boundary_wire [OF b this, of "[]"]
  show "find_message_boundary (logon_text c seq ts) = Some (length (logon_text c seq ts))"
    by (simp add: logon_text_def)
qed

text \<open>A message that arrives in pieces is read whole.\<close>

lemma read_logon_pieces:
  assumes "find_message_boundary d = Some (length d)" "length d \<le> 4096" "check_logon d = Some (Inr cid)"
  shows "buf @ concat ds = d \<Longrightarrow> [] \<notin> set ds \<Longrightarrow> ds \<noteq> [] \<Longrightarrow>
    read_logon (chunk_stream up) buf ds = Some (Inr cid, [])"
proof (induction ds arbitrary: buf)
  case (Cons x ds)
  have x: "x \<noteq> []" "length buf + length x \<le> 4096" using Cons.prems assms(2) by auto
  have read: "st_read (chunk_stream up) (4096 - length buf) (x # ds) = (Inr x, ds)"
    using x by (simp add: chunk_stream_def)
  show ?case
  proof (cases ds)
    case Nil
    then show ?thesis using Cons.prems assms read x by (simp add: read_logon.simps [of "chunk_stream up" buf])
  next
    case (Cons y ys)
    have more: "0 < length (concat ds)" using Cons Cons.prems by auto
    have "find_message_boundary (buf @ x) = None"
    proof (rule ccontr)
      assume "find_message_boundary (buf @ x) \<noteq> None"
      then obtain b where b: "find_message_boundary (buf @ x) = Some b" by blast
      have "d = (buf @ x) @ concat ds" using Cons.prems by simp
      with boundary_append [OF b, of "concat ds"] have "find_message_boundary d = Some b" by simp
      then have "b = length d" using assms(1) by simp
      moreover have "b \<le> length (buf @ x)" using boundary_le [OF b] by blast
      ultimately show False using more Cons.prems by auto
    qed
    moreover have "read_logon (chunk_stream up) (buf @ x) ds = Some (Inr cid, [])"
      using Cons.prems Cons by (intro Cons.IH) auto
    ultimately show ?thesis using read x by (simp add: read_logon.simps [of "chunk_stream up" buf])
  qed
qed simp

text \<open>
  C12. Client and server meet. Let the client's FIX version and CompIDs hold no SOH and together at most
  3900 bytes, its SenderCompID be valid UTF-8 (as a Rust \<open>String\<close> is), its heartbeat interval plus five
  seconds stay below \<open>2 ^ 64\<close> seconds and its send buffer have the engine's 4096 bytes. Then the bytes its
  engine hands to the socket as its Logon, cut into non-empty pieces in any way, are accepted by the
  server's handshake as the Logon of exactly that client, with nothing left over.
\<close>

theorem client_logon_admitted:
  assumes "length (fe_send_buf e) = 4096" "cfg_clean (ss_config (fe_session e))"
    and "utf8_valid (sc_sender_comp_id (ss_config (fe_session e)))" "wo_wall W (fe_world e) = (t, w1)"
    and "concat ds = logon_text (ss_config (fe_session e)) (ss_outbound_seq_num (fe_session e)) (to_fix_timestamp t)"
    and "[] \<notin> set ds"
  shows "(\<exists>r e'. send_logon W e = Some (r, e') \<and>
      (r = (case fst (wo_send W (concat ds) w1) of Inl err \<Rightarrow> Inl err | Inr _ \<Rightarrow> Inr ()))) \<and>
    handshake (chunk_stream up) ds = Some (Inr (sc_sender_comp_id (ss_config (fe_session e)), []))"
proof -
  let ?c = "ss_config (fe_session e)" and ?n = "ss_outbound_seq_num (fe_session e)"
  let ?d = "logon_text ?c ?n (to_fix_timestamp t)"
  note d = logon_text_checks [OF assms(2) stamp_length stamp_no_soh assms(3), of ?n t]
  have "\<exists>r e'. send_logon W e = Some (r, e') \<and>
      (r = (case fst (wo_send W ?d w1) of Inl err \<Rightarrow> Inl err | Inr _ \<Rightarrow> Inr ()))"
    using send_logon_result [OF assms(1) _ assms(4)] assms(2) by (simp add: cfg_clean_def)
  moreover have "ds \<noteq> []" using assms(5) d(2) by (auto simp: find_message_boundary_def split: if_splits)
  then have "read_logon (chunk_stream up) [] ds = Some (Inr (sc_sender_comp_id ?c), [])"
    using assms(5,6) by (intro read_logon_pieces [OF d(2,3,1)]) simp_all
  then have "handshake (chunk_stream up) ds = Some (Inr (sc_sender_comp_id ?c, []))"
    by (simp add: handshake_def) (simp add: chunk_stream_def)
  ultimately show ?thesis using assms(5) by simp
qed

section \<open>Concrete connections\<close>

lemma tcp_session_ops:
  "snd (fe_world (session_connected (tcp_world os ck) e)) = snd (fe_world e)"
  "snd (fe_world (session_logon (tcp_world os ck) e)) = snd (fe_world e)"
proof -
  let ?W = "tcp_world os ck"
  obtain n e1 where e1: "instant ?W e = (n, e1)" by fastforce
  obtain n' e2 where e2: "instant ?W e1 = (n', e2)" by fastforce
  show "snd (fe_world (session_connected ?W e)) = snd (fe_world e)" "snd (fe_world (session_logon ?W e)) = snd (fe_world e)"
    using e1 e2 tcp_instant [OF e1] tcp_instant [OF e2] by (simp_all add: session_connected_def session_logon_def)
qed

lemma open_session_chunks:
  assumes "config_fits config cid"
  shows "\<exists>e. open_session (chunk_stream up) ck config i cid s c = Some (if up then Inr e else Inl BrokenPipe)"
proof -
  let ?os = "chunk_stream up"
  let ?t = "\<lparr>tt_stream = Some s, tt_connected = True, tt_config = kernel_tcp\<rparr>"
  obtain now c' where n: "ck_now ck c = (now, c')" by fastforce
  let ?s = "new_session now (server_session_config config i cid)"
  let ?e = "new_acceptor (c', ?t) (new_session now (server_session_config config i cid))"
  let ?l = "session_logon (tcp_world ?os ck) (session_connected (tcp_world ?os ck) ?e)"
  have fits: "cfg_fits (ss_config ?s)"
    using assms by (simp add: cfg_fits_def config_fits_def new_session_def server_session_config_def)
  then have "engine_ok ?l" using new_acceptor_ok by simp
  then have ok: "length (fe_send_buf ?l) = 4096" "cfg_fits (ss_config (fe_session ?l))" by (simp_all add: engine_ok_def)
  have "snd (fe_world ?l) = ?t" by (simp add: tcp_session_ops new_acceptor_def new_initiator_def)
  then obtain k where k: "fe_world ?l = (k, ?t)" by (metis prod.collapse)
  obtain w k' where w: "ck_wall ck k = (w, k')" by fastforce
  then have wall: "wo_wall (tcp_world ?os ck) (fe_world ?l) = (w, k', ?t)" using k by (simp add: tcp_world_def)
  have send: "fst (wo_send (tcp_world ?os ck) d (k', ?t)) = (if up then Inr (length d) else Inl BrokenPipe)" for d
    by (simp add: tcp_world_def tcp_send_def chunk_stream_def)
  from send_logon_result [OF ok wall] obtain e' where
    "send_logon (tcp_world ?os ck) ?l = Some (if up then Inr () else Inl BrokenPipe, e')"
    using send by (cases up) auto
  moreover have "tcp_from_stream ?os s kernel_tcp = Inr ?t"
    by (simp add: tcp_from_stream_def tcp_configure_def chunk_stream_def)
  ultimately show ?thesis using n by (cases up) (simp_all add: open_session_def handle_inbound_logon_def)
qed

definition fixed_clock :: "unit Clock" where
  "fixed_clock = \<lparr>ck_now = Pair 0, ck_wall = Pair 0, ck_wall_ms = Pair 0\<rparr>"

definition sample_client :: SessionConfig where
  "sample_client = client_session_config (default_client_config\<lparr>fc_sender_comp_id := [67], fc_target_comp_id := [83]\<rparr>)"

definition sample_logon :: bytes where
  "sample_logon = logon_text sample_client 1 (to_fix_timestamp 0)"

lemma sample_client_clean: "cfg_clean sample_client" "sc_sender_comp_id sample_client = [67]" "utf8_valid [67]"
  by (simp_all add: sample_client_def client_session_config_def default_client_config_def cfg_clean_def cfg_fits_def
      secs_def asc_def SOH_def utf8_valid_ascii)

lemmas sample_checks = logon_text_checks [OF sample_client_clean(1) stamp_length stamp_no_soh
  sample_client_clean(3) [folded sample_client_clean(2)], of 1 0, folded sample_logon_def, unfolded sample_client_clean(2)]

lemma sample_handshake: "handshake (chunk_stream up) [sample_logon] = Some (Inr ([67], []))"
proof -
  have "sample_logon \<noteq> []" using sample_checks(2) by (auto simp: find_message_boundary_def split: if_splits)
  then have "read_logon (chunk_stream up) [] [sample_logon] = Some (Inr [67], [])"
    by (intro read_logon_pieces [OF sample_checks(2,3,1)]) auto
  then show ?thesis by (simp add: handshake_def) (simp add: chunk_stream_def)
qed

lemma sample_fits: "config_fits default_server_config [67]"
  by (simp add: config_fits_def default_server_config_def secs_def asc_def)

theorem client_logon_admitted_witness:
  "handshake (chunk_stream True) [take 9 sample_logon, drop 9 sample_logon] = Some (Inr ([67], []))"
proof -
  let ?e = "new_initiator ((), new_std_tcp kernel_tcp) (new_session 0 sample_client)"
  have len: "20 \<le> length sample_logon"
    using sample_checks(4) by (auto simp: parse_def Let_def split: if_splits)
  have "take 9 sample_logon \<noteq> []" "drop 9 sample_logon \<noteq> []" using len by auto
  then show ?thesis
    using client_logon_admitted [of ?e "tcp_world (chunk_stream True) fixed_clock" 0 "((), new_std_tcp kernel_tcp)"
        "[take 9 sample_logon, drop 9 sample_logon]" True] sample_client_clean
    by (simp add: new_initiator_def new_session_def sample_logon_def tcp_world_def fixed_clock_def)
qed

theorem server_connection_safe_witness:
  "\<exists>outcome events. handle_connection 3 (chunk_stream True) fixed_clock default_server_config quiet_app () [] [] [sample_logon] ()
      (new_acceptor_pool (server_acceptor_config default_server_config)) =
    (outcome, foldl acceptor_step (new_acceptor_pool (server_acceptor_config default_server_config)) events) \<and>
    outcome \<noteq> Panicked \<and> length events \<le> 2"
  using server_connection_safe [OF chunk_stream_bounded quiet_app_total, of True "[sample_logon]" default_server_config
      fixed_clock "()" 0 "()" 0 "()" 3 "()" "[]" "[]" "new_acceptor_pool (server_acceptor_config default_server_config)"]
    sample_handshake [of True] sample_fits
  by (fastforce simp: fixed_clock_def split: sum.splits)

definition strict_config :: FixServerConfig where
  "strict_config = default_server_config\<lparr>fs_allowed_comp_ids := [[88]], fs_connection_pool_size := 1\<rparr>"

theorem server_gate_witness:
  "let acc = new_acceptor_pool (server_acceptor_config strict_config) in
   handle_connection 3 (chunk_stream True) fixed_clock strict_config quiet_app () [] [] [sample_logon] () acc =
     (Returned (Inl PermissionDenied), acc\<lparr>aa_total_rejected := aa_total_rejected acc + 1\<rparr>)"
proof -
  have "\<not> is_comp_id_allowed (new_acceptor_pool (server_acceptor_config strict_config)) [67]"
    by (simp add: is_comp_id_allowed_def new_acceptor_pool_def server_acceptor_config_def strict_config_def Let_def
        default_server_config_def)
  then show ?thesis
    using server_gate [where os = "chunk_stream True" and s = "[sample_logon]" and n = 3 and ck = fixed_clock and
        config = strict_config and app = quiet_app and a = "()" and others = "[]" and remote = "[]" and c = "()" and
        acc = "new_acceptor_pool (server_acceptor_config strict_config)"] sample_handshake [of True] by (simp add: Let_def)
qed

theorem server_first_message_gap_witness:
  "let m = heartbeat_text sample_client 2 (to_fix_timestamp 0) in
   \<exists>e r a' e'. open_session (chunk_stream True) fixed_clock default_server_config 0 [67] [] () = Some (Inr e) \<and>
     handle_all (tcp_world (chunk_stream True) fixed_clock) quiet_app [m, m] () e = Some (r, a', e') \<and>
     ss_inbound_seq_num (fe_session e') = 1 \<and> ss_state (fe_session e') \<noteq> Active"
proof -
  let ?m = "heartbeat_text sample_client 2 (to_fix_timestamp 0)"
  obtain e where e: "open_session (chunk_stream True) fixed_clock default_server_config 0 [67] [] () = Some (Inr e)"
    using open_session_chunks [OF sample_fits, of True fixed_clock 0 "[]" "()"] by auto
  have "(1 :: u64) < 2" by simp
  then have m: "list_all numbered_above_1 [?m, ?m]"
    using heartbeat_text_parses [OF sample_client_clean(1) stamp_length stamp_no_soh, of 2 0]
    unfolding numbered_above_1_def by auto
  from server_first_message_gap [OF e sample_fits quiet_app_total m, of "()"] e show ?thesis
    unfolding Let_def by fastforce
qed

theorem server_slot_witness:
  "let cfg = server_acceptor_config (default_server_config\<lparr>fs_connection_pool_size := 1\<rparr>);
       acc = new_acceptor_pool cfg; (r, acc') = accept_connection 0 [] [67] 0 acc;
       later = [AcceptEv 1 [] [66] 1, DrainEv 7] in
   handle_connection 3 (chunk_stream False) fixed_clock default_server_config quiet_app () [] [] [sample_logon] () acc =
     (Returned (Inl BrokenPipe), acc') \<and>
   accept_connection 5 [] [67] 5 (foldl acceptor_step acc' later) =
     reject (foldl acceptor_step acc' later) (AlreadyConnected [67])"
proof -
  let ?cfg = "server_acceptor_config (default_server_config\<lparr>fs_connection_pool_size := 1\<rparr>)"
  let ?acc = "new_acceptor_pool ?cfg"
  have "\<exists>i acc'. accept_connection 0 [] [67] 0 ?acc = (Inr i, acc')"
    by (simp add: new_acceptor_pool_def Let_def accept_connection_def server_acceptor_config_def
        default_server_config_def default_acceptor_config_def is_comp_id_allowed_def find_by_comp_id_def
        is_active_def empty_slot_def)
  then obtain i acc' where acc: "accept_connection 0 [] [67] 0 ?acc = (Inr i, acc')" by blast
  have "open_session (chunk_stream False) fixed_clock default_server_config i [67] [] () = Some (Inl BrokenPipe)"
    using open_session_chunks [OF sample_fits, of False fixed_clock i "[]" "()"] by simp
  moreover have "list_all (leaves_slot i) [AcceptEv 1 [] [66] 1, DrainEv 7]" by simp
  moreover have "ac_connection_pool_size ?cfg = 1" by (simp add: server_acceptor_config_def)
  then have fit: "ac_connection_pool_size ?cfg + length ([] :: AcceptorEvent list) + length ([] :: AcceptorEvent list) + 1 < 2 ^ 64"
    by simp
  have init: "?acc = foldl acceptor_step (new_acceptor_pool ?cfg) []" by simp
  have clock: "ck_wall_ms fixed_clock () = (0, ())" "ck_now fixed_clock () = (0, ())" by (simp_all add: fixed_clock_def)
  moreover note conjunct2 [OF server_slot [of ?acc ?cfg "[]" "[]" "chunk_stream False" "[sample_logon]" "[67]" "[]" fixed_clock "()" 0 "()" 0
        "()" "[]" i acc' default_server_config 3 quiet_app "()", OF init fit sample_handshake clock acc]]
  ultimately have "handle_connection 3 (chunk_stream False) fixed_clock default_server_config quiet_app () [] [] [sample_logon] () ?acc =
        (Returned (Inl BrokenPipe), acc') \<and>
      accept_connection 5 [] [67] 5 (foldl acceptor_step acc' [AcceptEv 1 [] [66] 1, DrainEv 7]) =
        reject (foldl acceptor_step acc' [AcceptEv 1 [] [66] 1, DrainEv 7]) (AlreadyConnected [67])"
    by blast
  then show ?thesis using acc unfolding Let_def by simp
qed

end
