(* ===== verification/Apps.thy ===== *)
theory Apps
  imports EngineProps
begin

text \<open>
  The applications of the demonstration binaries (\<open>src/src/bin/aeron_demo.rs\<close>, \<open>tcp_demo.rs\<close>,
  \<open>session_demo.rs\<close>, \<open>bench_tcp.rs\<close>): exchanges that answer an order with a fill, and traders that send
  orders and stop. Each callback is the tree of what it asks of the engine's context, in the order of the
  code; what it prints is left out. A builder that runs off its buffer panics, and so does the callback.
\<close>

section \<open>Requests to the context\<close>

definition or_panic :: "'x run \<Rightarrow> ('x \<Rightarrow> 'a app_prog) \<Rightarrow> 'a app_prog" where
  "or_panic m k = (case m of None \<Rightarrow> AppPanic | Some x \<Rightarrow> k x)"

definition unwrap_or :: "'x option run \<Rightarrow> 'x \<Rightarrow> 'x run" where
  "unwrap_or m d = map_option (\<lambda>x. case x of None \<Rightarrow> d | Some y \<Rightarrow> y) m"

text \<open>\<open>ctx.send_raw(&buf[..len])?\<close>, then the rest.\<close>

definition send_or_fail :: "bytes \<Rightarrow> 'a \<Rightarrow> 'a app_prog \<Rightarrow> 'a app_prog" where
  "send_or_fail d a p = SendRaw d (\<lambda>r. case r of Inl err \<Rightarrow> Done (Inl err) a | Inr _ \<Rightarrow> p)"

text \<open>The fill of a whole order, built into a buffer of 2048 bytes.\<close>

definition fill_report :: "bytes \<Rightarrow> bytes \<Rightarrow> bytes \<Rightarrow> bytes \<Rightarrow> bytes \<Rightarrow> i64 \<Rightarrow> Session \<Rightarrow> bytes \<Rightarrow> bytes run" where
  "fill_report order_id exec_id px cl_ord_id symbol qty s ts =
     map_option (\<lambda>(buf, len). take len buf)
       (build_execution_report (replicate 2048 0) (asc ''FIX.4.4'') (sc_sender_comp_id (ss_config s))
          (sc_target_comp_id (ss_config s)) (ss_outbound_seq_num s) ts order_id exec_id cl_ord_id symbol
          (of_char CHR ''1'') qty qty px 0 qty px (of_char CHR ''F'') (of_char CHR ''2''))"

text \<open>A limit order to buy, built into a buffer of 1024 bytes.\<close>

definition buy_order :: "bytes \<Rightarrow> bytes \<Rightarrow> i64 \<Rightarrow> bytes \<Rightarrow> Session \<Rightarrow> bytes \<Rightarrow> bytes run" where
  "buy_order cl_ord_id symbol qty px s ts =
     map_option (\<lambda>(buf, len). take len buf)
       (build_new_order_single (replicate 1024 0) (asc ''FIX.4.4'') (sc_sender_comp_id (ss_config s))
          (sc_target_comp_id (ss_config s)) (ss_outbound_seq_num s) ts cl_ord_id symbol
          (of_char CHR ''1'') qty (of_char CHR ''2'') px)"

section \<open>aeron\_demo\<close>

definition aeron_acceptor_message :: "bytes \<Rightarrow> MessageView \<Rightarrow> 'a \<Rightarrow> 'a app_prog" where
  "aeron_acceptor_message mt v a =
     (if mt = asc ''D'' then
        AskWall (\<lambda>t. AskSession (\<lambda>s.
          or_panic (unwrap_or (get_field v CL_ORD_ID) (asc ''?'')) (\<lambda>cl.
          or_panic (unwrap_or (get_field v SYMBOL) (asc ''?'')) (\<lambda>symb.
          or_panic (unwrap_or (get_field_i64 v ORDER_QTY) 100) (\<lambda>qty.
          or_panic (fill_report (asc ''AERON-ORD-1'') (asc ''AERON-EXEC-1'') (asc ''178.55'') cl symb qty s
              (to_fix_timestamp t)) (\<lambda>d.
          send_or_fail d a (Done (Inr ()) a)))))))
      else Done (Inr ()) a)"

definition aeron_acceptor :: "unit App" where
  "aeron_acceptor = \<lparr>ap_on_logon = Done (Inr ()), ap_on_message = aeron_acceptor_message, ap_on_logout = Pair (Inr ())\<rparr>"

definition aeron_initiator_logon :: "'a \<Rightarrow> 'a app_prog" where
  "aeron_initiator_logon a =
     AskWall (\<lambda>t. AskSession (\<lambda>s.
       or_panic (buy_order (asc ''ORD-AERON-1'') (asc ''AAPL'') 1000 (asc ''178.55'') s (to_fix_timestamp t)) (\<lambda>d.
       send_or_fail d a (Done (Inr ()) a))))"

definition aeron_initiator_message :: "bytes \<Rightarrow> MessageView \<Rightarrow> 'a \<Rightarrow> 'a app_prog" where
  "aeron_initiator_message mt v a =
     (if mt = asc ''8'' then
        or_panic (unwrap_or (get_field_str v CL_ORD_ID) (asc ''?'')) (\<lambda>_. RequestStop (Done (Inr ()) a))
      else Done (Inr ()) a)"

definition aeron_initiator :: "unit App" where
  "aeron_initiator =
     \<lparr>ap_on_logon = aeron_initiator_logon, ap_on_message = aeron_initiator_message, ap_on_logout = Pair (Inr ())\<rparr>"

section \<open>tcp\_demo\<close>

definition tcp_acceptor_message :: "bytes \<Rightarrow> MessageView \<Rightarrow> 'a \<Rightarrow> 'a app_prog" where
  "tcp_acceptor_message mt v a =
     (if mt = asc ''A'' then or_panic (unwrap_or (sender_comp_id v) (asc ''?'')) (\<lambda>_. Done (Inr ()) a)
      else if mt = asc ''D'' then
        or_panic (unwrap_or (get_field_str v CL_ORD_ID) (asc ''?'')) (\<lambda>cl.
        or_panic (unwrap_or (get_field_str v SYMBOL) (asc ''?'')) (\<lambda>symb.
        or_panic (unwrap_or (get_field_i64 v ORDER_QTY) 0) (\<lambda>qty.
        AskWall (\<lambda>t. AskSession (\<lambda>s.
          or_panic (fill_report (asc ''NYSE-ORD-001'') (asc ''NYSE-EXEC-001'') (asc ''178.55'') cl symb qty s
              (to_fix_timestamp t)) (\<lambda>d.
          send_or_fail d a (Done (Inr ()) a)))))))
      else Done (Inr ()) a)"

definition tcp_acceptor :: "unit App" where
  "tcp_acceptor = \<lparr>ap_on_logon = Done (Inr ()), ap_on_message = tcp_acceptor_message, ap_on_logout = Pair (Inr ())\<rparr>"

text \<open>The state of the initiator is its flag \<open>done\<close>.\<close>

definition tcp_initiator_logon :: "bool \<Rightarrow> bool app_prog" where
  "tcp_initiator_logon finished =
     AskWall (\<lambda>t. AskSession (\<lambda>s.
       or_panic (buy_order (asc ''ORD-2026032100001'') (asc ''AAPL'') 10000 (asc ''178.55'') s (to_fix_timestamp t)) (\<lambda>d.
       send_or_fail d finished (Done (Inr ()) finished))))"

definition tcp_initiator_message :: "bytes \<Rightarrow> MessageView \<Rightarrow> bool \<Rightarrow> bool app_prog" where
  "tcp_initiator_message mt v finished =
     (if mt = asc ''8'' then
        or_panic (unwrap_or (get_field_str v EXEC_TYPE) (asc ''?'')) (\<lambda>_.
        or_panic (unwrap_or (get_field_i64 v CUM_QTY) 0) (\<lambda>_.
        or_panic (unwrap_or (get_field_i64 v LEAVES_QTY) 0) (\<lambda>_.
          if \<not> finished then RequestStop (Done (Inr ()) True) else Done (Inr ()) finished)))
      else Done (Inr ()) finished)"

definition tcp_initiator :: "bool App" where
  "tcp_initiator =
     \<lparr>ap_on_logon = tcp_initiator_logon, ap_on_message = tcp_initiator_message, ap_on_logout = Pair (Inr ())\<rparr>"

section \<open>session\_demo\<close>

definition exchange_message :: "bytes \<Rightarrow> MessageView \<Rightarrow> 'a \<Rightarrow> 'a app_prog" where
  "exchange_message mt v a =
     (if mt = asc ''D'' then
        or_panic (unwrap_or (get_field v CL_ORD_ID) (asc ''?'')) (\<lambda>cl.
        or_panic (unwrap_or (get_field v SYMBOL) (asc ''?'')) (\<lambda>symb.
        or_panic (unwrap_or (get_field_i64 v ORDER_QTY) 0) (\<lambda>qty.
        or_panic (unwrap_or (sender_comp_id v) (asc ''?'')) (\<lambda>_.
        AskWall (\<lambda>t. AskSession (\<lambda>s.
          or_panic (fill_report (asc ''ORD-001'') (asc ''EXEC-001'') (asc ''178.55'') cl symb qty s
              (to_fix_timestamp t)) (\<lambda>d.
          send_or_fail d a (Done (Inr ()) a))))))))
      else Done (Inr ()) a)"

definition exchange_app :: "unit App" where
  "exchange_app = \<lparr>ap_on_logon = Done (Inr ()), ap_on_message = exchange_message, ap_on_logout = Pair (Inr ())\<rparr>"

record TraderApp =
  tr_comp_id :: bytes
  tr_symbol :: bytes
  tr_qty :: i64
  tr_done :: bool

definition trader_logon :: "TraderApp \<Rightarrow> TraderApp app_prog" where
  "trader_logon a =
     AskWall (\<lambda>t. AskSession (\<lambda>s.
       or_panic (buy_order (asc ''ORD-001'') (tr_symbol a) (tr_qty a) (asc ''178.55'') s (to_fix_timestamp t)) (\<lambda>d.
       send_or_fail d a (Done (Inr ()) a))))"

definition trader_message :: "bytes \<Rightarrow> MessageView \<Rightarrow> TraderApp \<Rightarrow> TraderApp app_prog" where
  "trader_message mt v a =
     (if mt = asc ''8'' \<and> \<not> tr_done a then
        or_panic (unwrap_or (get_field_i64 v CUM_QTY) 0) (\<lambda>_. RequestStop (Done (Inr ()) (a\<lparr>tr_done := True\<rparr>)))
      else Done (Inr ()) a)"

definition trader_app :: "TraderApp App" where
  "trader_app = \<lparr>ap_on_logon = trader_logon, ap_on_message = trader_message, ap_on_logout = Pair (Inr ())\<rparr>"

section \<open>bench\_tcp\<close>

definition bench_acceptor_message :: "bytes \<Rightarrow> MessageView \<Rightarrow> 'a \<Rightarrow> 'a app_prog" where
  "bench_acceptor_message mt v a =
     (if mt = asc ''D'' then
        AskWall (\<lambda>t. AskSession (\<lambda>s.
          or_panic (unwrap_or (get_field v CL_ORD_ID) (asc ''?'')) (\<lambda>cl.
          or_panic (unwrap_or (get_field v SYMBOL) (asc ''?'')) (\<lambda>symb.
          or_panic (unwrap_or (get_field_i64 v ORDER_QTY) 100) (\<lambda>qty.
          or_panic (fill_report (asc ''ORD-001'') (asc ''EXEC-001'') (asc ''100.00'') cl symb qty s
              (to_fix_timestamp t)) (\<lambda>d.
          send_or_fail d a (Done (Inr ()) a)))))))
      else Done (Inr ()) a)"

definition bench_acceptor :: "unit App" where
  "bench_acceptor = \<lparr>ap_on_logon = Done (Inr ()), ap_on_message = bench_acceptor_message, ap_on_logout = Pair (Inr ())\<rparr>"

record BenchInitiatorApp =
  be_count :: nat
  be_sent :: nat
  be_latencies :: "nat list"
  be_send_time :: nat
  be_session_start :: nat
  be_session_elapsed :: nat

text \<open>\<open>{:08}\<close>: at least eight digits.\<close>

definition bench_order_id :: "nat \<Rightarrow> bytes" where
  "bench_order_id n = asc ''ORD-'' @ replicate (8 - length (dec n)) 48 @ dec n"

definition send_nos :: "BenchInitiatorApp \<Rightarrow> BenchInitiatorApp app_prog" where
  "send_nos a =
     AskWall (\<lambda>t. AskSession (\<lambda>s.
       or_panic (buy_order (bench_order_id (be_sent a)) (asc ''AAPL'') 100 (asc ''100.00'') s (to_fix_timestamp t)) (\<lambda>d.
       AskNow (\<lambda>now. let a = a\<lparr>be_send_time := now\<rparr> in
       send_or_fail d a (Done (Inr ()) (a\<lparr>be_sent := be_sent a + 1\<rparr>))))))"

definition bench_initiator_logon :: "BenchInitiatorApp \<Rightarrow> BenchInitiatorApp app_prog" where
  "bench_initiator_logon a = AskNow (\<lambda>now. send_nos (a\<lparr>be_session_start := now\<rparr>))"

definition bench_initiator_message :: "bytes \<Rightarrow> MessageView \<Rightarrow> BenchInitiatorApp \<Rightarrow> BenchInitiatorApp app_prog" where
  "bench_initiator_message mt v a =
     (if mt = asc ''8'' then
        AskNow (\<lambda>now. let a = a\<lparr>be_latencies := be_latencies a @ [now - be_send_time a]\<rparr> in
          if be_sent a < be_count a then send_nos a
          else AskNow (\<lambda>now. RequestStop (Done (Inr ()) (a\<lparr>be_session_elapsed := now - be_session_start a\<rparr>))))
      else Done (Inr ()) a)"

definition bench_initiator :: "BenchInitiatorApp App" where
  "bench_initiator =
     \<lparr>ap_on_logon = bench_initiator_logon, ap_on_message = bench_initiator_message, ap_on_logout = Pair (Inr ())\<rparr>"

text \<open>The report of \<open>bench_tcp\<close> over the recorded round trips, in nanoseconds; \<open>parse_count\<close> reads its argument.\<close>

record LatencyReport =
  lr_mean :: u64
  lr_p50 :: u64
  lr_p90 :: u64
  lr_p99 :: u64
  lr_p999 :: u64
  lr_min :: u64
  lr_max :: u64

definition latencies_report :: "nat list \<Rightarrow> LatencyReport option run" where
  "latencies_report latencies =
     (if latencies = [] then Some None
      else
        let sorted = sort (map of_nat latencies); len = length sorted in
        Option.bind (get_at sorted (len * 50 div 100)) (\<lambda>p50.
        Option.bind (get_at sorted (len * 90 div 100)) (\<lambda>p90.
        Option.bind (get_at sorted (len * 99 div 100)) (\<lambda>p99.
        Option.bind (get_at sorted (min (len - 1) (len * 999 div 1000))) (\<lambda>p999.
        Option.bind (get_at sorted 0) (\<lambda>lo.
        Option.bind (get_at sorted (len - 1)) (\<lambda>hi.
          Some (Some \<lparr>lr_mean = sum_list sorted div of_nat len, lr_p50 = p50, lr_p90 = p90, lr_p99 = p99,
            lr_p999 = p999, lr_min = lo, lr_max = hi\<rparr>))))))))"

definition parse_usize :: "bytes \<Rightarrow> nat option" where
  "parse_usize s =
     (let digits = (if take 1 s = [43] then drop 1 s else s);
          n = foldl (\<lambda>a b. 10 * a + (unat b - 48)) 0 digits in
      if digits = [] \<or> \<not> list_all is_digit digits \<or> 2 ^ 64 \<le> n then None else Some n)"

fun parse_count :: "bytes list \<Rightarrow> nat" where
  "parse_count (a # c # args) =
     (if a = asc ''--count'' then (case parse_usize c of None \<Rightarrow> 10000 | Some n \<Rightarrow> n) else parse_count (c # args))"
| "parse_count _ = 10000"

text \<open>No percentile is read outside the samples, and the percentiles are in order.\<close>

lemma report_ordered:
  assumes "latencies \<noteq> []"
  shows "\<exists>r. latencies_report latencies = Some (Some r) \<and> lr_min r \<le> lr_p50 r \<and> lr_p50 r \<le> lr_p90 r \<and>
    lr_p90 r \<le> lr_p99 r \<and> lr_p99 r \<le> lr_p999 r \<and> lr_p999 r \<le> lr_max r"
proof -
  define xs :: "u64 list" where "xs = sort (map of_nat latencies)"
  have n: "0 < length xs" using assms by (simp add: xs_def)
  have mono: "xs ! i \<le> xs ! j" if "i \<le> j" "j < length xs" for i j
    using that by (auto simp: xs_def intro: sorted_nth_mono)
  let ?p = "\<lambda>k. length xs * k div 100" and ?q = "min (length xs - 1) (length xs * 999 div 1000)"
  have "?p 50 \<le> ?p 90" "?p 90 \<le> ?p 99" "?p 99 \<le> ?q" "?q \<le> length xs - 1" "length xs - 1 < length xs"
    using n by auto
  moreover have part: "k * c div d < k" if "0 < k" "c < d" for k c d :: nat
    using that by (simp add: less_mult_imp_div_less)
  have "?p 50 < length xs" "?p 90 < length xs" "?p 99 < length xs" "length xs * 999 div 1000 < length xs"
    by (rule part; use n in simp)+
  ultimately show ?thesis
    using n assms mono [of 0 "?p 50"] mono [of "?p 50" "?p 90"] mono [of "?p 90" "?p 99"] mono [of "?p 99" ?q]
      mono [of ?q "length xs - 1"]
    by (simp add: latencies_report_def Let_def get_at_def flip: xs_def)
qed

text \<open>
  An order whose ClOrdID alone does not fit the buffer of 2048 bytes makes the exchange of
  \<open>aeron_demo\<close> panic; the fields of the order are not checked before the fill is built.
\<close>

lemma fill_report_overflow:
  assumes "2048 < length cl"
  shows "fill_report order_id exec_id px cl symb qty s ts = None"
proof -
  have "length cl \<le> length (wire b (f1 # f2 # f3 # f4 # f5 # f6 # f7 # (t, cl) # fs))" for b f1 f2 f3 f4 f5 f6 f7 t fs
    by (simp add: wire_def wire_pre_def field_bytes_def)
  then show ?thesis using assms
    by (simp add: fill_report_def build_execution_report_eq emit_def not_le less_le_trans)
qed

lemma long_order_id_panics:
  assumes "get_field v CL_ORD_ID = Some (Some cl)" "2048 < length cl"
  shows "run_app W (aeron_acceptor_message (asc ''D'') v a) e = None"
  using assms
  by (simp add: aeron_acceptor_message_def unwrap_or_def or_panic_def fill_report_overflow split: option.split prod.split)

end
