(* ===== verification/AeronDemo.thy ===== *)
theory AeronDemo
  imports Apps "HOL-Library.Sublist"
begin

text \<open>
  \<open>main\<close> of \<open>src/src/bin/aeron_demo.rs\<close>: an acceptor thread and an initiator thread, each with its own
  engine, over endpoints of one in-process bus. Both endpoints are opened before the first turn (the source
  opens each in its thread, and starts the initiator after a pause that gives the acceptor the time to do so).
  A turn of a thread is one iteration of its engine's loop (for the initiator, first the sending of its
  Logon), so iterations of the two loops do not overlap; the two threads take turns in any order. The
  theorem is that every schedule which lets both run often enough ends both of them without an error,
  after Logon, order, fill and Logout have been exchanged.
\<close>

section \<open>The two threads\<close>

definition bus_world :: "(nat \<Rightarrow> nat) \<Rightarrow> (nat \<Rightarrow> u64) \<Rightarrow> (nat \<times> aeron) World" where
  "bus_world f g =
     \<lparr>wo_now = (\<lambda>(k, x). (f k, Suc k, x)), wo_wall = (\<lambda>(k, x). (g k, Suc k, x)),
      wo_send = (\<lambda>d (k, x). let (r, x') = aeron_send d x in (r, k, x')),
      wo_recv = (\<lambda>n (k, x). let (r, x') = aeron_recv n x in (r, k, x')),
      wo_close = (\<lambda>(k, x). (k, aeron_close x))\<rparr>"

type_synonym engine = "(nat \<times> aeron) Engine"

datatype thread = Launch engine | Live engine | Ended "IoKind + unit" engine | Crashed

definition acceptor_config :: SessionConfig where
  "acceptor_config =
     \<lparr>sc_session_id = asc ''AERON-ACCEPTOR'', sc_fix_version = asc ''FIX.4.4'', sc_sender_comp_id = asc ''EXCHANGE'',
      sc_target_comp_id = asc ''BANK_OMS'', sc_role = Acceptor, sc_heartbeat_interval = secs 30,
      sc_reconnect_interval = 0, sc_max_reconnect_attempts = 0, sc_sequence_reset_policy = Daily,
      sc_validate_comp_ids = True, sc_max_msg_rate = 50000\<rparr>"

definition initiator_config :: SessionConfig where
  "initiator_config =
     \<lparr>sc_session_id = asc ''AERON-INITIATOR'', sc_fix_version = asc ''FIX.4.4'', sc_sender_comp_id = asc ''BANK_OMS'',
      sc_target_comp_id = asc ''EXCHANGE'', sc_role = Initiator, sc_heartbeat_interval = secs 30,
      sc_reconnect_interval = secs 1, sc_max_reconnect_attempts = 3, sc_sequence_reset_policy = Daily,
      sc_validate_comp_ids = True, sc_max_msg_rate = 50000\<rparr>"

text \<open>\<open>build_transport(TransportConfig::aeron_ipc(stream_id))?\<close>, then \<open>bind\<close> or \<open>connect\<close>.\<close>

definition demo_endpoint :: "u64 \<Rightarrow> Registry \<Rightarrow> aeron run" where
  "demo_endpoint next_id g =
     (case build_transport next_id (aeron_ipc 4242) of
        (Inr (AnyAeron t), _) \<Rightarrow> Some (aeron_open (asc ''127.0.0.1'') 0 (g, t))
      | _ \<Rightarrow> None)"

record Demo =
  de_bus :: Registry
  de_ini :: thread
  de_acc :: thread

definition demo_start :: "u64 \<Rightarrow> u64 \<Rightarrow> nat \<Rightarrow> nat \<Rightarrow> Demo run" where
  "demo_start ia ii now now' =
     Option.bind (demo_endpoint ia Map.empty) (\<lambda>(g, ta).
     Option.bind (demo_endpoint ii g) (\<lambda>(g, ti).
     Some \<lparr>de_bus = g, de_ini = Launch (new_initiator (0, g, ti) (new_session now' initiator_config)),
           de_acc = Live (new_acceptor (0, g, ta) (new_session now acceptor_config))\<rparr>))"

definition on_bus :: "Registry \<Rightarrow> engine \<Rightarrow> engine" where
  "on_bus g e = e\<lparr>fe_world := (fst (fe_world e), g, snd (snd (fe_world e)))\<rparr>"

definition bus_after :: "engine \<Rightarrow> Registry" where
  "bus_after e = fst (snd (fe_world e))"

fun thread_turn :: "(nat \<times> aeron) World \<Rightarrow> unit App \<Rightarrow> Registry \<Rightarrow> thread \<Rightarrow> thread \<times> Registry" where
  "thread_turn W app g (Launch e) =
     (case send_logon W (session_connected W (on_bus g e)) of
        None \<Rightarrow> (Crashed, g)
      | Some (Inl err, e) \<Rightarrow> (Ended (Inl err) e, bus_after e)
      | Some (Inr _, e) \<Rightarrow> (Live e, bus_after e))"
| "thread_turn W app g (Live e) =
     (case loop_iteration W app () (on_bus g e) of
        None \<Rightarrow> (Crashed, g)
      | Some (Inl err, _, e) \<Rightarrow> (Ended (Inl err) e, bus_after e)
      | Some (Inr True, _, e) \<Rightarrow> (let e = e\<lparr>fe_world := wo_close W (fe_world e)\<rparr> in (Ended (Inr ()) e, bus_after e))
      | Some (Inr False, _, e) \<Rightarrow> (Live e, bus_after e))"
| "thread_turn W app g (Ended r e) = (Ended r e, g)"
| "thread_turn W app g Crashed = (Crashed, g)"

datatype side = Ini | Acc

fun demo_turn :: "(nat \<times> aeron) World \<Rightarrow> Demo \<Rightarrow> side \<Rightarrow> Demo" where
  "demo_turn W d Ini =
     (let (t, g) = thread_turn W aeron_initiator (de_bus d) (de_ini d) in d\<lparr>de_ini := t, de_bus := g\<rparr>)"
| "demo_turn W d Acc =
     (let (t, g) = thread_turn W aeron_acceptor (de_bus d) (de_acc d) in d\<lparr>de_acc := t, de_bus := g\<rparr>)"

section \<open>Engines on the bus\<close>

definition demo_key :: ChannelKey where
  "demo_key = (asc ''aeron:ipc'', 4242)"

definition engine_at :: "SessionConfig \<Rightarrow> u64 \<Rightarrow> SessionState \<Rightarrow> u64 \<Rightarrow> u64 \<Rightarrow> bool \<Rightarrow> AeronFrame list \<Rightarrow> engine \<Rightarrow> bool" where
  "engine_at c i st out inn stop fs e \<longleftrightarrow>
     ss_config (fe_session e) = c \<and> ss_state (fe_session e) = st \<and> ss_outbound_seq_num (fe_session e) = out \<and>
     ss_inbound_seq_num (fe_session e) = inn \<and> fe_parser e = new_parser \<and> length (fe_send_buf e) = 4096 \<and>
     fe_recv e = [] \<and> fe_should_stop e = stop \<and> at_bus (snd (snd (fe_world e))) = Some demo_key \<and>
     at_endpoint_id (snd (snd (fe_world e))) = i \<and> fst (snd (fe_world e)) demo_key = Some fs"

definition stamp :: "bytes \<Rightarrow> bool" where
  "stamp ts \<longleftrightarrow> length ts = 21 \<and> SOH \<notin> set ts"

lemma stamp_fix [simp]: "stamp (to_fix_timestamp t)"
  by (simp add: stamp_def stamp_length stamp_no_soh)

lemma instant_bus: "instant (bus_world f g) e = (f (fst (fe_world e)), e\<lparr>fe_world := (Suc (fst (fe_world e)), snd (fe_world e))\<rparr>)"
  by (simp add: instant_def bus_world_def split: prod.split)

lemma wall_bus: "wo_wall (bus_world f g) w = (g (fst w), Suc (fst w), snd w)"
  by (simp add: bus_world_def split: prod.split)

text \<open>What the session operations of the engine do to \<^const>\<open>engine_at\<close>.\<close>

lemma session_at:
  assumes "engine_at c i st out inn stop fs e"
  shows "engine_at c i st out inn stop fs (session_sent (bus_world f g) e)"
    "engine_at c i st out inn stop fs (session_received (bus_world f g) e)"
    "engine_at c i Active out inn stop fs (session_logon (bus_world f g) e)"
    "engine_at c i LogoutSent out inn stop fs (request_stop e)"
    "st = Disconnected \<Longrightarrow> engine_at c i (if sc_role c = Initiator then LogonSent else Connecting) out inn stop fs
       (session_connected (bus_world f g) e)"
    "engine_at c i st out (inn + 1) stop fs (session_validate (bus_world f g) inn e)"
  using assms
  by (simp_all add: engine_at_def session_sent_def session_received_def session_logon_def request_stop_def
      session_connected_def session_validate_def instant_bus on_message_sent_def on_message_received_def
      on_logon_def on_logout_sent_def on_connected_def validate_inbound_seq_def)

lemma send_at:
  assumes "engine_at c i st out inn stop fs e"
  shows "\<exists>w. wo_send (bus_world f g) d (k, snd (fe_world e)) = (Inr (length d), k, w) \<and>
    at_bus (snd w) = Some demo_key \<and> at_endpoint_id (snd w) = i \<and>
    fst w demo_key = Some (fs @ [\<lparr>af_sender_id = i, af_payload = d\<rparr>])"
  using assms by (simp add: engine_at_def bus_world_def aeron_send_def bus_frames_def split: prod.splits)

text \<open>Sending one of the engine's own messages.\<close>

lemma send_built_at:
  assumes e: "engine_at c i st out inn stop fs e"
    and b: "\<And>ts buf. stamp ts \<Longrightarrow> length buf = 4096 \<Longrightarrow> B buf c out ts = emit buf (T ts) \<and> length (T ts) \<le> 4096"
    and after: "\<And>s. ss_state s = st \<Longrightarrow> after s = s\<lparr>ss_state := st'\<rparr>"
  shows "\<exists>e' ts. send_built (bus_world f g) B after e = Some (Inr (), e') \<and> stamp ts \<and>
    engine_at c i st' (out + 1) inn stop (fs @ [\<lparr>af_sender_id = i, af_payload = T ts\<rparr>]) e'"
proof -
  let ?W = "bus_world f g" and ?ts = "to_fix_timestamp (g (fst (fe_world e)))"
  let ?k = "Suc (fst (fe_world e))"
  have eb: "B (fe_send_buf e) (ss_config (fe_session e)) (ss_outbound_seq_num (fe_session e)) ?ts =
      Some (T ?ts @ drop (length (T ?ts)) (fe_send_buf e), length (T ?ts))"
    using b [of ?ts "fe_send_buf e"] e by (simp add: engine_at_def emit_def)
  have len: "length (T ?ts) \<le> 4096" using b [of ?ts "replicate 4096 0"] by simp
  obtain w where w: "wo_send ?W (T ?ts) (?k, snd (fe_world e)) = (Inr (length (T ?ts)), ?k, w)"
    "at_bus (snd w) = Some demo_key" "at_endpoint_id (snd w) = i"
    "fst w demo_key = Some (fs @ [\<lparr>af_sender_id = i, af_payload = T ?ts\<rparr>])"
    using send_at [OF e] by blast
  let ?buf = "T ?ts @ drop (length (T ?ts)) (fe_send_buf e)"
  let ?e = "e\<lparr>fe_world := (?k, w), fe_send_buf := ?buf, fe_session :=
      (fe_session e)\<lparr>ss_outbound_seq_num := ss_outbound_seq_num (fe_session e) + 1\<rparr>\<rparr>"
  have "send_built ?W B after e = Some (Inr (), session_sent ?W (?e\<lparr>fe_session := after (fe_session ?e)\<rparr>))"
    using send_built_run [where W = ?W and e = e and build = B and after = after, OF wall_bus eb] w(1) by simp
  moreover have "engine_at c i st' (out + 1) inn stop (fs @ [\<lparr>af_sender_id = i, af_payload = T ?ts\<rparr>])
      (?e\<lparr>fe_session := after (fe_session ?e)\<rparr>)"
    using e w len after [of "fe_session ?e"] by (simp add: engine_at_def)
  then have "engine_at c i st' (out + 1) inn stop (fs @ [\<lparr>af_sender_id = i, af_payload = T ?ts\<rparr>])
      (session_sent ?W (?e\<lparr>fe_session := after (fe_session ?e)\<rparr>))" by (rule session_at)
  ultimately show ?thesis using stamp_fix by blast
qed

lemma sends_at:
  assumes e: "engine_at c i st out inn stop fs e" and c: "cfg_fits c"
  shows "\<exists>e' ts. send_logon (bus_world f g) e = Some (Inr (), e') \<and> stamp ts \<and>
      engine_at c i st (out + 1) inn stop (fs @ [\<lparr>af_sender_id = i, af_payload = logon_text c out ts\<rparr>]) e'"
    "\<exists>e' ts. send_logout (bus_world f g) e = Some (Inr (), e') \<and> stamp ts \<and>
      engine_at c i LogoutSent (out + 1) inn stop (fs @ [\<lparr>af_sender_id = i, af_payload = logout_text c out ts\<rparr>]) e'"
proof -
  have keep: "s = s\<lparr>ss_state := st\<rparr>" if "ss_state s = st" for s :: Session using that by auto
  show "\<exists>e' ts. send_logon (bus_world f g) e = Some (Inr (), e') \<and> stamp ts \<and>
      engine_at c i st (out + 1) inn stop (fs @ [\<lparr>af_sender_id = i, af_payload = logon_text c out ts\<rparr>]) e'"
    unfolding send_logon_def
    by (rule send_built_at [OF e _ keep]) (simp_all add: builders_emit stamp_def texts_fit [OF c])
  show "\<exists>e' ts. send_logout (bus_world f g) e = Some (Inr (), e') \<and> stamp ts \<and>
      engine_at c i LogoutSent (out + 1) inn stop (fs @ [\<lparr>af_sender_id = i, af_payload = logout_text c out ts\<rparr>]) e'"
    unfolding send_logout_def
    by (rule send_built_at [OF e]) (simp_all add: builders_emit stamp_def texts_fit [OF c] on_logout_sent_def)
qed

lemma after_logout_at:
  assumes e: "engine_at c i LogoutSent out inn stop fs e" and c: "cfg_fits c"
  shows "\<exists>e' ts. after_batch (bus_world f g) e = Some e' \<and> stamp ts \<and>
    engine_at c i Disconnected (out + 1) inn True (fs @ [\<lparr>af_sender_id = i, af_payload = logout_text c out ts\<rparr>]) e'"
proof -
  let ?ts = "to_fix_timestamp (g (fst (fe_world e)))" and ?k = "Suc (fst (fe_world e))"
  have len: "length (logout_text c out ?ts) \<le> 4096" using texts_fit(3) [OF c] stamp_fix by (simp add: stamp_def)
  obtain w where w: "wo_send (bus_world f g) (logout_text c out ?ts) (?k, snd (fe_world e)) =
      (Inr (length (logout_text c out ?ts)), ?k, w)" "at_bus (snd w) = Some demo_key" "at_endpoint_id (snd w) = i"
    "fst w demo_key = Some (fs @ [\<lparr>af_sender_id = i, af_payload = logout_text c out ?ts\<rparr>])"
    using send_at [OF e] by blast
  have "\<exists>e'. after_batch (bus_world f g) e = Some e' \<and> engine_at c i Disconnected (out + 1) inn True
      (fs @ [\<lparr>af_sender_id = i, af_payload = logout_text c out ?ts\<rparr>]) e'"
    using e w len
    by (simp add: after_batch_def engine_at_def now_timestamp_def wall_bus next_outbound_seq_num_def builders_emit
        emit_def on_disconnected_def Let_def)
  then show ?thesis using stamp_fix by blast
qed

lemma after_batch_at:
  assumes "engine_at c i st out inn stop fs e" "st \<noteq> LogoutSent"
  shows "\<exists>e'. after_batch W e = Some e' \<and> engine_at c i st out inn (stop \<or> st = Disconnected) fs e'"
  using assms by (cases st) (auto simp: after_batch_def engine_at_def)

lemma engine_at_world [simp]:
  "snd w = snd (fe_world e) \<Longrightarrow> engine_at c i st out inn stop fs (e\<lparr>fe_world := w\<rparr>) = engine_at c i st out inn stop fs e"
  by (simp add: engine_at_def)

section \<open>The applications\<close>

lemma send_raw_at:
  assumes e: "engine_at c i st out inn stop fs e"
  shows "\<exists>e'. send_raw (bus_world f g) d e = (Inr (), e') \<and>
    engine_at c i st (out + 1) inn stop (fs @ [\<lparr>af_sender_id = i, af_payload = d\<rparr>]) e'"
proof -
  obtain w where w: "wo_send (bus_world f g) d (fst (fe_world e), snd (fe_world e)) = (Inr (length d), fst (fe_world e), w)"
    "at_bus (snd w) = Some demo_key" "at_endpoint_id (snd w) = i"
    "fst w demo_key = Some (fs @ [\<lparr>af_sender_id = i, af_payload = d\<rparr>])"
    using send_at [OF e] by blast
  let ?e = "e\<lparr>fe_world := (fst (fe_world e), w)\<rparr>"
  have "engine_at c i st out inn stop (fs @ [\<lparr>af_sender_id = i, af_payload = d\<rparr>]) ?e"
    using e w by (simp add: engine_at_def)
  then have "engine_at c i st out inn stop (fs @ [\<lparr>af_sender_id = i, af_payload = d\<rparr>]) (session_sent (bus_world f g) ?e)"
    by (rule session_at)
  then show ?thesis using w(1) by (simp add: send_raw_def engine_at_def next_outbound_seq_num_def Let_def)
qed

definition order_fields :: "SessionConfig \<Rightarrow> u64 \<Rightarrow> bytes \<Rightarrow> (u32 \<times> bytes) list" where
  "order_fields c n ts =
     [(SENDER_COMP_ID, sc_sender_comp_id c), (TARGET_COMP_ID, sc_target_comp_id c), (MSG_SEQ_NUM, dec (unat n)),
      (SENDING_TIME, ts), (CL_ORD_ID, asc ''ORD-AERON-1''), (SYMBOL, asc ''AAPL''), (SIDE, asc ''1''),
      (ORDER_QTY, int_text 1000), (ORD_TYPE, asc ''2''), (PRICE, asc ''178.55''), (TRANSACT_TIME, ts),
      (HANDL_INST, asc ''1'')]"

definition fill_fields :: "SessionConfig \<Rightarrow> u64 \<Rightarrow> bytes \<Rightarrow> (u32 \<times> bytes) list" where
  "fill_fields c n ts =
     [(SENDER_COMP_ID, sc_sender_comp_id c), (TARGET_COMP_ID, sc_target_comp_id c), (MSG_SEQ_NUM, dec (unat n)),
      (SENDING_TIME, ts), (ORDER_ID, asc ''AERON-ORD-1''), (EXEC_ID, asc ''AERON-EXEC-1''),
      (CL_ORD_ID, asc ''ORD-AERON-1''), (EXEC_TYPE, asc ''F''), (ORD_STATUS, asc ''2''), (SYMBOL, asc ''AAPL''),
      (SIDE, asc ''1''), (ORDER_QTY, int_text 1000), (LAST_QTY, int_text 1000), (LAST_PX, asc ''178.55''),
      (LEAVES_QTY, int_text 0), (CUM_QTY, int_text 1000), (AVG_PX, asc ''178.55''), (TRANSACT_TIME, ts)]"

definition order_text :: "SessionConfig \<Rightarrow> u64 \<Rightarrow> bytes \<Rightarrow> bytes" where
  "order_text c n ts = wire (asc ''FIX.4.4'') ((MSG_TYPE, asc ''D'') # order_fields c n ts)"

definition fill_text :: "SessionConfig \<Rightarrow> u64 \<Rightarrow> bytes \<Rightarrow> bytes" where
  "fill_text c n ts = wire (asc ''FIX.4.4'') ((MSG_TYPE, asc ''8'') # fill_fields c n ts)"

lemmas config_defs = acceptor_config_def initiator_config_def

lemma demo_texts_fit:
  assumes "stamp ts"
  shows "length (order_text initiator_config n ts) \<le> 1024" "length (fill_text acceptor_config n ts) \<le> 1024"
  using assms dec_u64_length [of n] int_text_length [of 1000] int_text_length [of 0]
  by (simp_all add: stamp_def order_text_def fill_text_def order_fields_def fill_fields_def config_defs wire_def
      wire_pre_def field_bytes_def tag_defs dec_step dec_small asc_def)

lemma order_sent:
  assumes e: "engine_at initiator_config i st out inn stop fs e"
  shows "\<exists>e' ts. run_app (bus_world f g) (aeron_initiator_logon ()) e = Some (Inr (), (), e') \<and> stamp ts \<and>
    engine_at initiator_config i st (out + 1) inn stop
      (fs @ [\<lparr>af_sender_id = i, af_payload = order_text initiator_config out ts\<rparr>]) e'"
proof -
  let ?ts = "to_fix_timestamp (g (fst (fe_world e)))"
  let ?e = "e\<lparr>fe_world := (Suc (fst (fe_world e)), snd (fe_world e))\<rparr>"
  have at: "engine_at initiator_config i st out inn stop fs ?e" using e by simp
  have "buy_order (asc ''ORD-AERON-1'') (asc ''AAPL'') 1000 (asc ''178.55'') (fe_session e) ?ts =
      Some (order_text initiator_config out ?ts)"
    using e demo_texts_fit(1) [OF stamp_fix, of out]
    by (simp add: buy_order_def build_new_order_single_eq emit_def engine_at_def order_text_def order_fields_def asc_def)
  moreover obtain e' where "send_raw (bus_world f g) (order_text initiator_config out ?ts) ?e = (Inr (), e')"
    "engine_at initiator_config i st (out + 1) inn stop
      (fs @ [\<lparr>af_sender_id = i, af_payload = order_text initiator_config out ?ts\<rparr>]) e'"
    using send_raw_at [of initiator_config i st out inn stop fs ?e f g "order_text initiator_config out ?ts"] at by blast
  ultimately have "run_app (bus_world f g) (aeron_initiator_logon ()) e = Some (Inr (), (), e')"
    by (simp add: aeron_initiator_logon_def wall_bus or_panic_def send_or_fail_def)
  then show ?thesis using \<open>engine_at _ _ _ _ _ _ _ e'\<close> stamp_fix by blast
qed

lemma fill_sent:
  assumes e: "engine_at acceptor_config i st out inn stop fs e"
    and v: "get_field v CL_ORD_ID = Some (Some (asc ''ORD-AERON-1''))" "get_field v SYMBOL = Some (Some (asc ''AAPL''))"
      "get_field_i64 v ORDER_QTY = Some (Some 1000)"
  shows "\<exists>e' ts. run_app (bus_world f g) (aeron_acceptor_message (asc ''D'') v ()) e = Some (Inr (), (), e') \<and> stamp ts \<and>
    engine_at acceptor_config i st (out + 1) inn stop
      (fs @ [\<lparr>af_sender_id = i, af_payload = fill_text acceptor_config out ts\<rparr>]) e'"
proof -
  let ?ts = "to_fix_timestamp (g (fst (fe_world e)))"
  let ?e = "e\<lparr>fe_world := (Suc (fst (fe_world e)), snd (fe_world e))\<rparr>"
  have at: "engine_at acceptor_config i st out inn stop fs ?e" using e by simp
  have "fill_report (asc ''AERON-ORD-1'') (asc ''AERON-EXEC-1'') (asc ''178.55'') (asc ''ORD-AERON-1'') (asc ''AAPL'') 1000
      (fe_session e) ?ts = Some (fill_text acceptor_config out ?ts)"
    using e order_trans [OF demo_texts_fit(2) [OF stamp_fix, of out "g (fst (fe_world e))"], of 2048]
    by (simp add: fill_report_def build_execution_report_eq emit_def engine_at_def fill_text_def fill_fields_def asc_def)
  moreover obtain e' where "send_raw (bus_world f g) (fill_text acceptor_config out ?ts) ?e = (Inr (), e')"
    "engine_at acceptor_config i st (out + 1) inn stop
      (fs @ [\<lparr>af_sender_id = i, af_payload = fill_text acceptor_config out ?ts\<rparr>]) e'"
    using send_raw_at [of acceptor_config i st out inn stop fs ?e f g "fill_text acceptor_config out ?ts"] at by blast
  ultimately have "run_app (bus_world f g) (aeron_acceptor_message (asc ''D'') v ()) e = Some (Inr (), (), e')"
    using v by (simp add: aeron_acceptor_message_def wall_bus or_panic_def unwrap_or_def send_or_fail_def)
  then show ?thesis using \<open>engine_at _ _ _ _ _ _ _ e'\<close> stamp_fix by blast
qed

section \<open>Turns\<close>

lemma recv_at:
  assumes "engine_at c i st out inn stop (fr # fs) e" "af_sender_id fr \<noteq> i" "length (af_payload fr) \<le> 8192"
  shows "\<exists>w. wo_recv (bus_world f g) 8192 (fe_world e) = (Inr (af_payload fr), w) \<and>
    engine_at c i st out inn stop fs (e\<lparr>fe_world := w\<rparr>)"
  using assms
  by (cases "fe_world e") (simp add: engine_at_def bus_world_def aeron_recv_def bus_frames_def split: prod.splits)

lemma recv_none_at:
  assumes "engine_at c i st out inn stop fs e" "\<forall>fr \<in> set fs. af_sender_id fr = i"
  shows "wo_recv (bus_world f g) 8192 (fe_world e) = (Inr [], fe_world e)"
proof -
  have "foreign i fs = []" using assms(2) by (simp add: foreign_def filter_empty_conv)
  then have "take_foreign i fs = None" by (simp add: take_foreign_eq)
  then show ?thesis using assms(1)
    by (cases "fe_world e") (simp add: engine_at_def bus_world_def aeron_recv_def bus_frames_def split: prod.splits)
qed

lemma timer_at:
  assumes "engine_at c i st out inn stop fs e" "\<And>k. f k < secs 30" "sc_heartbeat_interval c = secs 30"
  shows "\<exists>e'. drive_timer (bus_world f g) e = Some (Inr False, e') \<and> engine_at c i st out inn stop fs e'"
proof -
  let ?t = "f (fst (fe_world e))" and ?e = "e\<lparr>fe_world := (Suc (fst (fe_world e)), snd (fe_world e))\<rparr>"
  have "\<not> secs 30 \<le> ?t - x" "\<not> secs 30 + secs 5 \<le> ?t - x" for x using assms(2) [of "fst (fe_world e)"] by auto
  moreover have "add_duration (secs 30) (secs 5) = Some (secs 30 + secs 5)" by (simp add: add_duration_def secs_def)
  ultimately have "check_heartbeat ?t (fe_session e) = Some (NoAction, fe_session e)"
    using assms(1,3) by (simp add: check_heartbeat_def engine_at_def Let_def)
  then have "drive_timer (bus_world f g) e = Some (Inr False, ?e\<lparr>fe_session := fe_session e\<rparr>)"
    by (simp add: drive_timer_def instant_bus)
  then show ?thesis using assms(1) by (simp add: engine_at_def)
qed

lemma idle_turn:
  assumes "engine_at c i st out inn False fs e" "\<forall>fr \<in> set fs. af_sender_id fr = i" "\<And>k. f k < secs 30"
    and "sc_heartbeat_interval c = secs 30"
  shows "\<exists>e'. loop_iteration (bus_world f g) app () e = Some (Inr False, (), e') \<and> engine_at c i st out inn False fs e'"
proof -
  obtain e1 where e1: "drive_timer (bus_world f g) e = Some (Inr False, e1)" "engine_at c i st out inn False fs e1"
    using timer_at [where f = f, OF assms(1,3,4)] by blast
  have "receive_batch (bus_world f g) app () e1 = Some (Inr False, (), e1)"
    using recv_none_at [OF e1(2) assms(2)] by (simp add: receive_batch_def)
  then show ?thesis using e1 assms(1) by (simp add: loop_iteration_def engine_at_def)
qed

text \<open>A message that the next turn of an engine reads: whole, and with the number it expects.\<close>

definition carries :: "bytes \<Rightarrow> (u32 \<times> bytes) list \<Rightarrow> bytes \<Rightarrow> u64 \<Rightarrow> bytes \<Rightarrow> bool" where
  "carries mt fs b q d \<longleftrightarrow> d = wire b ((MSG_TYPE, mt) # fs) \<and> SOH \<notin> set b \<and> SOH \<notin> set mt \<and> list_all good_field fs \<and>
     length fs + 4 \<le> MAX_FIELDS \<and> length d \<le> 8192 \<and> MSG_TYPE \<notin> fst ` set fs \<and>
     map_of fs MSG_SEQ_NUM = Some (dec (unat q))"

lemma carries_parse:
  assumes "carries mt fs b q d"
  shows "\<exists>v. parse new_parser d = Inr (v, length d) \<and> view_ok v \<and> field_pairs v = parsed_fields b ((MSG_TYPE, mt) # fs) \<and>
    msg_type v = Some (Some mt) \<and> msg_seq_num v = Some (Some q)"
proof -
  have len: "length (wire b ((MSG_TYPE, mt) # fs) @ []) \<le> fp_max_message_size new_parser"
    using assms by (auto simp: carries_def new_parser_def)
  obtain v where v: "parse new_parser d = Inr (v, length d)" "view_ok v" "idx_ok v"
    "field_pairs v = parsed_fields b ((MSG_TYPE, mt) # fs)"
    using parse_wire_helper [OF _ _ _ _ len] assms by (auto simp: carries_def new_parser_def)
  have "msg_type v = Some (Some mt)" using v assms by (intro msg_type_parsed) (auto simp: carries_def)
  moreover have "map_of (field_pairs v) MSG_SEQ_NUM = Some (dec (unat q))"
    using assms by (simp add: v(4) parsed_fields_def carries_def tag_defs map_add_def)
  then have "msg_seq_num v = Some (Some q)"
    using get_field_map_of [OF v(2)] by (simp add: msg_seq_num_def get_field_u64_def parse_u64_dec)
  ultimately show ?thesis using v by blast
qed

lemma message_turn:
  assumes e: "engine_at c i st out inn False [\<lparr>af_sender_id = j, af_payload = d\<rparr>] e" and j: "j \<noteq> i"
    and d: "carries mt fs b inn d" and f: "\<And>k. f k < secs 30" and c: "sc_heartbeat_interval c = secs 30"
    and handler: "\<And>v e. view_ok v \<Longrightarrow> field_pairs v = parsed_fields b ((MSG_TYPE, mt) # fs) \<Longrightarrow>
      engine_at c i st out (inn + 1) False [] e \<Longrightarrow>
      \<exists>e' e''. dispatch (bus_world f g) app mt v () e = Some (Inr (), (), e') \<and> fe_recv e' = [] \<and>
        after_batch (bus_world f g) e' = Some e'' \<and> Q e''"
  shows "\<exists>e'. loop_iteration (bus_world f g) app () e = Some (Inr False, (), e') \<and> Q e'"
proof -
  let ?W = "bus_world f g"
  obtain e1 where e1: "drive_timer ?W e = Some (Inr False, e1)"
    "engine_at c i st out inn False [\<lparr>af_sender_id = j, af_payload = d\<rparr>] e1"
    using timer_at [where f = f, OF e f c] by blast
  have len: "length d \<le> 8192" "d \<noteq> []" using d by (auto simp: carries_def wire_def wire_pre_def field_bytes_def)
  obtain w where w: "wo_recv ?W 8192 (fe_world e1) = (Inr d, w)" "engine_at c i st out inn False [] (e1\<lparr>fe_world := w\<rparr>)"
    using recv_at [where f = f and g = g, OF e1(2)] j len(1) by (simp only: AeronFrame.simps not_False_eq_True simp_thms) blast
  obtain v where v: "parse new_parser d = Inr (v, length d)" "view_ok v"
    "field_pairs v = parsed_fields b ((MSG_TYPE, mt) # fs)" "msg_type v = Some (Some mt)" "msg_seq_num v = Some (Some inn)"
    using carries_parse [OF d] by blast
  let ?e2 = "session_validate ?W inn (session_received ?W (e1\<lparr>fe_world := w\<rparr>))"
  have e2: "engine_at c i st out (inn + 1) False [] ?e2" by (intro session_at) (rule w(2))
  obtain e' e'' where h: "dispatch ?W app mt v () ?e2 = Some (Inr (), (), e')" "fe_recv e' = []"
    "after_batch ?W e' = Some e''" "Q e''" using handler [OF v(2,3) e2] by blast
  have "fe_parser (e1\<lparr>fe_world := w\<rparr>) = new_parser" "fe_recv e1 = []" using e1(2) by (simp_all add: engine_at_def)
  then have "handle_message ?W app d () (e1\<lparr>fe_world := w\<rparr>) = Some (Inr (), (), e')"
    using handle_parsed [of "e1\<lparr>fe_world := w\<rparr>" d v "length d" mt inn ?W app] v h(1) by simp
  moreover have "process_messages ?W app [] () e' = Some (Inr (), (), e')"
  proof -
    have "e'\<lparr>fe_recv := []\<rparr> = e'" using h(2) by simp
    then show ?thesis by (simp add: process_messages.simps find_message_boundary_def)
  qed
  moreover have "find_message_boundary d = Some (length d)"
    using find_boundary_wire [of b "(MSG_TYPE, mt) # fs" "[]"] d by (simp add: carries_def good_field_def tag_defs)
  ultimately have "process_messages ?W app d () (e1\<lparr>fe_world := w\<rparr>) = Some (Inr (), (), e')"
    by (simp add: process_messages.simps [of ?W app d])
  then have "receive_batch ?W app () e1 = Some (Inr False, (), e'')"
    using w(1) len \<open>fe_recv e1 = []\<close> h(3) by (simp add: receive_batch_def)
  then show ?thesis using e1(1) e h(4) by (auto simp: loop_iteration_def engine_at_def)
qed

section \<open>The messages of the run\<close>

lemma demo_config_facts [simp]:
  "cfg_fits acceptor_config" "cfg_fits initiator_config"
  "sc_fix_version acceptor_config = asc ''FIX.4.4''" "sc_fix_version initiator_config = asc ''FIX.4.4''"
  "sc_role acceptor_config = Acceptor" "sc_role initiator_config = Initiator"
  "sc_heartbeat_interval acceptor_config = secs 30" "sc_heartbeat_interval initiator_config = secs 30"
  by (simp_all add: cfg_fits_def config_defs secs_def asc_def)

lemma fix44_clean [simp]: "SOH \<notin> set (asc ''FIX.4.4'')" by (simp add: asc_def SOH_def)

definition session_fields :: "SessionConfig \<Rightarrow> u64 \<Rightarrow> bytes \<Rightarrow> (u32 \<times> bytes) list" where
  "session_fields c n ts =
     [(SENDER_COMP_ID, sc_sender_comp_id c), (TARGET_COMP_ID, sc_target_comp_id c), (MSG_SEQ_NUM, dec (unat n)),
      (SENDING_TIME, ts)]"

definition logon_fields :: "SessionConfig \<Rightarrow> u64 \<Rightarrow> bytes \<Rightarrow> (u32 \<times> bytes) list" where
  "logon_fields c n ts =
     session_fields c n ts @ [(ENCRYPT_METHOD, int_text 0),
       (HEARTBT_INT, int_text (of_nat (sc_heartbeat_interval c div 1000000000)))]"

definition demo_config :: "SessionConfig \<Rightarrow> bool" where
  "demo_config c \<longleftrightarrow> c = acceptor_config \<or> c = initiator_config"

lemma demo_config_cases [simp]: "demo_config acceptor_config" "demo_config initiator_config"
  by (simp_all add: demo_config_def)

lemma demo_names_clean:
  "demo_config c \<Longrightarrow> SOH \<notin> set (sc_sender_comp_id c) \<and> SOH \<notin> set (sc_target_comp_id c)"
  by (auto simp: demo_config_def config_defs asc_def SOH_def)

lemma session_carries:
  assumes "demo_config c" "stamp ts"
  shows "carries (asc ''A'') (logon_fields c n ts) (asc ''FIX.4.4'') n (logon_text c n ts)"
    "carries (asc ''5'') (session_fields c n ts) (asc ''FIX.4.4'') n (logout_text c n ts)"
proof -
  have c: "cfg_fits c" "sc_fix_version c = asc ''FIX.4.4''" using assms(1) by (auto simp: demo_config_def)
  have t: "length ts = 21" "SOH \<notin> set ts" using assms(2) by (simp_all add: stamp_def)
  have mt: "SOH \<notin> set (asc ''A'')" "SOH \<notin> set (asc ''5'')" by (simp_all add: asc_def SOH_def)
  have len: "length (logon_text c n ts) \<le> 8192" "length (logout_text c n ts) \<le> 8192"
    using texts_fit(1,3) [OF c(1) t(1), of n] by simp_all
  show "carries (asc ''A'') (logon_fields c n ts) (asc ''FIX.4.4'') n (logon_text c n ts)"
    unfolding carries_def using c len t mt demo_names_clean [OF assms(1)]
    by (simp add: logon_text_def logon_fields_def session_fields_def good_field_def tag_defs MAX_FIELDS_def
        int_text_no_soh dec_no_soh)
  show "carries (asc ''5'') (session_fields c n ts) (asc ''FIX.4.4'') n (logout_text c n ts)"
    unfolding carries_def using c len t mt demo_names_clean [OF assms(1)]
    by (simp add: logout_text_def session_fields_def good_field_def tag_defs MAX_FIELDS_def dec_no_soh)
qed

lemma trade_carries:
  assumes "stamp ts"
  shows "carries (asc ''D'') (order_fields initiator_config n ts) (asc ''FIX.4.4'') n (order_text initiator_config n ts)"
    "carries (asc ''8'') (fill_fields acceptor_config n ts) (asc ''FIX.4.4'') n (fill_text acceptor_config n ts)"
proof -
  have t: "SOH \<notin> set ts" using assms by (simp add: stamp_def)
  have mt: "SOH \<notin> set (asc ''D'')" "SOH \<notin> set (asc ''8'')" by (simp_all add: asc_def SOH_def)
  have len: "length (order_text initiator_config n ts) \<le> 8192" "length (fill_text acceptor_config n ts) \<le> 8192"
    using demo_texts_fit [OF assms, of n] by simp_all
  have names: "SOH \<notin> set (sc_sender_comp_id c) \<and> SOH \<notin> set (sc_target_comp_id c)"
    if "c = acceptor_config \<or> c = initiator_config" for c
    using that demo_names_clean by auto
  show "carries (asc ''D'') (order_fields initiator_config n ts) (asc ''FIX.4.4'') n (order_text initiator_config n ts)"
    unfolding carries_def using len(1) t mt names [of initiator_config]
    by (simp add: order_text_def order_fields_def good_field_def tag_defs MAX_FIELDS_def int_text_no_soh dec_no_soh)
      (simp add: asc_def SOH_def)
  show "carries (asc ''8'') (fill_fields acceptor_config n ts) (asc ''FIX.4.4'') n (fill_text acceptor_config n ts)"
    unfolding carries_def using len(2) t mt names [of acceptor_config]
    by (simp add: fill_text_def fill_fields_def good_field_def tag_defs MAX_FIELDS_def int_text_no_soh dec_no_soh)
      (simp add: asc_def SOH_def)
qed

text \<open>What the applications read in the order and the fill.\<close>

lemma order_read:
  assumes "view_ok v" "field_pairs v = parsed_fields (asc ''FIX.4.4'') ((MSG_TYPE, mt) # order_fields c n ts)"
  shows "get_field v CL_ORD_ID = Some (Some (asc ''ORD-AERON-1''))" "get_field v SYMBOL = Some (Some (asc ''AAPL''))"
    "get_field_i64 v ORDER_QTY = Some (Some 1000)"
  using get_field_map_of [OF assms(1)] assms(2)
  by (simp_all add: parsed_fields_def order_fields_def tag_defs map_add_def get_field_i64_def parse_i64_int_text)

lemma fill_read:
  assumes "view_ok v" "field_pairs v = parsed_fields (asc ''FIX.4.4'') ((MSG_TYPE, mt) # fill_fields c n ts)"
  shows "\<exists>r. get_field_str v CL_ORD_ID = Some r"
proof -
  have "get_field v CL_ORD_ID = Some (Some (asc ''ORD-AERON-1''))"
    using get_field_map_of [OF assms(1)] assms(2)
    by (simp add: parsed_fields_def fill_fields_def tag_defs map_add_def)
  then show ?thesis by (simp add: get_field_str_def)
qed

section \<open>Turns that exchange a message\<close>

lemma logon_launch:
  assumes "engine_at initiator_config i Disconnected 1 inn False [] e"
  shows "\<exists>e' ts. send_logon (bus_world f g) (session_connected (bus_world f g) e) = Some (Inr (), e') \<and> stamp ts \<and>
    engine_at initiator_config i LogonSent 2 inn False
      [\<lparr>af_sender_id = i, af_payload = logon_text initiator_config 1 ts\<rparr>] e'"
proof -
  have "engine_at initiator_config i LogonSent 1 inn False [] (session_connected (bus_world f g) e)"
    using session_at(5) [OF assms, of f g] by simp
  from sends_at(1) [OF this demo_config_facts(2), of f g] show ?thesis by auto
qed

lemma logon_answered:
  assumes e: "engine_at acceptor_config i Disconnected 1 1 False
      [\<lparr>af_sender_id = j, af_payload = logon_text initiator_config 1 ts\<rparr>] e"
    and "j \<noteq> i" "stamp ts" and f: "\<And>k. f k < secs 30"
  shows "\<exists>e' ts. loop_iteration (bus_world f g) aeron_acceptor () e = Some (Inr False, (), e') \<and> stamp ts \<and>
    engine_at acceptor_config i Active 2 2 False [\<lparr>af_sender_id = i, af_payload = logon_text acceptor_config 1 ts\<rparr>] e'"
proof -
  let ?W = "bus_world f g"
  let ?Q = "\<lambda>e'. \<exists>ts. stamp ts \<and> engine_at acceptor_config i Active 2 2 False
      [\<lparr>af_sender_id = i, af_payload = logon_text acceptor_config 1 ts\<rparr>] e'"
  have "\<exists>e' e''. dispatch ?W aeron_acceptor (asc ''A'') v () e = Some (Inr (), (), e') \<and> fe_recv e' = [] \<and>
      after_batch ?W e' = Some e'' \<and> ?Q e''" if "engine_at acceptor_config i Disconnected 1 (1 + 1) False [] e" for v e
  proof -
    have "engine_at acceptor_config i Connecting 1 2 False [] (session_connected ?W e)"
      using session_at(5) [OF that, of f g] by simp
    then have "engine_at acceptor_config i Active 1 2 False [] (session_logon ?W (session_connected ?W e))"
      by (rule session_at)
    from sends_at(1) [OF this demo_config_facts(1), of f g]
    obtain e1 ts where e1: "send_logon ?W (session_logon ?W (session_connected ?W e)) = Some (Inr (), e1)" "stamp ts"
      "engine_at acceptor_config i Active 2 2 False [\<lparr>af_sender_id = i, af_payload = logon_text acceptor_config 1 ts\<rparr>] e1"
      by auto
    have "ss_state (fe_session e) = Disconnected" "ss_config (fe_session e) = acceptor_config"
      using that by (simp_all add: engine_at_def)
    then have "dispatch ?W aeron_acceptor (asc ''A'') v () e = Some (Inr (), (), e1)"
      by (simp add: dispatch_def dispatch_logon_def Let_def then_do_def call_app_def aeron_acceptor_def e1(1))
    moreover obtain e2 where "after_batch ?W e1 = Some e2" "engine_at acceptor_config i Active 2 2 False
        [\<lparr>af_sender_id = i, af_payload = logon_text acceptor_config 1 ts\<rparr>] e2"
      using after_batch_at [OF e1(3), of ?W] by auto
    moreover have "fe_recv e1 = []" using e1(3) by (simp add: engine_at_def)
    ultimately show ?thesis using e1(2) by blast
  qed
  then have "\<exists>e'. loop_iteration ?W aeron_acceptor () e = Some (Inr False, (), e') \<and> ?Q e'"
    by (intro message_turn [where f = f and Q = ?Q, OF e assms(2) session_carries(1) [OF demo_config_cases(2) assms(3)] f]) (simp_all only: demo_config_facts)
  then show ?thesis by blast
qed

lemma order_placed:
  assumes e: "engine_at initiator_config i LogonSent 2 1 False
      [\<lparr>af_sender_id = j, af_payload = logon_text acceptor_config 1 ts\<rparr>] e"
    and "j \<noteq> i" "stamp ts" and f: "\<And>k. f k < secs 30"
  shows "\<exists>e' ts. loop_iteration (bus_world f g) aeron_initiator () e = Some (Inr False, (), e') \<and> stamp ts \<and>
    engine_at initiator_config i Active 3 2 False [\<lparr>af_sender_id = i, af_payload = order_text initiator_config 2 ts\<rparr>] e'"
proof -
  let ?W = "bus_world f g"
  let ?Q = "\<lambda>e'. \<exists>ts. stamp ts \<and> engine_at initiator_config i Active 3 2 False
      [\<lparr>af_sender_id = i, af_payload = order_text initiator_config 2 ts\<rparr>] e'"
  have "\<exists>e' e''. dispatch ?W aeron_initiator (asc ''A'') v () e = Some (Inr (), (), e') \<and> fe_recv e' = [] \<and>
      after_batch ?W e' = Some e'' \<and> ?Q e''" if "engine_at initiator_config i LogonSent 2 (1 + 1) False [] e" for v e
  proof -
    have "engine_at initiator_config i Active 2 2 False [] (session_logon ?W e)" using session_at(3) [OF that] by simp
    from order_sent [OF this, of f g]
    obtain e1 ts where e1: "run_app ?W (aeron_initiator_logon ()) (session_logon ?W e) = Some (Inr (), (), e1)" "stamp ts"
      "engine_at initiator_config i Active 3 2 False [\<lparr>af_sender_id = i, af_payload = order_text initiator_config 2 ts\<rparr>] e1"
      by auto
    have "ss_state (fe_session e) = LogonSent" "ss_config (fe_session e) = initiator_config"
      using that by (simp_all add: engine_at_def)
    then have "dispatch ?W aeron_initiator (asc ''A'') v () e = Some (Inr (), (), e1)"
      by (simp add: dispatch_def dispatch_logon_def Let_def call_app_def aeron_initiator_def e1(1))
    moreover obtain e2 where "after_batch ?W e1 = Some e2" "engine_at initiator_config i Active 3 2 False
        [\<lparr>af_sender_id = i, af_payload = order_text initiator_config 2 ts\<rparr>] e2"
      using after_batch_at [OF e1(3), of ?W] by auto
    moreover have "fe_recv e1 = []" using e1(3) by (simp add: engine_at_def)
    ultimately show ?thesis using e1(2) by blast
  qed
  then have "\<exists>e'. loop_iteration ?W aeron_initiator () e = Some (Inr False, (), e') \<and> ?Q e'"
    by (intro message_turn [where f = f and Q = ?Q, OF e assms(2) session_carries(1) [OF demo_config_cases(1) assms(3)] f]) (simp_all only: demo_config_facts)
  then show ?thesis by blast
qed

lemma order_filled:
  assumes e: "engine_at acceptor_config i Active 2 2 False
      [\<lparr>af_sender_id = j, af_payload = order_text initiator_config 2 ts\<rparr>] e"
    and "j \<noteq> i" "stamp ts" and f: "\<And>k. f k < secs 30"
  shows "\<exists>e' ts. loop_iteration (bus_world f g) aeron_acceptor () e = Some (Inr False, (), e') \<and> stamp ts \<and>
    engine_at acceptor_config i Active 3 3 False [\<lparr>af_sender_id = i, af_payload = fill_text acceptor_config 2 ts\<rparr>] e'"
proof -
  let ?W = "bus_world f g"
  let ?Q = "\<lambda>e'. \<exists>ts. stamp ts \<and> engine_at acceptor_config i Active 3 3 False
      [\<lparr>af_sender_id = i, af_payload = fill_text acceptor_config 2 ts\<rparr>] e'"
  have "\<exists>e' e''. dispatch ?W aeron_acceptor (asc ''D'') v () e = Some (Inr (), (), e') \<and> fe_recv e' = [] \<and>
      after_batch ?W e' = Some e'' \<and> ?Q e''"
    if v: "view_ok v"
      "field_pairs v = parsed_fields (asc ''FIX.4.4'') ((MSG_TYPE, asc ''D'') # order_fields initiator_config 2 ts)"
      and at: "engine_at acceptor_config i Active 2 (2 + 1) False [] e" for v e
  proof -
    from fill_sent [OF at order_read [OF v], of f g]
    obtain e1 ts where e1: "run_app ?W (aeron_acceptor_message (asc ''D'') v ()) e = Some (Inr (), (), e1)" "stamp ts"
      "engine_at acceptor_config i Active 3 3 False [\<lparr>af_sender_id = i, af_payload = fill_text acceptor_config 2 ts\<rparr>] e1"
      by auto
    have "dispatch ?W aeron_acceptor (asc ''D'') v () e = Some (Inr (), (), e1)"
      by (simp add: dispatch_def call_app_def aeron_acceptor_def e1(1)) (simp add: asc_def)
    moreover obtain e2 where "after_batch ?W e1 = Some e2" "engine_at acceptor_config i Active 3 3 False
        [\<lparr>af_sender_id = i, af_payload = fill_text acceptor_config 2 ts\<rparr>] e2"
      using after_batch_at [OF e1(3), of ?W] by auto
    moreover have "fe_recv e1 = []" using e1(3) by (simp add: engine_at_def)
    ultimately show ?thesis using e1(2) by blast
  qed
  then have "\<exists>e'. loop_iteration ?W aeron_acceptor () e = Some (Inr False, (), e') \<and> ?Q e'"
    by (intro message_turn [where f = f and Q = ?Q, OF e assms(2) trade_carries(1) [OF assms(3)] f]) (simp_all only: demo_config_facts)
  then show ?thesis by blast
qed

lemma fill_logout:
  assumes e: "engine_at initiator_config i Active 3 2 False
      [\<lparr>af_sender_id = j, af_payload = fill_text acceptor_config 2 ts\<rparr>] e"
    and "j \<noteq> i" "stamp ts" and f: "\<And>k. f k < secs 30"
  shows "\<exists>e' ts. loop_iteration (bus_world f g) aeron_initiator () e = Some (Inr False, (), e') \<and> stamp ts \<and>
    engine_at initiator_config i Disconnected 4 3 True
      [\<lparr>af_sender_id = i, af_payload = logout_text initiator_config 3 ts\<rparr>] e'"
proof -
  let ?W = "bus_world f g"
  let ?Q = "\<lambda>e'. \<exists>ts. stamp ts \<and> engine_at initiator_config i Disconnected 4 3 True
      [\<lparr>af_sender_id = i, af_payload = logout_text initiator_config 3 ts\<rparr>] e'"
  have "\<exists>e' e''. dispatch ?W aeron_initiator (asc ''8'') v () e = Some (Inr (), (), e') \<and> fe_recv e' = [] \<and>
      after_batch ?W e' = Some e'' \<and> ?Q e''"
    if v: "view_ok v"
      "field_pairs v = parsed_fields (asc ''FIX.4.4'') ((MSG_TYPE, asc ''8'') # fill_fields acceptor_config 2 ts)"
      and at: "engine_at initiator_config i Active 3 (2 + 1) False [] e" for v e
  proof -
    have stop: "engine_at initiator_config i LogoutSent 3 3 False [] (request_stop e)" using session_at(4) [OF at] by simp
    obtain r where "get_field_str v CL_ORD_ID = Some r" using fill_read [OF v] ..
    then have "dispatch ?W aeron_initiator (asc ''8'') v () e = Some (Inr (), (), request_stop e)"
      by (simp add: dispatch_def call_app_def aeron_initiator_def aeron_initiator_message_def unwrap_or_def or_panic_def)
        (simp add: asc_def)
    moreover obtain e2 where "after_batch ?W (request_stop e) = Some e2" "?Q e2"
      using after_logout_at [OF stop demo_config_facts(2), of f g] by auto
    moreover have "fe_recv (request_stop e) = []" using stop by (simp add: engine_at_def)
    ultimately show ?thesis by blast
  qed
  then have "\<exists>e'. loop_iteration ?W aeron_initiator () e = Some (Inr False, (), e') \<and> ?Q e'"
    by (intro message_turn [where f = f and Q = ?Q, OF e assms(2) trade_carries(2) [OF assms(3)] f]) (simp_all only: demo_config_facts)
  then show ?thesis by blast
qed

lemma logout_answered:
  assumes e: "engine_at acceptor_config i Active 3 3 False
      [\<lparr>af_sender_id = j, af_payload = logout_text initiator_config 3 ts\<rparr>] e"
    and "j \<noteq> i" "stamp ts" and f: "\<And>k. f k < secs 30"
  shows "\<exists>e' ts. loop_iteration (bus_world f g) aeron_acceptor () e = Some (Inr False, (), e') \<and> stamp ts \<and>
    engine_at acceptor_config i Disconnected 4 4 True
      [\<lparr>af_sender_id = i, af_payload = logout_text acceptor_config 3 ts\<rparr>] e'"
proof -
  let ?W = "bus_world f g"
  let ?Q = "\<lambda>e'. \<exists>ts. stamp ts \<and> engine_at acceptor_config i Disconnected 4 4 True
      [\<lparr>af_sender_id = i, af_payload = logout_text acceptor_config 3 ts\<rparr>] e'"
  have "\<exists>e' e''. dispatch ?W aeron_acceptor (asc ''5'') v () e = Some (Inr (), (), e') \<and> fe_recv e' = [] \<and>
      after_batch ?W e' = Some e'' \<and> ?Q e''" if at: "engine_at acceptor_config i Active 3 (3 + 1) False [] e" for v e
  proof -
    from sends_at(2) [OF at demo_config_facts(1), of f g]
    obtain e1 ts where e1: "send_logout ?W e = Some (Inr (), e1)" "stamp ts" "engine_at acceptor_config i LogoutSent 4 4
        False [\<lparr>af_sender_id = i, af_payload = logout_text acceptor_config 3 ts\<rparr>] e1" by auto
    let ?e1 = "e1\<lparr>fe_session := on_disconnected (fe_session e1), fe_should_stop := True\<rparr>"
    have at1: "engine_at acceptor_config i Disconnected 4 4 True
        [\<lparr>af_sender_id = i, af_payload = logout_text acceptor_config 3 ts\<rparr>] ?e1"
      using e1(3) by (simp add: engine_at_def on_disconnected_def)
    have "ss_state (fe_session e) = Active" using at by (simp add: engine_at_def)
    then have "dispatch ?W aeron_acceptor (asc ''5'') v () e = Some (Inr (), (), ?e1)"
      by (simp add: dispatch_def dispatch_logout_def Let_def then_do_def aeron_acceptor_def e1(1)) (simp add: asc_def)
    moreover obtain e2 where "after_batch ?W ?e1 = Some e2" "?Q e2"
      using after_batch_at [OF at1, of ?W] e1(2) by auto
    moreover have "fe_recv ?e1 = []" using e1(3) by (simp add: engine_at_def)
    ultimately show ?thesis by blast
  qed
  then have "\<exists>e'. loop_iteration ?W aeron_acceptor () e = Some (Inr False, (), e') \<and> ?Q e'"
    by (intro message_turn [where f = f and Q = ?Q, OF e assms(2) session_carries(2) [OF demo_config_cases(2) assms(3)] f]) (simp_all only: demo_config_facts)
  then show ?thesis by blast
qed

section \<open>The stages of the run\<close>

datatype stage = Opening | Greeted | Answered | Ordered | Filled | Closing bool nat

fun stage_step :: "stage \<Rightarrow> side \<Rightarrow> stage" where
  "stage_step Opening Ini = Greeted"
| "stage_step Greeted Acc = Answered"
| "stage_step Answered Ini = Ordered"
| "stage_step Ordered Acc = Filled"
| "stage_step Filled Ini = Closing False 0"
| "stage_step (Closing b n) Ini = Closing True n"
| "stage_step (Closing b n) Acc = Closing b (Suc n)"
| "stage_step st _ = st"

text \<open>The frames on the bus: at most one, the last message sent.\<close>

fun frames_at :: "u64 \<Rightarrow> u64 \<Rightarrow> stage \<Rightarrow> bytes \<Rightarrow> AeronFrame list" where
  "frames_at ia ii Opening = (\<lambda>ts. [])"
| "frames_at ia ii Greeted = (\<lambda>ts. [\<lparr>af_sender_id = ii, af_payload = logon_text initiator_config 1 ts\<rparr>])"
| "frames_at ia ii Answered = (\<lambda>ts. [\<lparr>af_sender_id = ia, af_payload = logon_text acceptor_config 1 ts\<rparr>])"
| "frames_at ia ii Ordered = (\<lambda>ts. [\<lparr>af_sender_id = ii, af_payload = order_text initiator_config 2 ts\<rparr>])"
| "frames_at ia ii Filled = (\<lambda>ts. [\<lparr>af_sender_id = ia, af_payload = fill_text acceptor_config 2 ts\<rparr>])"
| "frames_at ia ii (Closing b 0) = (\<lambda>ts. [\<lparr>af_sender_id = ii, af_payload = logout_text initiator_config 3 ts\<rparr>])"
| "frames_at ia ii (Closing b (Suc n)) = (\<lambda>ts. [\<lparr>af_sender_id = ia, af_payload = logout_text acceptor_config 3 ts\<rparr>])"

text \<open>The thread: what it is in, and the state and the two numbers of its session.\<close>

datatype phase = Starting | Running | Finished

fun phase_of :: "thread \<Rightarrow> (phase \<times> engine) option" where
  "phase_of (Launch e) = Some (Starting, e)"
| "phase_of (Live e) = Some (Running, e)"
| "phase_of (Ended (Inr ()) e) = Some (Finished, e)"
| "phase_of _ = None"

fun thread_at :: "SessionConfig \<Rightarrow> u64 \<Rightarrow> Registry \<Rightarrow> AeronFrame list \<Rightarrow> phase \<times> SessionState \<times> u64 \<times> u64 \<times> bool \<Rightarrow> thread \<Rightarrow> bool" where
  "thread_at c i g fs (ph, st, out, inn, stop) t \<longleftrightarrow>
     (\<exists>e. phase_of t = Some (ph, e) \<and> (if ph = Finished then
        ss_state (fe_session e) = st \<and> ss_outbound_seq_num (fe_session e) = out \<and> ss_inbound_seq_num (fe_session e) = inn
      else engine_at c i st out inn stop fs (on_bus g e)))"

fun initiator_in :: "stage \<Rightarrow> phase \<times> SessionState \<times> u64 \<times> u64 \<times> bool" where
  "initiator_in Opening = (Starting, Disconnected, 1, 1, False)"
| "initiator_in Greeted = (Running, LogonSent, 2, 1, False)"
| "initiator_in Answered = (Running, LogonSent, 2, 1, False)"
| "initiator_in Ordered = (Running, Active, 3, 2, False)"
| "initiator_in Filled = (Running, Active, 3, 2, False)"
| "initiator_in (Closing b n) = (if b then Finished else Running, Disconnected, 4, 3, True)"

fun acceptor_in :: "stage \<Rightarrow> phase \<times> SessionState \<times> u64 \<times> u64 \<times> bool" where
  "acceptor_in Opening = (Running, Disconnected, 1, 1, False)"
| "acceptor_in Greeted = (Running, Disconnected, 1, 1, False)"
| "acceptor_in Answered = (Running, Active, 2, 2, False)"
| "acceptor_in Ordered = (Running, Active, 2, 2, False)"
| "acceptor_in Filled = (Running, Active, 3, 3, False)"
| "acceptor_in (Closing b 0) = (Running, Active, 3, 3, False)"
| "acceptor_in (Closing b (Suc 0)) = (Running, Disconnected, 4, 4, True)"
| "acceptor_in (Closing b (Suc (Suc n))) = (Finished, Disconnected, 4, 4, True)"

definition demo_at :: "u64 \<Rightarrow> u64 \<Rightarrow> stage \<Rightarrow> Demo \<Rightarrow> bool" where
  "demo_at ia ii st d \<longleftrightarrow> (\<exists>ts. stamp ts \<and> de_bus d demo_key = Some (frames_at ia ii st ts) \<and>
     thread_at initiator_config ii (de_bus d) (frames_at ia ii st ts) (initiator_in st) (de_ini d) \<and>
     thread_at acceptor_config ia (de_bus d) (frames_at ia ii st ts) (acceptor_in st) (de_acc d))"

text \<open>A thread that does not move sees only the frames change.\<close>

lemma engine_at_rebus:
  "engine_at c i st out inn stop fs (on_bus g e) \<Longrightarrow> g' demo_key = Some fs' \<Longrightarrow>
     engine_at c i st out inn stop fs' (on_bus g' e)"
  by (simp add: engine_at_def on_bus_def)

lemma thread_at_rebus:
  "thread_at c i g fs st t \<Longrightarrow> g' demo_key = Some fs' \<Longrightarrow> thread_at c i g' fs' st t"
  by (cases st) (auto simp: engine_at_rebus)

lemma bus_of_engine: "engine_at c i st out inn stop fs e \<Longrightarrow> bus_after e demo_key = Some fs"
  by (simp add: engine_at_def bus_after_def)

lemma on_own_bus: "on_bus (bus_after e) e = e"
  by (simp add: on_bus_def bus_after_def)

text \<open>Turns of a running thread.\<close>

text \<open>A turn that brings a thread to a place, with the frames \<open>F ts\<close> on the bus.\<close>

definition moves :: "(nat \<times> aeron) World \<Rightarrow> unit App \<Rightarrow> SessionConfig \<Rightarrow> u64 \<Rightarrow> Registry \<Rightarrow> thread \<Rightarrow> (bytes \<Rightarrow> AeronFrame list) \<Rightarrow>
    phase \<times> SessionState \<times> u64 \<times> u64 \<times> bool \<Rightarrow> bool" where
  "moves W app c i g t F pl \<longleftrightarrow> (\<exists>t' g' ts. thread_turn W app g t = (t', g') \<and> stamp ts \<and> g' demo_key = Some (F ts) \<and>
     thread_at c i g' (F ts) pl t')"

lemma movesI:
  "thread_turn W app g t = (Live e, bus_after e) \<Longrightarrow> stamp ts \<Longrightarrow> engine_at c i st out inn stop (F ts) e \<Longrightarrow>
     moves W app c i g t F (Running, st, out, inn, stop)"
  unfolding moves_def
  by (intro exI [of _ "Live e"] exI [of _ "bus_after e"] exI [of _ ts]) (simp add: bus_of_engine on_own_bus)

lemma launch_turn:
  assumes "thread_at initiator_config i g [] (Starting, Disconnected, 1, 1, False) t"
  shows "moves (bus_world f wall) app initiator_config i g t
    (\<lambda>ts. [\<lparr>af_sender_id = i, af_payload = logon_text initiator_config 1 ts\<rparr>]) (Running, LogonSent, 2, 1, False)"
proof -
  obtain e where e: "t = Launch e" "engine_at initiator_config i Disconnected 1 1 False [] (on_bus g e)"
    using assms by (cases t rule: phase_of.cases) auto
  obtain e' ts where "send_logon (bus_world f wall) (session_connected (bus_world f wall) (on_bus g e)) = Some (Inr (), e')"
    "stamp ts" "engine_at initiator_config i LogonSent 2 1 False
      [\<lparr>af_sender_id = i, af_payload = logon_text initiator_config 1 ts\<rparr>] e'"
    using logon_launch [OF e(2), of f wall] by blast
  then show ?thesis using e(1) by (intro movesI) simp_all
qed

lemma message_step:
  assumes "thread_at c i g fs (Running, st, out, inn, stop) t"
    and "\<And>e. engine_at c i st out inn stop fs e \<Longrightarrow> \<exists>e' ts. loop_iteration W app () e = Some (Inr False, (), e') \<and>
      stamp ts \<and> engine_at c i st' out' inn' stop' (F ts) e'"
  shows "moves W app c i g t F (Running, st', out', inn', stop')"
proof -
  obtain e where e: "t = Live e" "engine_at c i st out inn stop fs (on_bus g e)"
    using assms(1) by (cases t rule: phase_of.cases) auto
  from assms(2) [OF this(2)] show ?thesis using e(1) by (auto intro: movesI)
qed

lemma idle_step:
  assumes "thread_at c i g (F ts) (Running, st, out, inn, False) t" "stamp ts" "\<forall>fr \<in> set (F ts). af_sender_id fr = i"
    and "\<And>k. f k < secs 30" "sc_heartbeat_interval c = secs 30"
  shows "moves (bus_world f wall) app c i g t F (Running, st, out, inn, False)"
proof (rule message_step [OF assms(1)])
  fix e assume "engine_at c i st out inn False (F ts) e"
  from idle_turn [where f = f and g = wall and app = app, OF this assms(3-5)] assms(2)
  show "\<exists>e' ts. loop_iteration (bus_world f wall) app () e = Some (Inr False, (), e') \<and> stamp ts \<and>
    engine_at c i st out inn False (F ts) e'" by blast
qed

lemma last_step:
  assumes "thread_at c i g (F ts) (ph, Disconnected, out, inn, True) t" "ph \<noteq> Starting" "stamp ts" "g demo_key = Some (F ts)"
  shows "moves (bus_world f wall) app c i g t F (Finished, Disconnected, out, inn, True)"
  unfolding moves_def using assms
  by (cases t rule: phase_of.cases; cases ph)
    (auto simp: engine_at_def loop_iteration_def on_bus_def bus_after_def bus_world_def aeron_close_def
      split: prod.splits intro!: exI [of _ ts])

section \<open>The run\<close>

text \<open>Each turn is a step of the stages.\<close>

lemma initiator_moves:
  assumes t: "thread_at initiator_config ii g (frames_at ia ii st ts) (initiator_in st) t"
    and g: "stamp ts" "g demo_key = Some (frames_at ia ii st ts)" and d: "ia \<noteq> ii" "\<And>k. f k < secs 30"
  shows "moves (bus_world f wall) aeron_initiator initiator_config ii g t (frames_at ia ii (stage_step st Ini))
    (initiator_in (stage_step st Ini))"
proof (cases st rule: initiator_in.cases)
  case 1
  with t launch_turn [of ii g t f wall aeron_initiator] show ?thesis by simp
next
  case 2
  with t idle_step [where f = f and F = "frames_at ia ii st", OF _ g(1) _ d(2)] show ?thesis by simp
next
  case 3
  with t message_step [OF _ order_placed [OF _ d(1) g(1) d(2)]] show ?thesis by simp
next
  case 4
  with t idle_step [where f = f and F = "frames_at ia ii st", OF _ g(1) _ d(2)] show ?thesis by simp
next
  case 5
  with t message_step [OF _ fill_logout [OF _ d(1) g(1) d(2)]] show ?thesis by simp
next
  case (6 b n)
  have "frames_at ia ii (Closing True n) = frames_at ia ii (Closing b n)" by (cases n) auto
  with 6 t g last_step [where F = "frames_at ia ii st" and ts = ts and t = t] show ?thesis by simp
qed

lemma acceptor_moves:
  assumes t: "thread_at acceptor_config ia g (frames_at ia ii st ts) (acceptor_in st) t"
    and g: "stamp ts" "g demo_key = Some (frames_at ia ii st ts)" and d: "ii \<noteq> ia" "\<And>k. f k < secs 30"
  shows "moves (bus_world f wall) aeron_acceptor acceptor_config ia g t (frames_at ia ii (stage_step st Acc))
    (acceptor_in (stage_step st Acc))"
proof (cases st rule: acceptor_in.cases)
  case 1
  with t idle_step [where f = f and F = "frames_at ia ii st", OF _ g(1) _ d(2)] show ?thesis by simp
next
  case 2
  with t message_step [OF _ logon_answered [OF _ d(1) g(1) d(2)]] show ?thesis by simp
next
  case 3
  with t idle_step [where f = f and F = "frames_at ia ii st", OF _ g(1) _ d(2)] show ?thesis by simp
next
  case 4
  with t message_step [OF _ order_filled [OF _ d(1) g(1) d(2)]] show ?thesis by simp
next
  case 5
  with t idle_step [where f = f and F = "frames_at ia ii st", OF _ g(1) _ d(2)] show ?thesis by simp
next
  case (6 b)
  with t message_step [OF _ logout_answered [OF _ d(1) g(1) d(2)]] show ?thesis by simp
next
  case (7 b)
  with t g last_step [where F = "frames_at ia ii st" and ts = ts and t = t and ph = Running] show ?thesis by simp
next
  case (8 b n)
  with t g last_step [where F = "frames_at ia ii st" and ts = ts and t = t and ph = Finished] show ?thesis by simp
qed

lemma demo_step:
  assumes "demo_at ia ii st d" "ia \<noteq> ii" "\<And>k. f k < secs 30"
  shows "demo_at ia ii (stage_step st s) (demo_turn (bus_world f g) d s)"
proof -
  obtain ts where ts: "stamp ts" "de_bus d demo_key = Some (frames_at ia ii st ts)"
    and ini: "thread_at initiator_config ii (de_bus d) (frames_at ia ii st ts) (initiator_in st) (de_ini d)"
    and acc: "thread_at acceptor_config ia (de_bus d) (frames_at ia ii st ts) (acceptor_in st) (de_acc d)"
    using assms(1) by (auto simp: demo_at_def)
  show ?thesis
  proof (cases s)
    case Ini
    have stays: "acceptor_in (stage_step st Ini) = acceptor_in st" by (cases st rule: acceptor_in.cases) simp_all
    obtain t' b ts' where "thread_turn (bus_world f g) aeron_initiator (de_bus d) (de_ini d) = (t', b)" "stamp ts'"
      "b demo_key = Some (frames_at ia ii (stage_step st Ini) ts')"
      "thread_at initiator_config ii b (frames_at ia ii (stage_step st Ini) ts') (initiator_in (stage_step st Ini)) t'"
      using initiator_moves [where f = f and wall = g, OF ini ts assms(2,3)] unfolding moves_def by blast
    then show ?thesis using Ini stays thread_at_rebus [OF acc] by (auto simp: demo_at_def intro!: exI [of _ ts'])
  next
    case Acc
    have stays: "initiator_in (stage_step st Acc) = initiator_in st" by (cases st) simp_all
    obtain t' b ts' where "thread_turn (bus_world f g) aeron_acceptor (de_bus d) (de_acc d) = (t', b)" "stamp ts'"
      "b demo_key = Some (frames_at ia ii (stage_step st Acc) ts')"
      "thread_at acceptor_config ia b (frames_at ia ii (stage_step st Acc) ts') (acceptor_in (stage_step st Acc)) t'"
      using acceptor_moves [where f = f and wall = g, OF acc ts assms(2) [symmetric] assms(3)] unfolding moves_def by blast
    then show ?thesis using Acc stays thread_at_rebus [OF ini] by (auto simp: demo_at_def intro!: exI [of _ ts'])
  qed
qed

lemma demo_run:
  assumes "demo_at ia ii st d" "ia \<noteq> ii" "\<And>k. f k < secs 30"
  shows "demo_at ia ii (foldl stage_step st sched) (foldl (demo_turn (bus_world f g)) d sched)"
  using assms(1)
proof (induction sched arbitrary: st d)
  case Nil
  then show ?case by simp
next
  case (Cons s sched)
  from Cons.IH [OF demo_step [where f = f and g = g, OF Cons.prems assms(2,3)]] show ?case by simp
qed

lemma demo_opens:
  "\<exists>d. demo_start ia ii now now' = Some d \<and> demo_at ia ii Opening d"
proof -
  have k: "channel_key t a p = demo_key" if "at_config t = aeron_ipc 4242" for t a p
    using that by (simp add: channel_key_def demo_key_def aeron_ipc_def default_transport_config_def Let_def)
  let ?t = "\<lambda>i. \<lparr>at_endpoint_id = i, at_connected = False, at_config = aeron_ipc 4242, at_bus = None\<rparr>"
  let ?o = "\<lambda>i. ?t i\<lparr>at_bus := Some demo_key, at_connected := True\<rparr>"
  have b: "build_transport i (aeron_ipc 4242) = (Inr (AnyAeron (?t i)), i + 1)" for i
    by (simp add: build_transport_def new_aeron_def aeron_ipc_def default_transport_config_def)
  have "demo_endpoint ia Map.empty = Some ([demo_key \<mapsto> []], ?o ia)"
    "demo_endpoint ii [demo_key \<mapsto> []] = Some ([demo_key \<mapsto> []], ?o ii)"
    by (simp_all add: demo_endpoint_def b aeron_open_def k)
  moreover have "stamp (replicate 21 0)" by (simp add: stamp_def SOH_def)
  ultimately show ?thesis
    by (auto simp: demo_start_def demo_at_def engine_at_def on_bus_def new_initiator_def new_acceptor_def new_session_def
        config_defs)
qed

text \<open>The turns that a stage still needs, among any others.\<close>

fun turns_left :: "stage \<Rightarrow> side list" where
  "turns_left Opening = [Ini, Acc, Ini, Acc, Ini, Acc, Ini, Acc]"
| "turns_left Greeted = [Acc, Ini, Acc, Ini, Acc, Ini, Acc]"
| "turns_left Answered = [Ini, Acc, Ini, Acc, Ini, Acc]"
| "turns_left Ordered = [Acc, Ini, Acc, Ini, Acc]"
| "turns_left Filled = [Ini, Acc, Ini, Acc]"
| "turns_left (Closing False 0) = [Acc, Ini, Acc]"
| "turns_left (Closing True 0) = [Acc, Acc]"
| "turns_left (Closing False (Suc 0)) = [Ini, Acc]"
| "turns_left (Closing True (Suc 0)) = [Acc]"
| "turns_left (Closing False (Suc (Suc n))) = [Ini]"
| "turns_left (Closing True (Suc (Suc n))) = []"

lemma subseq_fewer:
  "subseq [Acc, Ini, Acc] xs \<Longrightarrow> subseq [Acc, Acc] xs" "subseq [Ini, Acc] xs \<Longrightarrow> subseq [Ini] xs"
  by (erule subseq_order.order_trans [rotated], simp)+

lemma turns_step: "subseq (turns_left st) (s # xs) \<Longrightarrow> subseq (turns_left (stage_step st s)) xs"
  by (cases st rule: turns_left.cases; cases s)
    (auto dest: subseq_Cons' intro: subseq_fewer)

lemma turns_run: "subseq (turns_left st) xs \<Longrightarrow> turns_left (foldl stage_step st xs) = []"
  by (induction xs arbitrary: st) (auto dest: turns_step)

lemma turns_none: "turns_left st = [] \<Longrightarrow> \<exists>n. st = Closing True (Suc (Suc n))"
  by (cases st rule: turns_left.cases) simp_all

text \<open>C18. Two threads of \<open>aeron_demo\<close>, their engines on endpoints of one bus, taking turns in any order
  that gives each of them four turns after the other: both threads end without an error and without a
  panic, their sessions disconnected, the initiator having sent three messages (Logon, order, Logout) and
  accepted two, the acceptor having sent three (Logon, fill, Logout) and accepted three. The clock stays
  below the heartbeat interval.\<close>

theorem demo_finishes:
  assumes "ia \<noteq> ii" "\<And>k. f k < secs 30" "subseq (concat (replicate 4 [Ini, Acc])) sched"
  shows "\<exists>d ei ea. demo_start ia ii now now' = Some d \<and>
    de_ini (foldl (demo_turn (bus_world f g)) d sched) = Ended (Inr ()) ei \<and>
    de_acc (foldl (demo_turn (bus_world f g)) d sched) = Ended (Inr ()) ea \<and>
    ss_state (fe_session ei) = Disconnected \<and> ss_outbound_seq_num (fe_session ei) = 4 \<and> ss_inbound_seq_num (fe_session ei) = 3 \<and>
    ss_state (fe_session ea) = Disconnected \<and> ss_outbound_seq_num (fe_session ea) = 4 \<and> ss_inbound_seq_num (fe_session ea) = 4"
proof -
  obtain d where d: "demo_start ia ii now now' = Some d" "demo_at ia ii Opening d" using demo_opens by blast
  have "turns_left (foldl stage_step Opening sched) = []"
    using assms(3) by (intro turns_run) (simp add: numeral_eq_Suc)
  then obtain n where n: "foldl stage_step Opening sched = Closing True (Suc (Suc n))" using turns_none by blast
  let ?d = "foldl (demo_turn (bus_world f g)) d sched"
  have fin: "\<exists>e. t = Ended (Inr ()) e \<and> ss_state (fe_session e) = st \<and> ss_outbound_seq_num (fe_session e) = out \<and>
      ss_inbound_seq_num (fe_session e) = inn" if "thread_at c i b fs (Finished, st, out, inn, stop) t" for c i b fs st out inn stop t
    using that by (cases t rule: phase_of.cases) auto
  have "demo_at ia ii (Closing True (Suc (Suc n))) ?d"
    using demo_run [where f = f and g = g, OF d(2) assms(1,2), of sched] n by simp
  then show ?thesis using d(1) by (auto simp: demo_at_def dest!: fin simp del: thread_at.simps)
qed

theorem demo_finishes_witness:
  "\<exists>d ei ea. demo_start 1 2 0 0 = Some d \<and>
    de_ini (foldl (demo_turn (bus_world (\<lambda>k. k mod 100) of_nat)) d
      [Acc, Ini, Ini, Acc, Ini, Acc, Acc, Ini, Acc, Ini, Acc]) = Ended (Inr ()) ei \<and>
    de_acc (foldl (demo_turn (bus_world (\<lambda>k. k mod 100) of_nat)) d
      [Acc, Ini, Ini, Acc, Ini, Acc, Acc, Ini, Acc, Ini, Acc]) = Ended (Inr ()) ea \<and>
    ss_outbound_seq_num (fe_session ei) = 4 \<and> ss_outbound_seq_num (fe_session ea) = 4"
proof -
  have f: "(k :: nat) mod 100 < secs 30" for k
    using mod_less_divisor [of 100 k] by (simp add: secs_def del: mod_less_divisor)
  have s: "subseq (concat (replicate 4 [Ini, Acc])) [Acc, Ini, Ini, Acc, Ini, Acc, Acc, Ini, Acc, Ini, Acc]"
    by (simp add: numeral_eq_Suc)
  have "(1 :: u64) \<noteq> 2" by simp
  from demo_finishes [where f = "\<lambda>k. k mod 100" and g = of_nat and now = 0 and now' = 0, OF this f s]
  show ?thesis by blast
qed

end
