(* ===== verification/FeatureDemo.thy ===== *)
theory FeatureDemo
  imports Fixt Acceptor Pool Journal Cluster Simd Dictionary Dashboard Metrics Wire "HOL-Library.Sublist"
begin

text \<open>
  The scenarios of \<open>src/src/bin/demo.rs\<close>, each as what it shows of the library's state, with
  \<^const>\<open>None\<close> for an \<open>unwrap\<close> that fails or any other panic. Measured times, printing and pauses are left
  out, and so are the scenarios that only measure. Clock readings are arguments.
\<close>

section \<open>Unwrapping\<close>

definition unwrap :: "'x option run \<Rightarrow> 'x run" where
  "unwrap m = Option.bind m id"

definition unwrap_ok :: "'e + 'x \<Rightarrow> 'x run" where
  "unwrap_ok r = (case r of Inl _ \<Rightarrow> None | Inr x \<Rightarrow> Some x)"

lemma unwrap_simps [simp]:
  "unwrap (Some (Some x)) = Some x" "unwrap_ok (Inr x) = Some x"
  by (simp_all add: unwrap_def unwrap_ok_def)

section \<open>1. Parse and serialize\<close>

definition demo_order :: "(bytes \<times> nat) run" where
  "demo_order =
     build_new_order_single (replicate 1024 0) (asc ''FIX.4.4'') (asc ''BANK_OMS'') (asc ''NYSE'') 42
       (asc ''20260321-10:00:00.123'') (asc ''ORD-2026032100001'') (asc ''AAPL'') (of_char CHR ''1'') 10000
       (of_char CHR ''2'') (asc ''178.55'')"

record OrderShown =
  os_consumed :: nat
  os_msg_type :: MsgType
  os_sender :: bytes
  os_target :: bytes
  os_cl_ord_id :: bytes
  os_symbol :: bytes
  os_side :: Side
  os_qty :: i64
  os_price :: bytes
  os_checksum_valid :: bool
  os_field_count :: nat

definition show_order :: "bytes \<Rightarrow> OrderShown run" where
  "show_order text =
     Option.bind (unwrap_ok (parse new_parser text)) (\<lambda>(v, consumed).
     Option.bind (unwrap (msg_type_enum v)) (\<lambda>mt.
     Option.bind (unwrap (sender_comp_id v)) (\<lambda>sender.
     Option.bind (unwrap (target_comp_id v)) (\<lambda>target.
     Option.bind (unwrap (get_field_str v CL_ORD_ID)) (\<lambda>cl.
     Option.bind (unwrap (get_field_str v SYMBOL)) (\<lambda>symb.
     Option.bind (unwrap (get_field v SIDE)) (\<lambda>side_text.
     Option.bind (get_at side_text 0) (\<lambda>side_byte.
     Option.bind (side_from_byte side_byte) (\<lambda>side.
     Option.bind (unwrap (get_field_i64 v ORDER_QTY)) (\<lambda>qty.
     Option.bind (unwrap (get_field_str v PRICE)) (\<lambda>px.
       Some \<lparr>os_consumed = consumed, os_msg_type = mt, os_sender = sender, os_target = target, os_cl_ord_id = cl,
         os_symbol = symb, os_side = side, os_qty = qty, os_price = px, os_checksum_valid = mv_checksum_valid v,
         os_field_count = Message.field_count v\<rparr>)))))))))))"

definition demo_report :: "(bytes \<times> nat) run" where
  "demo_report =
     build_execution_report (replicate 2048 0) (asc ''FIX.4.4'') (asc ''NYSE'') (asc ''BANK_OMS'') 100
       (asc ''20260321-10:00:00.456'') (asc ''NYSE-ORD-001'') (asc ''NYSE-EXEC-001'') (asc ''ORD-2026032100001'')
       (asc ''AAPL'') (of_char CHR ''1'') 10000 5000 (asc ''178.55'') 5000 5000 (asc ''178.55'') (of_char CHR ''F'')
       (of_char CHR ''1'')"

definition show_report :: "bytes \<Rightarrow> (bytes \<times> i64 \<times> i64 \<times> i64) run" where
  "show_report text =
     Option.bind (unwrap_ok (parse new_parser text)) (\<lambda>(v, _).
     Option.bind (unwrap (get_field_str v EXEC_TYPE)) (\<lambda>exec_type.
     Option.bind (unwrap (get_field_i64 v LAST_QTY)) (\<lambda>last_qty.
     Option.bind (unwrap (get_field_i64 v CUM_QTY)) (\<lambda>cum_qty.
     Option.bind (unwrap (get_field_i64 v LEAVES_QTY)) (\<lambda>leaves_qty.
       Some (exec_type, last_qty, cum_qty, leaves_qty))))))"

definition demo_parse_serialize :: "(OrderShown \<times> (bytes \<times> i64 \<times> i64 \<times> i64)) run" where
  "demo_parse_serialize =
     Option.bind demo_order (\<lambda>(buf, len).
     Option.bind (show_order (take len buf)) (\<lambda>order.
     Option.bind demo_report (\<lambda>(buf, len).
     map_option (Pair order) (show_report (take len buf)))))"

section \<open>2. Session life cycle\<close>

definition demo_session_config :: SessionConfig where
  "demo_session_config =
     \<lparr>sc_session_id = asc ''DEMO-NYSE-1'', sc_fix_version = asc ''FIX.4.4'', sc_sender_comp_id = asc ''BANK_OMS'',
      sc_target_comp_id = asc ''NYSE'', sc_role = Initiator, sc_heartbeat_interval = secs 30,
      sc_reconnect_interval = secs 1, sc_max_reconnect_attempts = 3, sc_sequence_reset_policy = Daily,
      sc_validate_comp_ids = True, sc_max_msg_rate = 50000\<rparr>"

fun validate_each :: "(nat \<Rightarrow> nat) \<Rightarrow> nat list \<Rightarrow> Session \<Rightarrow> Session run" where
  "validate_each clock [] s = Some s"
| "validate_each clock (i # is) s =
     (case validate_inbound_seq (clock (3 + i)) (of_nat i) s of (Inl _, _) \<Rightarrow> None | (Inr _, s) \<Rightarrow> validate_each clock is s)"

record LifeCycleShown =
  lc_states :: "SessionState list"
  lc_outbound :: u64
  lc_expected :: u64
  lc_gap :: "u64 \<times> u64"
  lc_final :: "u64 \<times> u64"

definition demo_session_lifecycle :: "(nat \<Rightarrow> nat) \<Rightarrow> LifeCycleShown run" where
  "demo_session_lifecycle clock =
     (let s0 = new_session (clock 0) demo_session_config; s1 = on_connected (clock 1) (clock 2) s0; s2 = on_logon (clock 3) s1;
          s3 = ((snd \<circ> next_outbound_seq_num) ^^ 100) s2 in
      Option.bind (validate_each clock [1..<51] s3) (\<lambda>s4.
        case validate_inbound_seq (clock 58) 55 s4 of
          (Inr _, _) \<Rightarrow> None
        | (Inl gap, s5) \<Rightarrow>
            (let s6 = on_gap_filled 55 s5; s7 = on_logout_sent s6; s8 = on_disconnected s7 in
             Some \<lparr>lc_states = map ss_state [s0, s1, s2, s5, s6, s7, s8], lc_outbound = ss_outbound_seq_num s3,
               lc_expected = ss_inbound_seq_num s4, lc_gap = gap,
               lc_final = (ss_outbound_seq_num s8, ss_inbound_seq_num s8)\<rparr>)))"

section \<open>4. Scanning\<close>

definition simd_sample :: bytes where
  "simd_sample =
     asc ''8=FIX.4.4'' @ [1] @ asc ''9=70'' @ [1] @ asc ''35=D'' @ [1] @ asc ''49=BANK'' @ [1] @ asc ''56=NYSE'' @ [1] @
     asc ''34=1'' @ [1] @ asc ''55=AAPL'' @ [1] @ asc ''10=000'' @ [1]"

text \<open>The measured loop adds the counts up; the sum would panic past the end of a \<open>usize\<close>.\<close>

fun scan_loop :: "nat \<Rightarrow> Target \<Rightarrow> nat \<Rightarrow> nat run" where
  "scan_loop 0 t acc = Some acc"
| "scan_loop (Suc n) t acc =
     (let acc = acc + count_fields t simd_sample in if acc < 2 ^ 64 then scan_loop n t acc else None)"

definition demo_simd_scanning :: "Target \<Rightarrow> (nat option \<times> nat \<times> nat option) run" where
  "demo_simd_scanning t =
     map_option (\<lambda>_. (find_soh t simd_sample, count_fields t simd_sample, find_equals t simd_sample))
       (scan_loop 10000000 t 0)"

section \<open>5. Buffer pool\<close>

fun pool_cycles :: "nat \<Rightarrow> BufferPool \<Rightarrow> BufferPool run" where
  "pool_cycles 0 p = Some p"
| "pool_cycles (Suc n) p =
     Option.bind (allocate p) (\<lambda>(h, p). Option.bind h (\<lambda>h. Option.bind (deallocate h p) (pool_cycles n)))"

definition demo_memory_pool :: "bytes run" where
  "demo_memory_pool =
     (let msg = asc ''Hello from Velocitas!'' in
      Option.bind (allocate (new_pool 256 1024)) (\<lambda>(h, p).
      Option.bind h (\<lambda>h.
      Option.bind (put_slot p h msg) (\<lambda>p.
      Option.bind (get_slot p h) (\<lambda>slot.
      Option.bind (slice slot 0 (length msg)) (\<lambda>text.
      Option.bind (from_utf8 text) (\<lambda>read_back.
      Option.bind (deallocate h p) (\<lambda>_.
      map_option (\<lambda>_. read_back) (pool_cycles 10000000 (new_pool 256 16))))))))))"

section \<open>6. Journal\<close>

definition demo_heartbeat :: "u64 \<Rightarrow> bytes run" where
  "demo_heartbeat seq =
     map_option (\<lambda>(buf, len). take len buf)
       (build_heartbeat (replicate 256 0) (asc ''FIX.4.4'') (asc ''B'') (asc ''N'') seq (asc ''20260321-10:00:00''))"

text \<open>
  \<open>opened\<close>, \<open>resized\<close>, \<open>mapped\<close>: what opening the file (with its contents, if it could not be removed),
  \<open>set_len\<close> and the memory map return; \<open>fl\<close>: what a flush returns.
\<close>

fun append_heartbeats :: "'e + unit \<Rightarrow> u64 list \<Rightarrow> Journal \<Rightarrow> Journal run" where
  "append_heartbeats fl [] j = Some j"
| "append_heartbeats fl (q # qs) j =
     Option.bind (demo_heartbeat q) (\<lambda>m.
     Option.bind (append_entry fl (session_hash (asc ''BANK_OMS'') (asc ''NYSE'')) q m j) (\<lambda>(r, j).
     Option.bind (unwrap_ok r) (\<lambda>_. append_heartbeats fl qs j)))"

definition demo_journal ::
  "'e + unit \<Rightarrow> 'e + bytes \<Rightarrow> 'e + unit \<Rightarrow> 'e + unit \<Rightarrow> (u64 \<times> u64 \<times> MsgType) run" where
  "demo_journal fl opened resized mapped =
     Option.bind (unwrap_ok (open_journal opened resized mapped (1024 * 1024) NoSync)) (\<lambda>j.
     Option.bind (append_heartbeats fl (map of_nat [1..<10001]) j) (\<lambda>j.
     Option.bind (unwrap (read_entry j 0)) (\<lambda>(hdr, body).
     Option.bind (unwrap_ok (parse new_parser body)) (\<lambda>(v, _).
     Option.bind (unwrap (msg_type_enum v)) (\<lambda>mt. Some (jn_entry_count j, jh_seq_num hdr, mt))))))"

section \<open>7. FIXT session\<close>

definition demo_fixt_config :: FixtSessionConfig where
  "demo_fixt_config =
     \<lparr>fc_base = default_config\<lparr>sc_session_id := asc ''FIXT-DEMO-1'', sc_fix_version := asc ''FIXT.1.1'',
        sc_sender_comp_id := asc ''BANK'', sc_target_comp_id := asc ''VENUE'', sc_role := Initiator\<rparr>,
      fc_default_appl_ver_id = Fix50SP2, fc_supported_versions = [Fix42, Fix44, Fix50SP2]\<rparr>"

fun show_versions :: "ApplVerID list \<Rightarrow> (bytes \<times> bytes) list run" where
  "show_versions [] = Some []"
| "show_versions (v # vs) =
     Option.bind (from_utf8 (appl_ver_as_bytes v)) (\<lambda>b.
     map_option ((#) (b, as_fix_version_str v)) (show_versions vs))"

definition demo_fixt_session :: "nat \<Rightarrow> (SessionState list \<times> ApplVerID \<times> (bytes \<times> bytes) list) run" where
  "demo_fixt_session now =
     (let s0 = new_fixt_session now demo_fixt_config; s1 = fixt_step s0 (Connected now now); s2 = fixt_step s1 (LoggedOn now) in
      map_option (\<lambda>vs. (map (ss_state \<circ> fx_base) [s1, s2],
          case fx_negotiated_version s2 of None \<Rightarrow> Fix50SP2 | Some v \<Rightarrow> v, vs))
        (show_versions [Fix42, Fix44, Fix50SP2]))"

section \<open>8. Dictionary compiler\<close>

fun show_fields :: "CompiledDictionary \<Rightarrow> u32 list \<Rightarrow> (bytes \<times> bytes) list run" where
  "show_fields d [] = Some []"
| "show_fields d (t # ts) =
     Option.bind (unwrap (lookup_field d t)) (\<lambda>f. map_option ((#) (cf_name f, cf_field_type f)) (show_fields d ts))"

record DictionaryShown =
  ds_version :: bytes
  ds_fields :: nat
  ds_messages :: nat
  ds_lookups :: "(bytes \<times> bytes) list"
  ds_sides :: "(bytes \<times> bytes) list"
  ds_name :: bytes
  ds_category :: MessageCategory
  ds_required :: "u32 list"
  ds_clean :: nat
  ds_missing :: "bytes list"

definition demo_dictionary_compiler :: "(nat \<Rightarrow> bool) \<Rightarrow> DictionaryShown run" where
  "demo_dictionary_compiler memory =
     Option.bind (Option.bind (from_xml memory TEST_DICTIONARY_XML) unwrap_ok) (\<lambda>d.
     Option.bind (show_fields d [8, 35, 49, 54, 55]) (\<lambda>lookups.
     Option.bind (unwrap (lookup_field d 54)) (\<lambda>side.
     Option.bind (lookup_message d (asc ''D'')) (\<lambda>m.
     Option.bind (validate_message d (asc ''D'') [11, 55, 54, 38, 40]) (\<lambda>clean.
     Option.bind (validate_message d (asc ''D'') [11, 38, 40]) (\<lambda>missing.
       Some \<lparr>ds_version = cd_fix_version d, ds_fields = Dictionary.field_count d, ds_messages = message_count d,
         ds_lookups = lookups, ds_sides = cf_values side, ds_name = cm_name m, ds_category = cm_category m,
         ds_required = cm_required_fields m, ds_clean = length clean, ds_missing = missing\<rparr>))))))"

section \<open>10. Metrics\<close>

definition demo_metrics :: "('h, 'f) HistOps \<Rightarrow> (u64 \<times> u64 \<times> i64 \<times> u64 \<times> u64 \<times> bytes) run" where
  "demo_metrics H =
     Option.bind (new_metrics H) (\<lambda>m.
       let m = m\<lparr>em_messages_parsed := counter_inc_by 1234567 (em_messages_parsed m),
                 em_messages_sent := counter_inc_by 987654 (em_messages_sent m),
                 em_messages_rejected := counter_inc_by 42 (em_messages_rejected m),
                 em_active_sessions := gauge_set 12 (em_active_sessions m)\<rparr> in
     map_option (\<lambda>l. let m = m\<lparr>em_parse_latency_ns := l\<rparr> in
         (counter_get (em_messages_parsed m), counter_get (em_messages_sent m), gauge_get (em_active_sessions m),
          histogram_percentile H P50 l, histogram_percentile H P99 l, render_prometheus H m))
       (record_all H [180, 220, 250, 280, 300, 350, 400, 500, 800, 1200] (em_parse_latency_ns m)))"

section \<open>11. Cluster\<close>

definition replicated_session :: "bytes \<Rightarrow> bytes \<Rightarrow> u64 \<Rightarrow> u64 \<Rightarrow> ReplicatedSessionState" where
  "replicated_session i target out inn =
     \<lparr>rs_session_id = i, rs_sender_comp_id = asc ''BANK'', rs_target_comp_id = target, rs_outbound_seq_num = out,
      rs_inbound_seq_num = inn, rs_state = 3, rs_last_updated_ms = 1711008000000\<rparr>"

definition demo_cluster_nodes :: "ClusterNode list" where
  "demo_cluster_nodes =
     (let n0 = node_new (three_node 1
            [\<lparr>ni_id = 2, ni_address = asc ''10.0.1.2'', ni_port = 9002\<rparr>,
             \<lparr>ni_id = 3, ni_address = asc ''10.0.1.3'', ni_port = 9003\<rparr>]);
          n1 = begin_election n0; n2 = receive_vote 2 (cn_current_term n1) True n1;
          n3 = replicate_session_state (replicated_session (asc ''NYSE-1'') (asc ''NYSE'') 42 38) n2;
          n4 = replicate_session_state (replicated_session (asc ''LSE-1'') (asc ''LSE'') 100 95) n3 in
      [n0, n1, n2, n4, node_start (node_new (single_node 99))])"

definition demo_cluster_ha :: "NodeRole list \<times> bool list \<times> nat" where
  "demo_cluster_ha =
     (map cn_role demo_cluster_nodes, map is_leader demo_cluster_nodes, length (cn_log (demo_cluster_nodes ! 3)))"

section \<open>12. Acceptor\<close>

record AcceptorShown =
  as_ids :: "u64 list"
  as_active :: nat
  as_refusal :: AcceptorError
  as_role :: SessionRole
  as_target :: bytes
  as_stats :: AcceptorStats

definition demo_acceptor_config :: AcceptorConfig where
  "demo_acceptor_config =
     default_acceptor_config\<lparr>ac_bind_address := asc ''0.0.0.0'', ac_port := 9878, ac_connection_pool_size := 64,
       ac_max_connections := 256, ac_allowed_comp_ids := [asc ''CITADEL'', asc ''JPMORGAN'', asc ''GOLDMAN'']\<rparr>"

definition accept_or_panic :: "nat \<Rightarrow> bytes \<Rightarrow> bytes \<Rightarrow> u64 \<Rightarrow> Acceptor \<Rightarrow> (u64 \<times> Acceptor) run" where
  "accept_or_panic now addr comp_id ms a =
     (let (r, a) = accept_connection now addr comp_id ms a in map_option (\<lambda>i. (i, a)) (unwrap_ok r))"

definition demo_acceptor :: "nat \<Rightarrow> AcceptorShown run" where
  "demo_acceptor now =
     (let a = new_acceptor_pool demo_acceptor_config in
      Option.bind (accept_or_panic now (asc ''10.0.1.100'') (asc ''CITADEL'') 1000 a) (\<lambda>(c1, a).
      Option.bind (accept_or_panic now (asc ''10.0.1.101'') (asc ''JPMORGAN'') 1001 a) (\<lambda>(c2, a).
      Option.bind (accept_or_panic now (asc ''10.0.1.102'') (asc ''GOLDMAN'') 1002 a) (\<lambda>(c3, a).
        let active = active_count a in
        case accept_connection now (asc ''10.0.1.200'') (asc ''UNKNOWN_FIRM'') 1003 a of
          (Inr _, _) \<Rightarrow> None
        | (Inl refusal, a) \<Rightarrow>
            Option.bind (get_session a c1) (\<lambda>s.
            let (r, a) = release_connection c2 a in
            map_option (\<lambda>_. \<lparr>as_ids = [c1, c2, c3], as_active = active, as_refusal = refusal,
                as_role = sc_role (ss_config s), as_target = sc_target_comp_id (ss_config s), as_stats = stats a\<rparr>)
              (unwrap_ok r))))))"

section \<open>14. Dashboard\<close>

definition demo_dashboard_state :: "u64 \<Rightarrow> Dashboard" where
  "demo_dashboard_state start_ms =
     (let d = new_dashboard start_ms default_dashboard_config;
          d = update_session
        \<lparr>st_session_id = asc ''NYSE-1'', st_sender_comp_id = asc ''BANK_OMS'', st_target_comp_id = asc ''NYSE'',
         st_state = asc ''Active'', st_outbound_seq = 42567, st_inbound_seq = 41234, st_messages_sent = 1234567,
         st_messages_received = 987654, st_last_activity_ms = 1711008000000, st_uptime_secs = 28800\<rparr> d;
          d = update_session
        \<lparr>st_session_id = asc ''LSE-1'', st_sender_comp_id = asc ''BANK_OMS'', st_target_comp_id = asc ''LSE'',
         st_state = asc ''Active'', st_outbound_seq = 18900, st_inbound_seq = 17800, st_messages_sent = 567890,
         st_messages_received = 456789, st_last_activity_ms = 1711008000000, st_uptime_secs = 28800\<rparr> d in
      update_health
        \<lparr>hs_healthy = True, hs_version = asc ''0.1.0'', hs_uptime_secs = 28800, hs_active_sessions = 2,
         hs_messages_processed = 1802457, hs_engine_state = asc ''running''\<rparr> d)"

text \<open>\<open>contains\<close> of a string is \<^const>\<open>sublist\<close>.\<close>

definition demo_dashboard :: "u64 \<Rightarrow> nat \<times> u16 list \<times> bytes list \<times> bool \<times> bool" where
  "demo_dashboard start_ms =
     (let d = demo_dashboard_state start_ms;
          rs = map (\<lambda>p. handle_request d (asc ''GET'') (asc p)) [''/health'', ''/sessions'', ''/'', ''/unknown''] in
      (session_count d, map hr_status_code rs, map hr_content_type rs,
       sublist (asc ''<table'') (hr_body (rs ! 2)), sublist (asc ''refresh'') (hr_body (rs ! 2))))"

section \<open>What the scenarios show\<close>

lemma validate_each_run:
  "ss_inbound_seq_num s = of_nat k \<Longrightarrow>
   \<exists>t. validate_each clock [k..<k + n] s = Some (s\<lparr>ss_inbound_seq_num := of_nat (k + n), ss_last_received_time := t\<rparr>)"
proof (induction n arbitrary: k s)
  case 0
  have "s = s\<lparr>ss_inbound_seq_num := of_nat k, ss_last_received_time := ss_last_received_time s\<rparr>" using 0 by simp
  then show ?case by (intro exI [of _ "ss_last_received_time s"]) simp
next
  case (Suc n)
  let ?s = "s\<lparr>ss_inbound_seq_num := of_nat (Suc k), ss_last_received_time := clock (3 + k)\<rparr>"
  have "validate_inbound_seq (clock (3 + k)) (of_nat k) s = (Inr (), ?s)"
    using Suc.prems by (simp add: validate_inbound_seq_def ac_simps)
  moreover obtain t where "validate_each clock [Suc k..<Suc k + n] ?s =
      Some (?s\<lparr>ss_inbound_seq_num := of_nat (Suc k + n), ss_last_received_time := t\<rparr>)"
    using Suc.IH [of ?s "Suc k"] by auto
  ultimately show ?case by (auto simp: upt_conv_Cons simp del: upt_Suc)
qed

lemma take_numbers:
  "((snd \<circ> next_outbound_seq_num) ^^ n) s = s\<lparr>ss_outbound_seq_num := ss_outbound_seq_num s + of_nat n\<rparr>"
  by (induction n) (simp_all add: next_outbound_seq_num_def ac_simps)

lemma demo_session_lifecycle_shows:
  "demo_session_lifecycle clock =
     Some \<lparr>lc_states = [Disconnected, LogonSent, Active, Resending, Active, LogoutSent, Disconnected],
       lc_outbound = 101, lc_expected = 51, lc_gap = (51, 55), lc_final = (101, 55)\<rparr>"
proof -
  let ?s = "((snd \<circ> next_outbound_seq_num) ^^ 100)
    (on_logon (clock 3) (on_connected (clock 1) (clock 2) (new_session (clock 0) demo_session_config)))"
  have sx: "?s = (on_logon (clock 3) (on_connected (clock 1) (clock 2) (new_session (clock 0) demo_session_config)))
      \<lparr>ss_outbound_seq_num := 101\<rparr>"
    by (subst take_numbers) (simp add: on_logon_def on_connected_def new_session_def demo_session_config_def)
  have s: "ss_inbound_seq_num ?s = of_nat 1" "ss_outbound_seq_num ?s = 101" "ss_state ?s = Active"
    unfolding sx by (simp_all add: on_logon_def on_connected_def new_session_def demo_session_config_def)
  obtain t where v: "validate_each clock [1..<51] ?s =
      Some (?s\<lparr>ss_inbound_seq_num := 51, ss_last_received_time := t\<rparr>)"
    using validate_each_run [OF s(1), of clock 50] by auto
  have "demo_session_lifecycle clock = (let s0 = new_session (clock 0) demo_session_config;
      s1 = on_connected (clock 1) (clock 2) s0; s2 = on_logon (clock 3) s1 in
      Some \<lparr>lc_states = map ss_state [s0, s1, s2] @ [Resending, Active, LogoutSent, Disconnected],
       lc_outbound = 101, lc_expected = 51, lc_gap = (51, 55), lc_final = (101, 55)\<rparr>)"
    unfolding demo_session_lifecycle_def Let_def v
    by (simp add: s validate_inbound_seq_def on_gap_filled_def on_logout_sent_def on_disconnected_def
        del: comp_apply One_nat_def)
  then show ?thesis
    by (simp add: Let_def on_logon_def on_connected_def new_session_def demo_session_config_def)
qed

lemma scan_loop_run: "acc + n * count_fields t simd_sample < 2 ^ 64 \<Longrightarrow>
  scan_loop n t acc = Some (acc + n * count_fields t simd_sample)"
  by (induction n arbitrary: acc) (simp_all add: Let_def)

lemma demo_simd_scanning_shows: "demo_simd_scanning t = Some (Some 9, 8, Some 1)"
proof -
  have s: "find_soh t simd_sample = Some 9" "count_fields t simd_sample = 8" "find_equals t simd_sample = Some 1"
    by (simp_all add: find_soh_def count_fields_def find_equals_def scans simd_sample_def asc_def SOH_def EQUALS_def)
  then show ?thesis using scan_loop_run [of 0 10000000 t] by (simp add: demo_simd_scanning_def)
qed

lemma pool_cycles_run:
  "allocate p = Some (Some h, p') \<Longrightarrow> deallocate h p' = Some p \<Longrightarrow> pool_cycles n p = Some p"
  by (induction n) simp_all

lemma demo_memory_pool_shows: "demo_memory_pool = Some (asc ''Hello from Velocitas!'')"
proof -
  let ?p = "new_pool 256 1024" and ?b = "new_pool 256 16" and ?m = "asc ''Hello from Velocitas!''"
  have fl: "bp_free_list ?p ! 0 = 1" "length (bp_free_list ?p) = 1024" "bp_free_list ?b ! 0 = 1" "length (bp_free_list ?b) = 16"
    by (simp_all add: new_pool_def nth_append)
  have a: "allocate ?p = Some (Some 0, ?p\<lparr>bp_free_head := 1\<rparr>)" "allocate ?b = Some (Some 0, ?b\<lparr>bp_free_head := 1\<rparr>)"
    using fl by (simp_all add: allocate_def get_at_def new_pool_def END_OF_LIST_def)
  have "set_at (bp_free_list ?b) 0 1 = Some (bp_free_list ?b)" using fl by (simp add: set_at_def list_update_same_conv)
  moreover have "?b\<lparr>bp_free_head := 0\<rparr> = ?b" by (simp add: new_pool_def)
  ultimately have d: "deallocate 0 (?b\<lparr>bp_free_head := 1\<rparr>) = Some ?b" by (simp add: deallocate_def)
  have "pool_cycles 10000000 ?b = Some ?b" by (rule pool_cycles_run [OF a(2) d])
  moreover define p where "p = ?p\<lparr>bp_free_head := 1\<rparr>"
  have p: "length (bp_storage p) = 262144" "bp_slot_size p = 256" "length (bp_free_list p) = 1024"
    using fl by (simp_all add: p_def) (simp_all add: new_pool_def)
  have m: "length ?m = 21" "from_utf8 ?m = Some ?m" by (simp_all add: asc_def from_utf8_def utf8_valid_ascii)
  define q where "q = p\<lparr>bp_storage := ?m @ drop 21 (bp_storage p)\<rparr>"
  have "put_slot p 0 ?m = Some q" using p m by (simp add: put_slot_def copy_at_def q_def)
  moreover have "get_slot q 0 = Some (take 256 (bp_storage q))" using p m by (simp add: get_slot_def slice_def q_def)
  moreover have "slice (take 256 (bp_storage q)) 0 21 = Some ?m" using p m by (simp add: slice_def q_def)
  moreover have "deallocate 0 q \<noteq> None" using p by (simp add: deallocate_def set_at_def q_def)
  ultimately show ?thesis by (auto simp: demo_memory_pool_def Let_def a(1) m simp flip: p_def)
qed

lemma demo_fixt_session_shows:
  "demo_fixt_session now =
     Some ([LogonSent, Active], Fix50SP2,
       [(asc ''4'', asc ''FIX.4.2''), (asc ''6'', asc ''FIX.4.4''), (asc ''9'', asc ''FIX.5.0SP2'')])"
  by (simp add: demo_fixt_session_def Let_def new_fixt_session_def demo_fixt_config_def default_config_def on_connected_def
      on_logon_def new_session_def from_utf8_def) (simp add: asc_def utf8_valid_ascii)

lemma demo_dictionary_compiler_shows:
  assumes "memory 113"
  shows "demo_dictionary_compiler memory =
     Some \<lparr>ds_version = asc ''FIX.4.4'', ds_fields = 15, ds_messages = 3,
       ds_lookups = [(asc ''BeginString'', asc ''STRING''), (asc ''MsgType'', asc ''STRING''),
         (asc ''SenderCompID'', asc ''STRING''), (asc ''Side'', asc ''CHAR''), (asc ''Symbol'', asc ''STRING'')],
       ds_sides = [(asc ''1'', asc ''BUY''), (asc ''2'', asc ''SELL'')], ds_name = asc ''NewOrderSingle'',
       ds_category = Application, ds_required = [11, 55, 54, 38, 40], ds_clean = 0,
       ds_missing = [asc ''missing required field: Symbol (tag 55)'', asc ''missing required field: Side (tag 54)'']\<rparr>"
proof -
  obtain d where d: "from_xml memory TEST_DICTIONARY_XML = Some (Inr d)" "cd_fix_version d = asc ''FIX.4.4''"
    "cd_fields d = test_fields" "cd_messages d = test_messages"
    using test_compiles [of memory, OF assms] by (auto simp: asc_def)
  have look: "lookup_field d t = Some (find (\<lambda>f. cf_tag f = t) (rev test_fields))" for t
    using lookup_field_last [OF from_xml_index [OF d(1)]] d(3) by simp
  have m: "lookup_message d (asc ''D'') = Some (test_messages ! 2)"
    by (simp add: lookup_message_def d test_messages_def asc_def)
  have f: "show_fields d [8, 35, 49, 54, 55] = Some [(asc ''BeginString'', asc ''STRING''), (asc ''MsgType'', asc ''STRING''),
         (asc ''SenderCompID'', asc ''STRING''), (asc ''Side'', asc ''CHAR''), (asc ''Symbol'', asc ''STRING'')]"
    by (simp add: look test_fields_def)
  have side: "lookup_field d 54 = Some (Some \<lparr>cf_tag = 54, cf_name = asc ''Side'', cf_field_type = asc ''CHAR'',
      cf_values = [(asc ''1'', asc ''BUY''), (asc ''2'', asc ''SELL'')]\<rparr>)"
    by (simp add: look test_fields_def)
  have "validate_message d (asc ''D'') [11, 55, 54, 38, 40] = Some []"
    by (simp add: validate_message_def m test_messages_def)
  moreover have "validate_message d (asc ''D'') [11, 38, 40] =
      Some [asc ''missing required field: Symbol (tag 55)'', asc ''missing required field: Side (tag 54)'']"
    by (simp add: validate_message_def m test_messages_def missing_text_def look test_fields_def)
      (simp add: asc_def dec_step dec_small digit_def)
  ultimately show ?thesis
    unfolding demo_dictionary_compiler_def d(1) Option.bind.simps unwrap_simps f side m
    by (simp add: d Dictionary.field_count_def message_count_def test_fields_def
        test_messages_def)
qed

lemma demo_cluster_ha_shows:
  "demo_cluster_ha = ([Follower, Candidate, Leader, Leader, Leader], [False, False, True, True, True], 2)"
  by (simp add: demo_cluster_ha_def demo_cluster_nodes_def Let_def node_new_def three_node_def single_node_def
      cluster_default_def begin_election_def receive_vote_def become_leader_def replicate_session_state_def
      node_start_def is_leader_def)

lemma page_texts:
  assumes "da_sessions d \<noteq> []"
  shows "sublist (asc ''<table'') (render_html_dashboard d) \<and> sublist (asc ''refresh'') (render_html_dashboard d)"
proof
  obtain a where "render_html_dashboard d = a @ html_sessions (da_sessions d) @ asc ''</body></html>''"
    unfolding render_html_dashboard_def Let_def append_assoc [symmetric] by blast
  moreover obtain b where "html_sessions (da_sessions d) = asc ''<table'' @ b"
    using assms by (simp add: html_sessions_def asc_def)
  ultimately show "sublist (asc ''<table'') (render_html_dashboard d)" by simp
next
  let ?m = "text_lines [''<!DOCTYPE html>'', ''<html>'', ''<head>'', ''<meta charset=\"utf-8\">'',
      ''<meta http-equiv=\"refresh\" content=\"'']"
  have "sublist (asc ''refresh'') ?m" by (simp add: text_lines_def line_def asc_def sublist_code)
  then obtain a b where "?m = a @ asc ''refresh'' @ b" by (auto simp: sublist_def)
  moreover obtain c where "render_html_dashboard d = ?m @ c"
    by (simp add: render_html_dashboard_def html_head_def Let_def)
  ultimately show "sublist (asc ''refresh'') (render_html_dashboard d)" by simp
qed

lemma demo_dashboard_shows:
  "demo_dashboard start_ms =
     (2, [200, 200, 200, 404],
      [asc ''application/json'', asc ''application/json'', asc ''text/html; charset=utf-8'', asc ''text/plain''], True, True)"
proof -
  have n: "session_count (demo_dashboard_state start_ms) = 2"
    by (simp add: demo_dashboard_state_def session_count_def update_session_def new_dashboard_def update_health_def
        Let_def asc_def)
  have c: "da_config (demo_dashboard_state start_ms) = default_dashboard_config"
    by (simp add: demo_dashboard_state_def update_session_def new_dashboard_def update_health_def Let_def split: option.split)
  have "asc ''/sessions'' \<noteq> asc ''/health''" "asc ''/sessions'' \<noteq> asc ''/metrics''"
    "asc ''/'' \<notin> {asc ''/health'', asc ''/metrics'', asc ''/sessions''}"
    "asc ''/unknown'' \<notin> {asc ''/health'', asc ''/metrics'', asc ''/sessions'', asc ''/'', asc ''/api/latency''}"
    by (simp_all add: asc_def)
  moreover have "da_sessions (demo_dashboard_state start_ms) \<noteq> []" using n by (auto simp: session_count_def)
  ultimately show ?thesis
    using page_texts by (simp add: demo_dashboard_def Let_def n handle_request_def c default_dashboard_config_def
        resp_json_def resp_html_def not_found_def)
qed

lemma demo_metrics_runs:
  assumes "hist_law H ok" "hi_new_with_bounds H 1 MAX_LATENCY_NS 3 = Some h" "ok h"
  shows "\<exists>p50 p99 text. demo_metrics H = Some (1234567, 987654, 12, p50, p99, text)"
proof -
  let ?l = "\<lparr>lh_name = asc ''velocitas_parse_latency_ns'', lh_help = asc ''Parse latency in nanoseconds'', lh_histogram = h\<rparr>"
  obtain l' where "record_all H [180, 220, 250, 280, 300, 350, 400, 500, 800, 1200] ?l = Some l'"
    using latencies_recorded [OF assms(1), of ?l "[180, 220, 250, 280, 300, 350, 400, 500, 800, 1200]"] assms(3)
    by (auto simp del: record_all.simps)
  then show ?thesis
    by (simp add: demo_metrics_def new_metrics_def new_histogram_def assms(2) Let_def counter_inc_by_def counter_get_def
        new_counter_def gauge_set_def gauge_get_def del: record_all.simps)
qed

lemma demo_acceptor_shows:
  "demo_acceptor now =
     Some \<lparr>as_ids = [64, 65, 66], as_active = 3, as_refusal = CompIdNotAllowed (asc ''UNKNOWN_FIRM''),
       as_role = Session.Acceptor, as_target = asc ''CITADEL'',
       as_stats = \<lparr>as_active_connections = 2, as_pool_available = 62, as_total_accepted = 3, as_total_rejected = 1,
         as_total_bytes_received = 0, as_total_bytes_sent = 0\<rparr>\<rparr>"
proof -
  define R where "R = map (\<lambda>i. empty_slot (of_nat i)) [3..<64]"
  have "[0..<64] = [0, 1, 2] @ [3..<64]" by (simp add: upt_conv_Cons numeral_3_eq_3 numeral_2_eq_2)
  then have start: "new_acceptor_pool demo_acceptor_config =
      \<lparr>aa_config = demo_acceptor_config, aa_connections = [empty_slot 0, empty_slot 1, empty_slot 2] @ R,
       aa_next_conn_id = 64, aa_total_accepted = 0, aa_total_rejected = 0\<rparr>"
    by (simp add: new_acceptor_pool_def demo_acceptor_config_def R_def default_acceptor_config_def)
  have R: "find (\<lambda>c. is_active c \<and> pc_remote_comp_id c = k) R = None" "filter is_active R = []"
    "filter (\<lambda>c. pc_state c = Available) R = R" "length R = 61" "sum_list (map pc_bytes_received R) = 0"
    "sum_list (map pc_bytes_sent R) = 0" for k
    by (auto simp: R_def find_None_iff filter_empty_conv filter_id_conv is_active_def empty_slot_def o_def sum_list_0)
  have names: "asc ''JPMORGAN'' \<noteq> asc ''CITADEL''" "asc ''GOLDMAN'' \<noteq> asc ''CITADEL''" "asc ''GOLDMAN'' \<noteq> asc ''JPMORGAN''"
    "asc ''CITADEL'' \<noteq> asc ''JPMORGAN''" "asc ''CITADEL'' \<noteq> asc ''GOLDMAN''" "asc ''JPMORGAN'' \<noteq> asc ''GOLDMAN''"
    "asc ''UNKNOWN_FIRM'' \<notin> {asc ''CITADEL'', asc ''JPMORGAN'', asc ''GOLDMAN''}" by (simp_all add: asc_def)
  define S where "S i k addr ms =
      \<lparr>pc_id = i, pc_state = InUse, pc_session = Some (new_session now (session_config_for demo_acceptor_config i k)),
       pc_remote_comp_id = k, pc_remote_address = addr, pc_connected_at_ms = ms, pc_last_active_ms = ms,
       pc_bytes_received = 0, pc_bytes_sent = 0\<rparr>" for i k addr ms
  define A where "A cs n acc rej =
      \<lparr>aa_config = demo_acceptor_config, aa_connections = cs @ R, aa_next_conn_id = n, aa_total_accepted = acc,
       aa_total_rejected = rej\<rparr>" for cs n acc rej
  let ?c1 = "S 64 (asc ''CITADEL'') (asc ''10.0.1.100'') 1000" and ?c2 = "S 65 (asc ''JPMORGAN'') (asc ''10.0.1.101'') 1001"
    and ?c3 = "S 66 (asc ''GOLDMAN'') (asc ''10.0.1.102'') 1002"
  have S: "pc_state (S i k addr ms) = InUse" "pc_remote_comp_id (S i k addr ms) = k" "pc_id (S i k addr ms) = i"
    "pc_session (S i k addr ms) = Some (new_session now (session_config_for demo_acceptor_config i k))"
    "pc_bytes_received (S i k addr ms) = 0" "pc_bytes_sent (S i k addr ms) = 0"
    "is_active (S i k addr ms)" for i k addr ms by (simp_all add: S_def is_active_def)
  have E: "pc_state (empty_slot i) = Available" "\<not> is_active (empty_slot i)"
    "(empty_slot i)\<lparr>pc_id := j, pc_state := InUse, pc_session := Some (new_session now (session_config_for demo_acceptor_config j k)),
      pc_remote_comp_id := k, pc_remote_address := addr, pc_connected_at_ms := ms, pc_last_active_ms := ms,
      pc_bytes_received := 0, pc_bytes_sent := 0\<rparr> = S j k addr ms" for i j k addr ms
    by (simp_all add: empty_slot_def is_active_def S_def)
  have cfg: "\<not> ac_require_auth demo_acceptor_config"
    "ac_allowed_comp_ids demo_acceptor_config = [asc ''CITADEL'', asc ''JPMORGAN'', asc ''GOLDMAN'']"
    by (simp_all add: demo_acceptor_config_def default_acceptor_config_def)
  note step = accept_connection_def A_def cfg is_comp_id_allowed_def find_by_comp_id_def R S E names reject_def Let_def
  have a0: "new_acceptor_pool demo_acceptor_config = A [empty_slot 0, empty_slot 1, empty_slot 2] 64 0 0"
    using start by (simp add: A_def)
  have a1: "accept_connection now (asc ''10.0.1.100'') (asc ''CITADEL'') 1000 (A [empty_slot 0, empty_slot 1, empty_slot 2] 64 0 0) =
      (Inr 64, A [?c1, empty_slot 1, empty_slot 2] 65 1 0)" by (simp add: step)
  have a2: "accept_connection now (asc ''10.0.1.101'') (asc ''JPMORGAN'') 1001 (A [?c1, empty_slot 1, empty_slot 2] 65 1 0) =
      (Inr 65, A [?c1, ?c2, empty_slot 2] 66 2 0)" by (simp add: step)
  have a3: "accept_connection now (asc ''10.0.1.102'') (asc ''GOLDMAN'') 1002 (A [?c1, ?c2, empty_slot 2] 66 2 0) =
      (Inr 66, A [?c1, ?c2, ?c3] 67 3 0)" by (simp add: step)
  have a4: "accept_connection now (asc ''10.0.1.200'') (asc ''UNKNOWN_FIRM'') 1003 (A [?c1, ?c2, ?c3] 67 3 0) =
      (Inl (CompIdNotAllowed (asc ''UNKNOWN_FIRM'')), A [?c1, ?c2, ?c3] 67 3 1)" using names by (simp add: step)
  have g: "get_session (A [?c1, ?c2, ?c3] 67 3 1) 64 = Some (new_session now (session_config_for demo_acceptor_config 64 (asc ''CITADEL'')))"
    by (simp add: get_session_def get_connection_def A_def S)
  have r: "release_connection 65 (A [?c1, ?c2, ?c3] 67 3 1) = (Inr (), A [?c1, clear_slot ?c2, ?c3] 67 3 1)"
    by (simp add: release_connection_def A_def S)
  have n: "active_count (A [?c1, ?c2, ?c3] 67 3 0) = 3" by (simp add: active_count_def A_def S R)
  have st: "stats (A [?c1, clear_slot ?c2, ?c3] 67 3 1) =
      \<lparr>as_active_connections = 2, as_pool_available = 62, as_total_accepted = 3, as_total_rejected = 1,
       as_total_bytes_received = 0, as_total_bytes_sent = 0\<rparr>"
    by (simp add: stats_def active_count_def A_def S R) (simp add: clear_slot_def is_active_def)
  show ?thesis
    unfolding demo_acceptor_def Let_def a0 accept_or_panic_def a1 prod.case unwrap_simps option.map Option.bind.simps
    by (simp add: a2 a3 a4 g r n st new_session_def session_config_for_def)
qed

subsection \<open>Parse and serialize\<close>

definition order_fields :: "(u32 \<times> bytes) list" where
  "order_fields =
     [(SENDER_COMP_ID, asc ''BANK_OMS''), (TARGET_COMP_ID, asc ''NYSE''), (MSG_SEQ_NUM, dec 42),
      (SENDING_TIME, asc ''20260321-10:00:00.123''), (CL_ORD_ID, asc ''ORD-2026032100001''), (SYMBOL, asc ''AAPL''),
      (SIDE, asc ''1''), (ORDER_QTY, int_text 10000), (ORD_TYPE, asc ''2''), (PRICE, asc ''178.55''),
      (TRANSACT_TIME, asc ''20260321-10:00:00.123''), (HANDL_INST, asc ''1'')]"

definition report_fields :: "(u32 \<times> bytes) list" where
  "report_fields =
     [(SENDER_COMP_ID, asc ''NYSE''), (TARGET_COMP_ID, asc ''BANK_OMS''), (MSG_SEQ_NUM, dec 100),
      (SENDING_TIME, asc ''20260321-10:00:00.456''), (ORDER_ID, asc ''NYSE-ORD-001''), (EXEC_ID, asc ''NYSE-EXEC-001''),
      (CL_ORD_ID, asc ''ORD-2026032100001''), (EXEC_TYPE, asc ''F''), (ORD_STATUS, asc ''1''), (SYMBOL, asc ''AAPL''),
      (SIDE, asc ''1''), (ORDER_QTY, int_text 10000), (LAST_QTY, int_text 5000), (LAST_PX, asc ''178.55''),
      (LEAVES_QTY, int_text 5000), (CUM_QTY, int_text 5000), (AVG_PX, asc ''178.55''),
      (TRANSACT_TIME, asc ''20260321-10:00:00.456'')]"

lemma shown_texts:
  "length (wire (asc ''FIX.4.4'') ((MSG_TYPE, asc ''D'') # order_fields)) = 170"
  "length (wire (asc ''FIX.4.4'') ((MSG_TYPE, asc ''8'') # report_fields)) = 239"
  by (simp_all add: order_fields_def report_fields_def wire_eval)

lemma clean_fields: "list_all good_field order_fields" "list_all good_field report_fields"
  by (simp_all add: order_fields_def report_fields_def good_field_def tag_defs int_text_no_soh dec_no_soh)
    (simp_all add: asc_def SOH_def)

lemma parse_shown:
  assumes "SOH \<notin> set mt" "list_all good_field fs" "length fs \<le> 500" "MSG_TYPE \<notin> fst ` set fs"
    and "length (wire (asc ''FIX.4.4'') ((MSG_TYPE, mt) # fs)) \<le> 1024"
  shows "\<exists>v. parse new_parser (wire (asc ''FIX.4.4'') ((MSG_TYPE, mt) # fs)) =
      Inr (v, length (wire (asc ''FIX.4.4'') ((MSG_TYPE, mt) # fs))) \<and>
    (\<forall>tag. get_field v tag = Some (map_of (parsed_fields (asc ''FIX.4.4'') ((MSG_TYPE, mt) # fs)) tag)) \<and>
    msg_type v = Some (Some mt) \<and> mv_checksum_valid v \<and> Message.field_count v = length fs + 4"
proof -
  have "SOH \<notin> set (asc ''FIX.4.4'')" by (simp add: asc_def SOH_def)
  then obtain v where v: "parse new_parser (wire (asc ''FIX.4.4'') ((MSG_TYPE, mt) # fs)) =
      Inr (v, length (wire (asc ''FIX.4.4'') ((MSG_TYPE, mt) # fs)))"
    "field_pairs v = parsed_fields (asc ''FIX.4.4'') ((MSG_TYPE, mt) # fs)" "view_ok v" "idx_ok v" "mv_checksum_valid v"
    using parse_wire_helper [of "asc ''FIX.4.4''" mt fs "[]" new_parser] assms
    by (auto simp: new_parser_def MAX_FIELDS_def)
  have "length (field_pairs v) = length fs + 4" by (simp add: v(2) parsed_fields_def)
  then have "Message.field_count v = length fs + 4" by (simp add: field_pairs_def Message.field_count_def)
  then show ?thesis
    using v get_field_map_of [OF v(3)] msg_type_parsed [OF v(3,4,2) assms(4)] by auto
qed

lemma demo_texts:
  "demo_order = Some (wire (asc ''FIX.4.4'') ((MSG_TYPE, asc ''D'') # order_fields) @ drop 170 (replicate 1024 0), 170)"
  "demo_report = Some (wire (asc ''FIX.4.4'') ((MSG_TYPE, asc ''8'') # report_fields) @ drop 239 (replicate 2048 0), 239)"
  using shown_texts
  by (simp_all add: demo_order_def demo_report_def build_new_order_single_eq build_execution_report_eq emit_fits
      order_fields_def report_fields_def asc_def)

lemma demo_parse_serialize_shows:
  "demo_parse_serialize =
     Some (\<lparr>os_consumed = 170, os_msg_type = NewOrderSingle, os_sender = asc ''BANK_OMS'', os_target = asc ''NYSE'',
       os_cl_ord_id = asc ''ORD-2026032100001'', os_symbol = asc ''AAPL'', os_side = Buy, os_qty = 10000,
       os_price = asc ''178.55'', os_checksum_valid = True, os_field_count = 16\<rparr>, asc ''F'', 5000, 5000, 5000)"
proof -
  let ?o = "wire (asc ''FIX.4.4'') ((MSG_TYPE, asc ''D'') # order_fields)"
    and ?r = "wire (asc ''FIX.4.4'') ((MSG_TYPE, asc ''8'') # report_fields)"
  have mt: "SOH \<notin> set (asc ''D'')" "SOH \<notin> set (asc ''8'')" by (simp_all add: asc_def SOH_def)
  have tags: "MSG_TYPE \<notin> fst ` set order_fields" "MSG_TYPE \<notin> fst ` set report_fields"
    by (simp_all add: order_fields_def report_fields_def tag_defs)
  have lens: "length order_fields = 12" "length report_fields = 18" by (simp_all add: order_fields_def report_fields_def)
  obtain v where v: "parse new_parser ?o = Inr (v, 170)" "\<And>tag. get_field v tag =
      Some (map_of (parsed_fields (asc ''FIX.4.4'') ((MSG_TYPE, asc ''D'') # order_fields)) tag)"
    "msg_type v = Some (Some (asc ''D''))" "mv_checksum_valid v" "Message.field_count v = 16"
    using parse_shown [OF mt(1) clean_fields(1) _ tags(1)] shown_texts(1) lens by auto
  obtain w where w: "parse new_parser ?r = Inr (w, 239)" "\<And>tag. get_field w tag =
      Some (map_of (parsed_fields (asc ''FIX.4.4'') ((MSG_TYPE, asc ''8'') # report_fields)) tag)"
    using parse_shown [OF mt(2) clean_fields(2) _ tags(2)] shown_texts(2) lens by auto
  have utf: "from_utf8 x = Some x" if "x \<in> {asc ''BANK_OMS'', asc ''NYSE'', asc ''ORD-2026032100001'', asc ''AAPL'',
      asc ''178.55'', asc ''F''}" for x
    using that by (auto simp: from_utf8_def asc_def intro!: utf8_valid_ascii)
  have "show_order ?o = Some \<lparr>os_consumed = 170, os_msg_type = NewOrderSingle, os_sender = asc ''BANK_OMS'', os_target = asc ''NYSE'',
       os_cl_ord_id = asc ''ORD-2026032100001'', os_symbol = asc ''AAPL'', os_side = Buy, os_qty = 10000,
       os_price = asc ''178.55'', os_checksum_valid = True, os_field_count = 16\<rparr>"
  proof -
    have enum: "msg_type_enum v = Some (Some NewOrderSingle)"
      using v(3) by (simp add: msg_type_enum_def msg_type_from_bytes_def asc_def)
    have g: "get_field v SENDER_COMP_ID = Some (Some (asc ''BANK_OMS''))" "get_field v TARGET_COMP_ID = Some (Some (asc ''NYSE''))"
      "get_field v CL_ORD_ID = Some (Some (asc ''ORD-2026032100001''))" "get_field v SYMBOL = Some (Some (asc ''AAPL''))"
      "get_field v SIDE = Some (Some (asc ''1''))" "get_field v ORDER_QTY = Some (Some (int_text 10000))"
      "get_field v PRICE = Some (Some (asc ''178.55''))"
      by (simp_all add: v(2) parsed_fields_def order_fields_def tag_defs)
    have "get_at (asc ''1'') 0 = Some 49" "side_from_byte 49 = Some Buy"
      by (simp_all add: asc_def get_at_def side_from_byte_def)
    then show ?thesis
      by (simp add: show_order_def v(1,4,5) enum sender_comp_id_def target_comp_id_def get_field_str_def get_field_i64_def g
          utf parse_i64_int_text)
  qed
  moreover have "show_report ?r = Some (asc ''F'', 5000, 5000, 5000)"
  proof -
    have g: "get_field w EXEC_TYPE = Some (Some (asc ''F''))" "get_field w LAST_QTY = Some (Some (int_text 5000))"
      "get_field w CUM_QTY = Some (Some (int_text 5000))" "get_field w LEAVES_QTY = Some (Some (int_text 5000))"
      by (simp_all add: w(2) parsed_fields_def report_fields_def tag_defs)
    then show ?thesis
      by (simp add: show_report_def w(1) get_field_str_def get_field_i64_def utf parse_i64_int_text)
  qed
  ultimately show ?thesis using shown_texts by (simp add: demo_parse_serialize_def demo_texts)
qed

subsection \<open>The journal\<close>

definition beat :: "u64 \<Rightarrow> bytes" where
  "beat q = wire (asc ''FIX.4.4'') ((MSG_TYPE, asc ''0'') #
     [(SENDER_COMP_ID, asc ''B''), (TARGET_COMP_ID, asc ''N''), (MSG_SEQ_NUM, dec (unat q)),
      (SENDING_TIME, asc ''20260321-10:00:00'')])"

lemma length_beat: "unat q < 100000 \<Longrightarrow> length (beat q) \<le> 71"
  using dec_length [of "unat q" 5] by (simp add: beat_def wire_eval)

lemma demo_heartbeat_eq: "unat q < 100000 \<Longrightarrow> demo_heartbeat q = Some (beat q)"
  using length_beat [of q] by (simp add: demo_heartbeat_def build_heartbeat_eq emit_fits flip: beat_def)

text \<open>Appending heartbeats that fit leaves what the journal already holds, and counts them.\<close>

lemma append_heartbeats_run:
  "journal_ok j \<Longrightarrow> jn_sync_policy j = NoSync \<Longrightarrow> \<forall>q \<in> set qs. unat q < 100000 \<Longrightarrow>
   jn_write_offset j + length qs * 95 \<le> jn_capacity j \<Longrightarrow>
   \<exists>j'. append_heartbeats fl qs j = Some j' \<and> journal_ok j' \<and> jn_capacity j' = jn_capacity j \<and>
     jn_entry_count j' = jn_entry_count j + of_nat (length qs) \<and>
     take (jn_write_offset j) (jn_mmap j') = take (jn_write_offset j) (jn_mmap j)"
proof (induction qs arbitrary: j)
  case Nil
  then show ?case by simp
next
  case (Cons q qs)
  let ?s = "session_hash (asc ''BANK_OMS'') (asc ''NYSE'')" and ?n = "HEADER_SIZE + length (beat q)"
  have q: "unat q < 100000" using Cons.prems(3) by simp
  have n: "?n \<le> 95" using length_beat [OF q] by (simp add: HEADER_SIZE_def)
  then have fit: "?n \<le> jn_capacity j" "entry_offset j ?n = jn_write_offset j"
    using Cons.prems(4) by (simp_all add: entry_offset_def)
  obtain r j1 where a: "append_entry fl ?s q (beat q) j = Some (r, j1)" "r = Inr (jn_write_offset j)"
    "copy_at (jn_mmap j) (jn_write_offset j) (entry_text ?s q (beat q)) = Some (jn_mmap j1)"
    "jn_write_offset j1 = jn_write_offset j + ?n" "jn_capacity j1 = jn_capacity j" "jn_sync_policy j1 = NoSync"
    "journal_ok j1" "jn_entry_count j1 = jn_entry_count j + 1"
    using append_eq [OF Cons.prems(1) fit(1), of fl ?s q] Cons.prems(2) unfolding fit(2) by (auto simp: add.assoc)
  have w: "jn_write_offset j \<le> length (jn_mmap j)" using Cons.prems(1) by (simp add: journal_ok_def)
  have "jn_mmap j1 = take (jn_write_offset j) (jn_mmap j) @ entry_text ?s q (beat q) @
      drop (jn_write_offset j + ?n) (jn_mmap j)"
    using a(3) by (auto simp: copy_at_def split: if_splits)
  then have keep: "take (jn_write_offset j) (jn_mmap j1) = take (jn_write_offset j) (jn_mmap j)"
    using w by (simp add: min_absorb2)
  have "jn_write_offset j1 + length qs * 95 \<le> jn_capacity j1" using Cons.prems(4) n a(4,5) by simp
  from Cons.IH [OF a(7,6) _ this] Cons.prems(3) obtain j' where j': "append_heartbeats fl qs j1 = Some j'" "journal_ok j'"
    "jn_capacity j' = jn_capacity j1" "jn_entry_count j' = jn_entry_count j1 + of_nat (length qs)"
    "take (jn_write_offset j1) (jn_mmap j') = take (jn_write_offset j1) (jn_mmap j1)" by auto
  have "take (jn_write_offset j) (jn_mmap j') = take (jn_write_offset j) (jn_mmap j1)"
    using arg_cong [OF j'(5), of "take (jn_write_offset j)"] by (simp add: a(4) min_absorb1)
  then have "take (jn_write_offset j) (jn_mmap j') = take (jn_write_offset j) (jn_mmap j)" using keep by simp
  moreover have "append_heartbeats fl (q # qs) j = Some j'" using q a(1,2) j'(1) by (simp add: demo_heartbeat_eq)
  moreover have "jn_entry_count j' = jn_entry_count j + of_nat (length (q # qs))" using j'(4) a(8) by simp
  moreover have "jn_capacity j' = jn_capacity j" using j'(3) a(5) by simp
  ultimately show ?case using j'(2) by blast
qed

lemma demo_journal_shows: "demo_journal fl (Inr file) (Inr ()) (Inr ()) = Some (10000, 1, Heartbeat)"
proof -
  define j0 where "j0 = opened_journal file (1024 * 1024) NoSync"
  let ?s = "session_hash (asc ''BANK_OMS'') (asc ''NYSE'')"
  have ok: "journal_ok j0" "jn_sync_policy j0 = NoSync" "jn_write_offset j0 = 0" "jn_capacity j0 = 1048576"
    "jn_entry_count j0 = 0"
    unfolding j0_def journal_ok_def opened_journal_def by (simp_all del: replicate.simps)
  let ?n = "HEADER_SIZE + length (beat 1)"
  have n: "?n \<le> 95" using length_beat [of 1] by (simp add: HEADER_SIZE_def)
  then have fit: "?n \<le> jn_capacity j0" "entry_offset j0 ?n = 0" using ok by (simp_all add: entry_offset_def)
  obtain r j1 where a: "append_entry fl ?s 1 (beat 1) j0 = Some (r, j1)" "r = Inr 0"
    "copy_at (jn_mmap j0) 0 (entry_text ?s 1 (beat 1)) = Some (jn_mmap j1)" "jn_write_offset j1 = ?n"
    "jn_capacity j1 = 1048576" "jn_sync_policy j1 = NoSync" "journal_ok j1" "jn_entry_count j1 = 1"
  proof -
    obtain r j1 where "append_entry fl ?s 1 (beat 1) j0 = Some (r, j1)"
      "copy_at (jn_mmap j0) 0 (entry_text ?s 1 (beat 1)) = Some (jn_mmap j1)" "jn_write_offset j1 = 0 + HEADER_SIZE + length (beat 1)"
      "jn_capacity j1 = jn_capacity j0" "jn_sync_policy j1 = jn_sync_policy j0" "journal_ok j1"
      "jn_entry_count j1 = jn_entry_count j0 + 1" "jn_sync_policy j0 \<noteq> EveryMessage \<longrightarrow> r = Inr 0"
      using append_eq [OF ok(1) fit(1), of fl ?s 1] unfolding fit(2) by blast
    then show thesis by (intro that [of r j1]) (simp_all add: ok(2,4,5))
  qed
  define qs :: "u64 list" where "qs = map of_nat [2..<10001]"
  have len: "length qs = 9999" by (simp only: qs_def length_map length_upt)
  have "unat (of_nat i :: u64) < 100000" if "i < 10001" for i :: nat
    using that by (simp add: unat_of_nat)
  then have small: "\<forall>q \<in> set qs. unat q < 100000"
    by (auto simp only: qs_def set_map set_upt image_iff atLeastLessThan_iff)
  have "jn_write_offset j1 + length qs * 95 \<le> jn_capacity j1" using n a(4,5) by (simp add: len)
  from append_heartbeats_run [OF a(7,6) small this, of fl] obtain j where j: "append_heartbeats fl qs j1 = Some j"
    "journal_ok j" "jn_capacity j = 1048576" "jn_entry_count j = 10000" "take ?n (jn_mmap j) = take ?n (jn_mmap j1)"
    unfolding a(4,5,8) len by auto
  have "(1 :: nat) < 10001" by simp
  from upt_conv_Cons [OF this] have "map of_nat [1..<10001] = (1 :: u64) # qs"
    unfolding qs_def Suc_1 by (simp only: list.map of_nat_1)
  then have run: "append_heartbeats fl (map of_nat [1..<10001]) j0 = Some j"
    using a(1,2) j(1) by (simp add: demo_heartbeat_eq)
  have "jn_mmap j1 = entry_text ?s 1 (beat 1) @ drop ?n (jn_mmap j0)"
    using a(3) by (auto simp: copy_at_def split: if_splits)
  then have "take ?n (jn_mmap j) = entry_text ?s 1 (beat 1)" unfolding j(5) by simp
  then have read: "read_entry j 0 = Some (Some (\<lparr>jh_session_hash = ?s, jh_seq_num = 1, jh_body_length = of_nat (length (beat 1)),
      jh_crc32 = crc32_simple (beat 1)\<rparr>, beat 1))"
    using read_text [of j "beat 1" 0 ?s 1] j(2,3) n length_beat [of 1] by (simp add: journal_ok_def add.assoc)
  obtain v where v: "parse new_parser (beat 1) = Inr (v, length (beat 1))" "msg_type v = Some (Some (asc ''0''))"
    using parse_shown [of "asc ''0''" "[(SENDER_COMP_ID, asc ''B''), (TARGET_COMP_ID, asc ''N''), (MSG_SEQ_NUM, dec 1),
        (SENDING_TIME, asc ''20260321-10:00:00'')]"] length_beat [of 1]
    by (auto simp: beat_def good_field_def tag_defs dec_no_soh) (auto simp: asc_def SOH_def)
  have "msg_type_enum v = Some (Some Heartbeat)" using v(2) by (simp add: msg_type_enum_def msg_type_from_bytes_def asc_def)
  then show ?thesis
    unfolding demo_journal_def open_journal_def sum.case unwrap_simps Option.bind.simps j0_def [symmetric] run
    by (simp add: read v(1) j(4) del: upt_Suc append_heartbeats.simps)
qed

end
