(* ===== verification/DemoMain.thy ===== *)
theory DemoMain
  imports FeatureDemo Apps Timestamp RepeatingGroups
begin

text \<open>
  The rest of \<open>src/src/bin/demo.rs\<close>: the measured loops of the throughput scenario, the group definitions,
  the timestamps, and \<open>main\<close>, which runs the fourteen scenarios one after the other. Rates and latencies
  that come from the clock are left out, and so are loops that only compute a value and drop it (the timed parses,
  the wrapping sum and the reads of the counter); the loops that write or can panic are not.
\<close>

section \<open>3. Throughput\<close>

definition bench_template :: "(bytes \<times> nat) run" where
  "bench_template =
     build_new_order_single (replicate 512 0) (asc ''FIX.4.4'') (asc ''BANK'') (asc ''EXCH'') 1
       (asc ''20260321-10:00:00'') (asc ''ORD-00001'') (asc ''AAPL'') (of_char CHR ''1'') 1000 (of_char CHR ''2'')
       (asc ''150.00'')"

fun serialize_loop :: "u64 list \<Rightarrow> bytes \<Rightarrow> bytes run" where
  "serialize_loop [] buf = Some buf"
| "serialize_loop (i # is) buf =
     Option.bind (build_new_order_single buf (asc ''FIX.4.4'') (asc ''S'') (asc ''T'') i
         (asc ''20260321-10:00:00'') (asc ''O1'') (asc ''AAPL'') (of_char CHR ''1'') 100 (of_char CHR ''2'')
         (asc ''150.00''))
       (\<lambda>(buf, _). serialize_loop is buf)"

definition roundtrip :: "bytes \<Rightarrow> bytes \<Rightarrow> bytes run" where
  "roundtrip msg out =
     Option.bind (unwrap_ok (parse new_unchecked msg)) (\<lambda>(v, _).
     Option.bind (unwrap_or (get_field v CL_ORD_ID) (asc ''?'')) (\<lambda>cl.
     Option.bind (unwrap_or (get_field v SYMBOL) (asc ''?'')) (\<lambda>symb.
     map_option fst
       (build_execution_report out (asc ''FIX.4.4'') (asc ''E'') (asc ''B'') 1 (asc ''20260321-10:00:00'')
          (asc ''O1'') (asc ''X1'') cl symb (of_char CHR ''1'') 100 100 (asc ''150.00'') 0 100 (asc ''150.00'')
          (of_char CHR ''2'') (of_char CHR ''2'')))))"

fun roundtrip_loop :: "nat \<Rightarrow> bytes \<Rightarrow> bytes \<Rightarrow> bytes run" where
  "roundtrip_loop 0 msg out = Some out"
| "roundtrip_loop (Suc n) msg out = Option.bind (roundtrip msg out) (roundtrip_loop n msg)"

text \<open>
  The two loops that only parse drop what they get: \<^const>\<open>parse\<close> is a total function, so there is nothing
  of them left. The result is what the two buffers hold in the end.
\<close>

definition demo_throughput :: "(bytes \<times> bytes) run" where
  "demo_throughput =
     Option.bind bench_template (\<lambda>(template, len).
     Option.bind (serialize_loop (map of_nat [0..<1000000]) (replicate 512 0)) (\<lambda>ser_buf.
     map_option (Pair ser_buf) (roundtrip_loop 1000000 (take len template) (replicate 2048 0))))"

section \<open>9. Repeating groups\<close>

definition demo_groups :: "(u32 \<times> u32 \<times> u32 list) \<times> (u32 \<times> u32 list) \<times> (u32 \<times> u32 list)" where
  "demo_groups =
     (let g = md_entries_group; legs = legs_group; fills = fills_group in
      ((gd_count_tag g, gd_delimiter_tag g, gd_member_tags g), (gd_delimiter_tag legs, gd_member_tags legs),
       (gd_delimiter_tag fills, gd_member_tags fills)))"

section \<open>13. Timestamps\<close>

text \<open>\<open>wall\<close> and \<open>tsc\<close>: the readings of the system clock and of the counter, in the order they are taken.\<close>

definition demo_timestamps :: "(nat \<Rightarrow> nat) \<Rightarrow> (nat \<Rightarrow> u64) \<Rightarrow> (bytes \<times> bytes \<times> bytes \<times> u64) run" where
  "demo_timestamps wall tsc =
     (let ts = hr_now (wall 0) (tsc 0) System in
      Option.bind (from_utf8 (to_fix_timestamp (hr_nanos ts))) (\<lambda>ms.
      Option.bind (from_utf8 (to_fix_timestamp_us (hr_nanos ts))) (\<lambda>us.
      Option.bind (from_utf8 (to_fix_timestamp_ns (hr_nanos ts))) (\<lambda>ns.
        let clock = new_clock System 0 (tsc 1) (wall 1); tracker = latency_start clock (tsc 2) (wall 2) in
        Some (ms, us, ns, latency_stop tracker (tsc 3) (wall 3))))))"

section \<open>The demonstration\<close>

record DemoShown =
  dm_messages :: "OrderShown \<times> (bytes \<times> i64 \<times> i64 \<times> i64)"
  dm_life_cycle :: LifeCycleShown
  dm_buffers :: "bytes \<times> bytes"
  dm_scans :: "nat option \<times> nat \<times> nat option"
  dm_read_back :: bytes
  dm_journal :: "u64 \<times> u64 \<times> MsgType"
  dm_fixt :: "SessionState list \<times> ApplVerID \<times> (bytes \<times> bytes) list"
  dm_dictionary :: DictionaryShown
  dm_groups :: "(u32 \<times> u32 \<times> u32 list) \<times> (u32 \<times> u32 list) \<times> (u32 \<times> u32 list)"
  dm_metrics :: "u64 \<times> u64 \<times> i64 \<times> u64 \<times> u64 \<times> bytes"
  dm_cluster :: "NodeRole list \<times> bool list \<times> nat"
  dm_acceptor :: AcceptorShown
  dm_timestamps :: "bytes \<times> bytes \<times> bytes \<times> u64"
  dm_dashboard :: "nat \<times> u16 list \<times> bytes list \<times> bool \<times> bool"

text \<open>
  \<open>inst\<close>, \<open>wall\<close> and \<open>tsc\<close> are the clocks; \<open>fl\<close>, \<open>opened\<close>, \<open>resized\<close> and \<open>mapped\<close> are what the operating system
  returns to the journal, \<open>memory\<close> is the allocator for the dictionary's index, \<open>H\<close> the histograms.
\<close>

definition demo_main ::
  "('h, 'f) HistOps \<Rightarrow> 'e + unit \<Rightarrow> 'e + bytes \<Rightarrow> 'e + unit \<Rightarrow> 'e + unit \<Rightarrow> (nat \<Rightarrow> bool) \<Rightarrow> Target \<Rightarrow>
   (nat \<Rightarrow> nat) \<Rightarrow> (nat \<Rightarrow> nat) \<Rightarrow> (nat \<Rightarrow> u64) \<Rightarrow> DemoShown run" where
  "demo_main H fl opened resized mapped memory t inst wall tsc =
     Option.bind demo_parse_serialize (\<lambda>messages.
     Option.bind (demo_session_lifecycle inst) (\<lambda>life_cycle.
     Option.bind demo_throughput (\<lambda>buffers.
     Option.bind (demo_simd_scanning t) (\<lambda>scans.
     Option.bind demo_memory_pool (\<lambda>read_back.
     Option.bind (demo_journal fl opened resized mapped) (\<lambda>jnl.
     Option.bind (demo_fixt_session (inst 59)) (\<lambda>fixt.
     Option.bind (demo_dictionary_compiler memory) (\<lambda>dict.
     let groups = demo_groups in
     Option.bind (demo_metrics H) (\<lambda>metrics.
     let cluster = demo_cluster_ha in
     Option.bind (demo_acceptor (inst 60)) (\<lambda>acceptor.
     Option.bind (demo_timestamps wall tsc) (\<lambda>timestamps.
     let dashboard = demo_dashboard (of_nat (wall 4 div 1000000)) in
     Some \<lparr>dm_messages = messages, dm_life_cycle = life_cycle, dm_buffers = buffers, dm_scans = scans,
       dm_read_back = read_back, dm_journal = jnl, dm_fixt = fixt, dm_dictionary = dict, dm_groups = groups,
       dm_metrics = metrics, dm_cluster = cluster, dm_acceptor = acceptor, dm_timestamps = timestamps,
       dm_dashboard = dashboard\<rparr>)))))))))))"

section \<open>What the scenarios show\<close>

definition bench_fields :: "(u32 \<times> bytes) list" where
  "bench_fields =
     [(SENDER_COMP_ID, asc ''BANK''), (TARGET_COMP_ID, asc ''EXCH''), (MSG_SEQ_NUM, dec 1),
      (SENDING_TIME, asc ''20260321-10:00:00''), (CL_ORD_ID, asc ''ORD-00001''), (SYMBOL, asc ''AAPL''),
      (SIDE, asc ''1''), (ORDER_QTY, int_text 1000), (ORD_TYPE, asc ''2''), (PRICE, asc ''150.00''),
      (TRANSACT_TIME, asc ''20260321-10:00:00''), (HANDL_INST, asc ''1'')]"

text \<open>The order of the serialization loop, and the report of the round trip.\<close>

definition loop_order :: "u64 \<Rightarrow> bytes" where
  "loop_order i = wire (asc ''FIX.4.4'') [(MSG_TYPE, asc ''D''), (SENDER_COMP_ID, asc ''S''), (TARGET_COMP_ID, asc ''T''),
     (MSG_SEQ_NUM, dec (unat i)), (SENDING_TIME, asc ''20260321-10:00:00''), (CL_ORD_ID, asc ''O1''), (SYMBOL, asc ''AAPL''),
     (SIDE, asc ''1''), (ORDER_QTY, int_text 100), (ORD_TYPE, asc ''2''), (PRICE, asc ''150.00''),
     (TRANSACT_TIME, asc ''20260321-10:00:00''), (HANDL_INST, asc ''1'')]"

definition loop_report :: bytes where
  "loop_report = wire (asc ''FIX.4.4'') [(MSG_TYPE, asc ''8''), (SENDER_COMP_ID, asc ''E''), (TARGET_COMP_ID, asc ''B''),
     (MSG_SEQ_NUM, dec 1), (SENDING_TIME, asc ''20260321-10:00:00''), (ORDER_ID, asc ''O1''), (EXEC_ID, asc ''X1''),
     (CL_ORD_ID, asc ''ORD-00001''), (EXEC_TYPE, asc ''2''), (ORD_STATUS, asc ''2''), (SYMBOL, asc ''AAPL''),
     (SIDE, asc ''1''), (ORDER_QTY, int_text 100), (LAST_QTY, int_text 100), (LAST_PX, asc ''150.00''),
     (LEAVES_QTY, int_text 0), (CUM_QTY, int_text 100), (AVG_PX, asc ''150.00''),
     (TRANSACT_TIME, asc ''20260321-10:00:00'')]"

lemma loop_texts:
  "length (wire (asc ''FIX.4.4'') ((MSG_TYPE, asc ''D'') # bench_fields)) \<le> 512"
  "length (loop_order i) \<le> 512" "length loop_report \<le> 2048"
proof -
  have "unat i < 2 ^ 64" using unsigned_less [of i] by simp
  then have "unat i < 10 ^ 20" by simp
  then have "length (dec (unat i)) \<le> 20" by (rule dec_length) simp
  then show "length (loop_order i) \<le> 512" by (simp add: loop_order_def wire_eval)
qed (simp_all add: bench_fields_def loop_report_def wire_eval)

lemma bench_template_eq:
  "bench_template =
     (let w = wire (asc ''FIX.4.4'') ((MSG_TYPE, asc ''D'') # bench_fields) in
      Some (w @ drop (length w) (replicate 512 0), length w))"
proof -
  have "bench_template = emit (replicate 512 0) (wire (asc ''FIX.4.4'') ((MSG_TYPE, asc ''D'') # bench_fields))"
    by (simp add: bench_template_def build_new_order_single_eq bench_fields_def asc_def)
  then show ?thesis using loop_texts(1) by (simp add: emit_fits Let_def)
qed

lemma serialize_step:
  assumes "length buf = 512"
  shows "serialize_loop (i # is) buf = serialize_loop is (loop_order i @ drop (length (loop_order i)) buf)"
proof -
  have "serialize_loop (i # is) buf = Option.bind (emit buf (loop_order i)) (\<lambda>(buf, _). serialize_loop is buf)"
    by (simp add: build_new_order_single_eq loop_order_def asc_def)
  then show ?thesis using loop_texts(2) [of i] assms by (simp add: emit_fits)
qed

lemma serialize_loop_runs:
  "length buf = 512 \<Longrightarrow> \<exists>buf'. serialize_loop (is @ [i]) buf = Some buf' \<and> length buf' = 512 \<and>
     take (length (loop_order i)) buf' = loop_order i"
proof (induction "is" arbitrary: buf)
  case Nil
  then show ?case using loop_texts(2) [of i] by (simp add: serialize_step del: serialize_loop.simps(2))
next
  case (Cons j "is")
  then show ?case using loop_texts(2) [of j] by (simp add: serialize_step del: serialize_loop.simps(2))
qed

lemma roundtrip_eq:
  assumes "length out = 2048"
  shows "roundtrip (wire (asc ''FIX.4.4'') ((MSG_TYPE, asc ''D'') # bench_fields)) out =
    Some (loop_report @ drop (length loop_report) out)"
proof -
  have clean: "SOH \<notin> set (asc ''FIX.4.4'')" "SOH \<notin> set (asc ''D'')" "list_all good_field bench_fields"
    by (simp_all add: bench_fields_def good_field_def tag_defs int_text_no_soh dec_no_soh) (simp_all add: asc_def SOH_def)
  have "length bench_fields = 12" by (simp add: bench_fields_def)
  then obtain v where v: "parse new_unchecked (wire (asc ''FIX.4.4'') ((MSG_TYPE, asc ''D'') # bench_fields)) =
      Inr (v, length (wire (asc ''FIX.4.4'') ((MSG_TYPE, asc ''D'') # bench_fields)))"
    "field_pairs v = parsed_fields (asc ''FIX.4.4'') ((MSG_TYPE, asc ''D'') # bench_fields)" "view_ok v"
    using parse_wire_helper [OF clean, of "[]" new_unchecked] loop_texts(1)
    by (auto simp: new_unchecked_def MAX_FIELDS_def)
  then have g: "get_field v CL_ORD_ID = Some (Some (asc ''ORD-00001''))" "get_field v SYMBOL = Some (Some (asc ''AAPL''))"
    by (simp_all add: get_field_map_of parsed_fields_def bench_fields_def tag_defs)
  have "roundtrip (wire (asc ''FIX.4.4'') ((MSG_TYPE, asc ''D'') # bench_fields)) out = map_option fst (emit out loop_report)"
    by (simp add: roundtrip_def v(1) unwrap_or_def g build_execution_report_eq loop_report_def) (simp add: asc_def)
  then show ?thesis using loop_texts(3) assms by (simp add: emit_fits)
qed

lemma roundtrip_loop_runs:
  "length out = 2048 \<Longrightarrow>
   roundtrip_loop (Suc n) (wire (asc ''FIX.4.4'') ((MSG_TYPE, asc ''D'') # bench_fields)) out =
     Some (loop_report @ drop (length loop_report) out)"
proof (induction n arbitrary: out)
  case 0
  then show ?case by (simp add: roundtrip_eq)
next
  case (Suc n)
  have "length (loop_report @ drop (length loop_report) out) = 2048" using loop_texts(3) Suc.prems by simp
  from Suc.IH [OF this] show ?case
    by (subst roundtrip_loop.simps) (simp add: roundtrip_eq Suc.prems del: roundtrip_loop.simps)
qed

lemma demo_throughput_runs:
  "\<exists>ser_buf. demo_throughput =
     Some (ser_buf, loop_report @ drop (length loop_report) (replicate 2048 0)) \<and>
     take (length (loop_order 999999)) ser_buf = loop_order 999999"
proof -
  have "[0..<1000000] = [0..<999999] @ [999999 :: nat]"
    using upt_Suc_append [of 0 999999] by (simp del: upt_Suc)
  then have "map of_nat [0..<1000000] = map of_nat [0..<999999] @ [999999 :: u64]" by (simp del: upt_Suc)
  then obtain ser_buf where s: "serialize_loop (map of_nat [0..<1000000]) (replicate 512 0) = Some ser_buf"
    "take (length (loop_order 999999)) ser_buf = loop_order 999999"
    using serialize_loop_runs [of "replicate 512 0" "map of_nat [0..<999999]" 999999] by (auto simp del: upt_Suc)
  have "Suc 999999 = 1000000" by simp
  then have "roundtrip_loop 1000000 (wire (asc ''FIX.4.4'') ((MSG_TYPE, asc ''D'') # bench_fields)) (replicate 2048 0) =
      Some (loop_report @ drop (length loop_report) (replicate 2048 0))"
    using roundtrip_loop_runs [of "replicate 2048 0" 999999] by (simp del: roundtrip_loop.simps replicate.simps)
  then show ?thesis
    unfolding demo_throughput_def bench_template_eq Let_def using s
    by (simp del: roundtrip_loop.simps serialize_loop.simps upt_Suc)
qed

lemma fix_text_utf8 [simp]: "from_utf8 (fix_text p nanos) = Some (fix_text p nanos)"
proof -
  have "\<forall>b \<in> set (padded k v). b < 0x80" for k v
    using padded_digits [of k v] by (auto simp: list_all_iff is_digit_def not_less intro: le_less_trans)
  then have "\<forall>b \<in> set (fix_text p nanos). b < 0x80"
    by (auto simp: fix_text_def Let_def dest!: in_set_takeD split: prod.split)
  then show ?thesis by (simp add: from_utf8_def utf8_valid_ascii)
qed

lemma demo_timestamps_shows:
  "demo_timestamps wall tsc =
     (let t = of_nat (wall 0); a = of_nat (wall 2); b = of_nat (wall 3) in
      Some (fix_text 3 t, fix_text 6 t, fix_text 9 t, if a \<le> b then b - a else 0))"
  using fix_text_run
  by (simp add: demo_timestamps_def Let_def hr_now_def new_clock_def latency_start_def latency_stop_def clock_now_def
      elapsed_ns_def)

section \<open>The demonstration completes\<close>

text \<open>
  C17. The feature demonstration. When the journal's file can be opened, resized and mapped, the allocator has
  room for the 113 slots of the dictionary's index, and the histogram library obeys its laws and can be created,
  then, whatever the clocks read, the target it is compiled for, the contents the journal finds and a flush returns,
  \<open>main\<close> runs its fourteen scenarios to the end: no \<open>unwrap\<close> fails, no index is out of range, no loop gets
  stuck, through a million orders serialized, a million round trips, ten million cycles of the pool and ten
  thousand heartbeats appended. What it shows is exactly: every field of the order and the report as they were
  built, the life cycle of the session with the gap 51 to 55, the last order of the serialization loop and the report of
  the round trips, which repeats the identifier and the symbol of the order it parsed, the scans, the text read back from
  the pool, 10000 entries in the journal with heartbeat 1 the first of them, the FIXT session and its versions, the
  compiled dictionary with the two missing fields, the group definitions, the counters, the cluster after one vote, the
  acceptor with its refused counterparty, the timestamps of the wall clock, and the dashboard with 404 for the unknown
  path. (Only the two percentiles and the metrics text are left to the histogram library.)
\<close>

theorem demo_runs:
  assumes "hist_law H ok" "hi_new_with_bounds H 1 MAX_LATENCY_NS 3 = Some h" "ok h"
    and "opened = Inr file" "resized = Inr ()" "mapped = Inr ()" "memory 113"
  shows "\<exists>ser_buf p50 p99 prom. take (length (loop_order 999999)) ser_buf = loop_order 999999 \<and>
    demo_main H fl opened resized mapped memory t inst wall tsc = Some
      \<lparr>dm_messages =
         (\<lparr>os_consumed = 170, os_msg_type = NewOrderSingle, os_sender = asc ''BANK_OMS'', os_target = asc ''NYSE'',
            os_cl_ord_id = asc ''ORD-2026032100001'', os_symbol = asc ''AAPL'', os_side = Buy, os_qty = 10000,
            os_price = asc ''178.55'', os_checksum_valid = True, os_field_count = 16\<rparr>,
          asc ''F'', 5000, 5000, 5000),
       dm_life_cycle =
         \<lparr>lc_states = [Disconnected, LogonSent, Active, Resending, Active, LogoutSent, Disconnected],
          lc_outbound = 101, lc_expected = 51, lc_gap = (51, 55), lc_final = (101, 55)\<rparr>,
       dm_buffers = (ser_buf, loop_report @ drop (length loop_report) (replicate 2048 0)),
       dm_scans = (Some 9, 8, Some 1),
       dm_read_back = asc ''Hello from Velocitas!'',
       dm_journal = (10000, 1, Heartbeat),
       dm_fixt = ([LogonSent, Active], Fix50SP2,
         [(asc ''4'', asc ''FIX.4.2''), (asc ''6'', asc ''FIX.4.4''), (asc ''9'', asc ''FIX.5.0SP2'')]),
       dm_dictionary =
         \<lparr>ds_version = asc ''FIX.4.4'', ds_fields = 15, ds_messages = 3,
          ds_lookups = [(asc ''BeginString'', asc ''STRING''), (asc ''MsgType'', asc ''STRING''),
            (asc ''SenderCompID'', asc ''STRING''), (asc ''Side'', asc ''CHAR''), (asc ''Symbol'', asc ''STRING'')],
          ds_sides = [(asc ''1'', asc ''BUY''), (asc ''2'', asc ''SELL'')], ds_name = asc ''NewOrderSingle'',
          ds_category = Application, ds_required = [11, 55, 54, 38, 40], ds_clean = 0,
          ds_missing = [asc ''missing required field: Symbol (tag 55)'', asc ''missing required field: Side (tag 54)'']\<rparr>,
       dm_groups = ((268, 269, [269, 270, 271, 279]), (600, [600, 624, 687]), (1363, [1363, 1364, 1365])),
       dm_metrics = (1234567, 987654, 12, p50, p99, prom),
       dm_cluster = ([Follower, Candidate, Leader, Leader, Leader], [False, False, True, True, True], 2),
       dm_acceptor =
         \<lparr>as_ids = [64, 65, 66], as_active = 3, as_refusal = CompIdNotAllowed (asc ''UNKNOWN_FIRM''),
          as_role = Session.Acceptor, as_target = asc ''CITADEL'',
          as_stats = \<lparr>as_active_connections = 2, as_pool_available = 62, as_total_accepted = 3, as_total_rejected = 1,
            as_total_bytes_received = 0, as_total_bytes_sent = 0\<rparr>\<rparr>,
       dm_timestamps =
         (fix_text 3 (of_nat (wall 0)), fix_text 6 (of_nat (wall 0)), fix_text 9 (of_nat (wall 0)),
          if (of_nat (wall 2) :: u64) \<le> of_nat (wall 3) then of_nat (wall 3) - of_nat (wall 2) else 0),
       dm_dashboard =
         (2, [200, 200, 200, 404],
          [asc ''application/json'', asc ''application/json'', asc ''text/html; charset=utf-8'', asc ''text/plain''],
          True, True)\<rparr>"
proof -
  obtain ser_buf where t: "demo_throughput = Some (ser_buf, loop_report @ drop (length loop_report) (replicate 2048 0))"
    "take (length (loop_order 999999)) ser_buf = loop_order 999999"
    using demo_throughput_runs by blast
  obtain p50 p99 prom where m: "demo_metrics H = Some (1234567, 987654, 12, p50, p99, prom)"
    using demo_metrics_runs [OF assms(1-3)] by blast
  have g: "demo_groups = ((268, 269, [269, 270, 271, 279]), (600, [600, 624, 687]), (1363, [1363, 1364, 1365]))"
    by (simp add: demo_groups_def md_entries_group_def legs_group_def fills_group_def new_group_def_def)
  show ?thesis
    unfolding demo_main_def Let_def demo_parse_serialize_shows demo_session_lifecycle_shows t(1) demo_simd_scanning_shows
      demo_memory_pool_shows assms(4-6) demo_journal_shows demo_fixt_session_shows
      demo_dictionary_compiler_shows [of memory, OF assms(7)] m g
      demo_acceptor_shows demo_timestamps_shows demo_cluster_ha_shows demo_dashboard_shows Option.bind.simps
    by (intro exI [of _ ser_buf] exI [of _ p50] exI [of _ p99] exI [of _ prom] conjI refl t(2))
qed

theorem demo_runs_witness:
  "\<exists>shown. demo_main list_hist (Inr () :: unit + unit) (Inr []) (Inr ()) (Inr ()) (\<lambda>n. n \<le> 200) (X86_64 True) id id of_nat = Some shown \<and>
    dm_journal shown = (10000, 1, Heartbeat) \<and> fst (snd (dm_dashboard shown)) = [200, 200, 200, 404]"
proof -
  have "hi_new_with_bounds list_hist 1 MAX_LATENCY_NS 3 = Some (MAX_LATENCY_NS, [])"
    by (simp add: list_hist_def)
  moreover have "(\<lambda>n. n \<le> 200) (113 :: nat)" by simp
  ultimately show ?thesis
    using demo_runs [OF list_hist_law _ TrueI refl refl refl, of "(MAX_LATENCY_NS, [])" "\<lambda>n. n \<le> 200" "Inr ()" "[]" "X86_64 True" id id of_nat]
    by (auto simp del: id_apply)
qed

end
