(* ===== verification/Tags.thy ===== *)
theory Tags
  imports Dictionary RepeatingGroups
begin

text \<open>
  The tag numbers of \<open>src/src/tags.rs\<close> that the code itself does not refer to (the others are in \<open>Message\<close>), and
  how the whole table agrees with the built-in dictionary and with the predefined groups.
\<close>

section \<open>Tag numbers\<close>

definition POSS_DUP_FLAG :: u32 where "POSS_DUP_FLAG = 43"
definition POSS_RESEND :: u32 where "POSS_RESEND = 97"
definition ORIG_SENDING_TIME :: u32 where "ORIG_SENDING_TIME = 122"
definition RESET_SEQ_NUM_FLAG :: u32 where "RESET_SEQ_NUM_FLAG = 141"
definition BEGIN_SEQ_NO :: u32 where "BEGIN_SEQ_NO = 7"
definition END_SEQ_NO :: u32 where "END_SEQ_NO = 16"
definition GAP_FILL_FLAG :: u32 where "GAP_FILL_FLAG = 123"
definition NEW_SEQ_NO :: u32 where "NEW_SEQ_NO = 36"
definition REF_SEQ_NUM :: u32 where "REF_SEQ_NUM = 45"
definition REF_MSG_TYPE :: u32 where "REF_MSG_TYPE = 372"
definition SESSION_REJECT_REASON :: u32 where "SESSION_REJECT_REASON = 373"
definition TEXT :: u32 where "TEXT = 58"
definition USERNAME :: u32 where "USERNAME = 553"
definition PASSWORD :: u32 where "PASSWORD = 554"
definition ORIG_CL_ORD_ID :: u32 where "ORIG_CL_ORD_ID = 41"
definition TIME_IN_FORCE :: u32 where "TIME_IN_FORCE = 59"
definition ACCOUNT :: u32 where "ACCOUNT = 1"
definition SECURITY_EXCHANGE :: u32 where "SECURITY_EXCHANGE = 207"
definition MD_REQ_ID :: u32 where "MD_REQ_ID = 262"
definition SUBSCRIPTION_REQUEST_TYPE :: u32 where "SUBSCRIPTION_REQUEST_TYPE = 263"
definition MARKET_DEPTH :: u32 where "MARKET_DEPTH = 264"
definition NO_MD_ENTRY_TYPES :: u32 where "NO_MD_ENTRY_TYPES = 267"
definition MD_ENTRY_TYPE :: u32 where "MD_ENTRY_TYPE = 269"
definition NO_MD_ENTRIES :: u32 where "NO_MD_ENTRIES = 268"
definition MD_ENTRY_PX :: u32 where "MD_ENTRY_PX = 270"
definition MD_ENTRY_SIZE :: u32 where "MD_ENTRY_SIZE = 271"
definition MD_UPDATE_ACTION :: u32 where "MD_UPDATE_ACTION = 279"

text \<open>The file's table, in its order.\<close>

definition all_tags :: "u32 list" where
  "all_tags =
     [BEGIN_STRING, BODY_LENGTH, MSG_TYPE, SENDER_COMP_ID, TARGET_COMP_ID, MSG_SEQ_NUM, SENDING_TIME, CHECKSUM,
      POSS_DUP_FLAG, POSS_RESEND, ORIG_SENDING_TIME, ENCRYPT_METHOD, HEARTBT_INT, RESET_SEQ_NUM_FLAG, TEST_REQ_ID,
      BEGIN_SEQ_NO, END_SEQ_NO, GAP_FILL_FLAG, NEW_SEQ_NO, REF_SEQ_NUM, REF_MSG_TYPE, SESSION_REJECT_REASON, TEXT,
      USERNAME, PASSWORD, CL_ORD_ID, ORIG_CL_ORD_ID, ORDER_ID, EXEC_ID, EXEC_TYPE, ORD_STATUS, SYMBOL, SIDE,
      ORDER_QTY, ORD_TYPE, PRICE, TIME_IN_FORCE, TRANSACT_TIME, LAST_QTY, LAST_PX, LEAVES_QTY, CUM_QTY, AVG_PX,
      ACCOUNT, HANDL_INST, SECURITY_EXCHANGE, MD_REQ_ID, SUBSCRIPTION_REQUEST_TYPE, MARKET_DEPTH, NO_MD_ENTRY_TYPES,
      MD_ENTRY_TYPE, NO_MD_ENTRIES, MD_ENTRY_PX, MD_ENTRY_SIZE, MD_UPDATE_ACTION]"

lemmas more_tag_defs = POSS_DUP_FLAG_def POSS_RESEND_def ORIG_SENDING_TIME_def RESET_SEQ_NUM_FLAG_def BEGIN_SEQ_NO_def
  END_SEQ_NO_def GAP_FILL_FLAG_def NEW_SEQ_NO_def REF_SEQ_NUM_def REF_MSG_TYPE_def SESSION_REJECT_REASON_def
  TEXT_def USERNAME_def PASSWORD_def ORIG_CL_ORD_ID_def TIME_IN_FORCE_def ACCOUNT_def SECURITY_EXCHANGE_def
  MD_REQ_ID_def SUBSCRIPTION_REQUEST_TYPE_def MARKET_DEPTH_def NO_MD_ENTRY_TYPES_def MD_ENTRY_TYPE_def
  NO_MD_ENTRIES_def MD_ENTRY_PX_def MD_ENTRY_SIZE_def MD_UPDATE_ACTION_def

section \<open>The table and its users\<close>

lemma tags_distinct: "distinct all_tags" "0 \<notin> set all_tags"
  by (simp_all add: all_tags_def tag_defs more_tag_defs)

text \<open>The built-in dictionary lists fields of the table, each once, so a lookup finds them all.\<close>

lemma standard_tags:
  "map fd_tag STANDARD_FIELDS =
     [BEGIN_STRING, BODY_LENGTH, CHECKSUM, CL_ORD_ID, CUM_QTY, EXEC_ID, HANDL_INST, LAST_PX, LAST_QTY, MSG_SEQ_NUM,
      MSG_TYPE, ORDER_ID, ORDER_QTY, ORD_STATUS, ORD_TYPE, PRICE, SENDER_COMP_ID, SENDING_TIME, SIDE, SYMBOL,
      TARGET_COMP_ID, TIME_IN_FORCE, TRANSACT_TIME, ENCRYPT_METHOD, HEARTBT_INT, EXEC_TYPE, LEAVES_QTY, AVG_PX]"
  by (simp add: STANDARD_FIELDS_def tag_defs more_tag_defs)

lemma lookup_standard_covers: "f \<in> set STANDARD_FIELDS \<Longrightarrow> lookup_standard (fd_tag f) = Some f \<and> fd_tag f \<in> set all_tags"
proof -
  assume f: "f \<in> set STANDARD_FIELDS"
  have d: "distinct (map fd_tag STANDARD_FIELDS)" unfolding standard_tags by (simp add: tag_defs more_tag_defs)
  obtain i where i: "i < length STANDARD_FIELDS" "STANDARD_FIELDS ! i = f" using f by (auto simp: in_set_conv_nth)
  have "fd_tag (STANDARD_FIELDS ! j) \<noteq> fd_tag f" if "j < i" for j
    using nth_eq_iff_index_eq [OF d, of j i] i that by auto
  then have "lookup_standard (fd_tag f) = Some f" using i by (auto simp: lookup_standard_def find_Some_iff)
  moreover have "fd_tag f \<in> set (map fd_tag STANDARD_FIELDS)" using f by simp
  then have "fd_tag f \<in> set all_tags" unfolding standard_tags by (auto simp: all_tags_def)
  ultimately show ?thesis by simp
qed

text \<open>The market data group, by the names of its tags.\<close>

lemma md_entries_tags:
  "md_entries_group = new_group_def NO_MD_ENTRIES MD_ENTRY_TYPE [MD_ENTRY_TYPE, MD_ENTRY_PX, MD_ENTRY_SIZE, MD_UPDATE_ACTION]"
  by (simp add: md_entries_group_def more_tag_defs)

end
