(* ===== verification/BenchCompare.thy ===== *)
theory BenchCompare
  imports FeatureDemo
begin

text \<open>
  \<open>src/src/bin/bench_compare.rs\<close>: the messages it measures and its loops. The loops that only parse drop
  what they get; the lemmas below show what it is they time. Measured times and printing are left out.
\<close>

definition compare_heartbeat :: "bytes run" where
  "compare_heartbeat =
     map_option (\<lambda>(buf, len). take len buf)
       (build_heartbeat (replicate 1024 0) (asc ''FIX.4.4'') (asc ''SENDER'') (asc ''TARGET'') 1
          (asc ''20260321-10:00:00.000''))"

definition build_nos_with_seq :: "bytes \<Rightarrow> u64 \<Rightarrow> (bytes \<times> nat) run" where
  "build_nos_with_seq buf seq =
     build_new_order_single buf (asc ''FIX.4.4'') (asc ''BANK_OMS'') (asc ''NYSE'') seq
       (asc ''20260321-10:00:00.123'') (asc ''ORD-2026032100001'') (asc ''AAPL'') (of_char CHR ''1'') 10000
       (of_char CHR ''2'') (asc ''178.55'')"

definition compare_nos :: "bytes run" where
  "compare_nos =
     map_option (\<lambda>(buf, len). take len buf)
       (build_new_order_single (replicate 1024 0) (asc ''FIX.4.4'') (asc ''BANK_OMS'') (asc ''NYSE'') 42
          (asc ''20260321-10:00:00.123'') (asc ''ORD-2026032100001'') (asc ''AAPL'') (of_char CHR ''1'') 10000
          (of_char CHR ''2'') (asc ''178.55''))"

definition compare_exec_rpt :: "bytes run" where
  "compare_exec_rpt =
     map_option (\<lambda>(buf, len). take len buf)
       (build_execution_report (replicate 2048 0) (asc ''FIX.4.4'') (asc ''NYSE'') (asc ''BANK_OMS'') 100
          (asc ''20260321-10:00:00.456'') (asc ''NYSE-ORD-001'') (asc ''NYSE-EXEC-001'') (asc ''ORD-2026032100001'')
          (asc ''AAPL'') (of_char CHR ''1'') 10000 5000 (asc ''178.55'') 5000 5000 (asc ''178.55'') (of_char CHR ''F'')
          (of_char CHR ''1''))"

text \<open>One loop of \<open>bench_serialize\<close>; the warm-up and the measured one share the buffer.\<close>

fun nos_loop :: "u64 list \<Rightarrow> bytes \<Rightarrow> bytes run" where
  "nos_loop [] buf = Some buf"
| "nos_loop (q # qs) buf = Option.bind (build_nos_with_seq buf q) (\<lambda>(buf, _). nos_loop qs buf)"

definition bench_serialize :: "bytes run" where
  "bench_serialize =
     Option.bind (nos_loop (map of_nat [0..<100000]) (replicate 1024 0)) (nos_loop (map of_nat [0..<1000000]))"

text \<open>The sizes it reports, and what the serialization leaves in its buffer.\<close>

definition bench_compare_main :: "(nat list \<times> bytes) run" where
  "bench_compare_main =
     Option.bind compare_heartbeat (\<lambda>heartbeat.
     Option.bind compare_nos (\<lambda>nos.
     Option.bind compare_exec_rpt (\<lambda>exec_rpt.
     map_option (Pair [length heartbeat, length nos, length exec_rpt]) bench_serialize)))"

section \<open>What is measured\<close>

definition beat_fields :: "(u32 \<times> bytes) list" where
  "beat_fields =
     [(SENDER_COMP_ID, asc ''SENDER''), (TARGET_COMP_ID, asc ''TARGET''), (MSG_SEQ_NUM, dec 1),
      (SENDING_TIME, asc ''20260321-10:00:00.000'')]"

definition compare_beat :: bytes where
  "compare_beat = wire (asc ''FIX.4.4'') ((MSG_TYPE, asc ''0'') # beat_fields)"

lemma length_compare_beat: "length compare_beat = 81"
  by (simp add: compare_beat_def beat_fields_def wire_eval)

lemma compare_messages:
  "compare_heartbeat = Some compare_beat"
  "compare_nos = Some (wire (asc ''FIX.4.4'') ((MSG_TYPE, asc ''D'') # order_fields))"
  "compare_exec_rpt = Some (wire (asc ''FIX.4.4'') ((MSG_TYPE, asc ''8'') # report_fields))"
proof -
  have "compare_heartbeat = map_option (\<lambda>(buf, len). take len buf) (emit (replicate 1024 0) compare_beat)"
    by (simp add: compare_heartbeat_def build_heartbeat_eq compare_beat_def beat_fields_def)
  then show "compare_heartbeat = Some compare_beat" by (simp add: emit_fits length_compare_beat)
  have "compare_nos = map_option (\<lambda>(buf, len). take len buf) demo_order"
    "compare_exec_rpt = map_option (\<lambda>(buf, len). take len buf) demo_report"
    by (simp_all add: compare_nos_def demo_order_def compare_exec_rpt_def demo_report_def)
  then show "compare_nos = Some (wire (asc ''FIX.4.4'') ((MSG_TYPE, asc ''D'') # order_fields))"
    "compare_exec_rpt = Some (wire (asc ''FIX.4.4'') ((MSG_TYPE, asc ''8'') # report_fields))"
    by (simp_all add: demo_texts shown_texts)
qed

text \<open>Every parse that is timed is one of a message the parser accepts whole.\<close>

lemma compare_parses:
  assumes "(mt, fs) \<in> {(asc ''D'', order_fields), (asc ''8'', report_fields), (asc ''0'', beat_fields)}"
  shows "\<exists>v. parse new_parser (wire (asc ''FIX.4.4'') ((MSG_TYPE, mt) # fs)) =
      Inr (v, length (wire (asc ''FIX.4.4'') ((MSG_TYPE, mt) # fs))) \<and> mv_checksum_valid v"
proof -
  have "SOH \<notin> set mt" using assms by (auto simp: asc_def SOH_def)
  moreover have "list_all good_field beat_fields"
    by (simp add: beat_fields_def good_field_def tag_defs dec_no_soh) (simp add: asc_def SOH_def)
  then have "list_all good_field fs" using assms clean_fields by auto
  moreover have "length fs \<le> 500" "MSG_TYPE \<notin> fst ` set fs"
    using assms by (auto simp: order_fields_def report_fields_def beat_fields_def tag_defs)
  moreover have "length (wire (asc ''FIX.4.4'') ((MSG_TYPE, mt) # fs)) \<le> 1024"
    using assms shown_texts length_compare_beat by (auto simp: compare_beat_def)
  ultimately show ?thesis using parse_shown by blast
qed

lemma nos_length: "\<exists>w. build_nos_with_seq buf q = emit buf w \<and> length w \<le> 1024"
proof -
  have "unat q < 2 ^ 64" using unsigned_less [of q] by simp
  then have "unat q < 10 ^ 20" by simp
  then have "length (dec (unat q)) \<le> 20" by (rule dec_length) simp
  then show ?thesis
    unfolding build_nos_with_seq_def build_new_order_single_eq
    by - (intro exI, rule conjI, rule refl, simp add: wire_eval)
qed

lemma nos_loop_runs: "length buf = 1024 \<Longrightarrow> \<exists>buf'. nos_loop qs buf = Some buf' \<and> length buf' = 1024"
proof (induction qs arbitrary: buf)
  case (Cons q qs)
  obtain w where "build_nos_with_seq buf q = emit buf w" "length w \<le> 1024" using nos_length by blast
  then show ?case using Cons by (simp add: emit_fits)
qed simp

lemma bench_compare_runs: "\<exists>buf. bench_compare_main = Some ([81, 170, 239], buf) \<and> length buf = 1024"
proof -
  obtain a where a: "nos_loop (map of_nat [0..<100000]) (replicate 1024 0) = Some a" "length a = 1024"
    using nos_loop_runs [of "replicate 1024 0"] by (auto simp del: replicate.simps)
  obtain b where "nos_loop (map of_nat [0..<1000000]) a = Some b" "length b = 1024" using nos_loop_runs [OF a(2)] by blast
  then have b: "bench_serialize = Some b" "length b = 1024" by (simp_all only: bench_serialize_def a(1) Option.bind.simps)
  have "bench_compare_main = map_option (Pair [81, 170, 239]) bench_serialize"
    by (simp add: bench_compare_main_def compare_messages shown_texts length_compare_beat)
  then show ?thesis unfolding b(1) option.map using b(2) by blast
qed

end
