(* ===== verification/Spec2Isabelle.thy ===== *)
theory Spec2Isabelle
  imports EngineProps Fixt Acceptor Pool Journal Cluster RepeatingGroups Simd Dictionary DashboardServer Metrics Server AeronDemo DemoMain Tags BenchCompare
begin

text \<open>
  A verification development for the Velocitas FIX engine (the crate under \<open>src/src\<close>).

  \<^bold>\<open>The program and how its parts interact.\<close> Bytes arrive from a transport (\<open>transport*.rs\<close>). The
  engine (\<open>engine.rs\<close>) appends them to its receive buffer, lets the framer of \<open>parser.rs\<close> find complete
  messages, parses each into a zero-copy view (\<open>message.rs\<close>), checks the checksum (\<open>checksum.rs\<close>), drives
  the session state machine (\<open>session.rs\<close>) and answers or hands the message to the application. What it
  sends is built by \<open>serializer.rs\<close> with a timestamp of \<open>timestamp.rs\<close>. \<open>server.rs\<close> runs one engine for
  each connection registered in the pool of \<open>acceptor.rs\<close>; \<open>client.rs\<close> runs an initiator. Around this core
  stand FIXT sessions (\<open>fixt.rs\<close>), repeating groups (\<open>groups.rs\<close>), SIMD scanning (\<open>simd.rs\<close>), dictionaries
  (\<open>dictionary.rs\<close>, \<open>dict_compiler.rs\<close>), buffer pools (\<open>pool.rs\<close>), the journal (\<open>journal.rs\<close>), replication
  (\<open>cluster.rs\<close>), metrics (\<open>metrics.rs\<close>) and a dashboard (\<open>dashboard.rs\<close>).

  \<^bold>\<open>The theories.\<close>
  \<^item> \<open>Prelude\<close>: machine integers, decimal digits, slices and copies that can panic, and three interfaces as
    locales: \<open>codec\<close> (what is written is read back), \<open>machine\<close> (steps that keep an invariant), \<open>directory\<close>
    (a store that is looked up by key).
  \<^item> \<open>Checksum\<close>, \<open>Message\<close>, \<open>Parser\<close>, \<open>Serializer\<close>: one per file. \<open>Wire\<close> joins them: serialized messages are
    framed and parsed back, what an accepted buffer looks like, and which corruptions are detected.
  \<^item> \<open>Session\<close> and \<open>Fixt\<close>: the state machines as record updates, with the clock readings as arguments.
  \<^item> \<open>Timestamp\<close>: the calendar, the FIX timestamp texts, the counter clock with its calibration and the
    latency tracker. \<open>Transport\<close>: the four backends; locales \<open>transport\<close> and \<open>gated_transport\<close>.
  \<^item> \<open>Engine\<close>: the loop over a world of transport and clocks, with an application as a tree of requests to
    its context. \<open>EngineProps\<close>: its safety, framing and protocol properties.
  \<^item> \<open>Acceptor\<close>, \<open>Server\<close>: the connection pool; the handshake, the connection handler and the client.
  \<^item> \<open>Pool\<close>: the free list used by one thread (locale \<open>allocator\<close>) and as interleaved atomic steps
    (\<open>pool_step\<close>). \<open>Journal\<close>: the mapped file as bytes. \<open>Cluster\<close>: elections, log and snapshots.
  \<^item> \<open>RepeatingGroups\<close>, \<open>Simd\<close>, \<open>Dictionary\<close>, \<open>Json\<close>, \<open>Dashboard\<close>, \<open>Metrics\<close>: one per file (\<open>Json\<close> holds
    the escaping of \<open>dashboard.rs\<close> and a reference reader to judge the documents by).
  \<^item> \<open>Apps\<close>: the applications of the binaries \<open>aeron_demo\<close>, \<open>tcp_demo\<close>, \<open>session_demo\<close> and \<open>bench_tcp\<close>, and the
    latency report. \<open>AeronDemo\<close>: \<open>main\<close> of \<open>aeron_demo\<close>, two engines on one bus, run to the end of both threads.
    \<open>DashboardServer\<close>: the HTTP server of \<open>bin/dashboard.rs\<close>.
  \<^item> \<open>FeatureDemo\<close>, \<open>DemoMain\<close>: the fourteen scenarios of \<open>bin/demo.rs\<close>, each as what it shows of the library's
    state, and \<open>main\<close>, which runs them in turn. \<open>BenchCompare\<close>: what
    \<open>bin/bench_compare.rs\<close> measures. \<open>Tags\<close>: the rest of \<open>tags.rs\<close>, and how the table agrees with the dictionary.

  \<^bold>\<open>Conventions.\<close> A function that can panic returns an option (\<open>run\<close>), with \<^const>\<open>None\<close> for the panic; an
  \<open>io::Result\<close> or other \<open>Result\<close> is a sum with the error on the left. Integers keep their width and wrap as in
  the release profile; a \<open>usize\<close> that measures memory is a \<open>nat\<close>. Texts and buffers are lists of bytes. A
  calendar computes in unbounded integers, which agree with the source's for every day a timestamp can reach. A
  callback of an application is a tree of requests to the engine's context (clock readings, messages to send,
  stop); it may panic, and the theorems on panics assume an application that does not (\<^const>\<open>app_total\<close>).

  \<^bold>\<open>Bounds and fuel.\<close> The engine's loop runs a number of iterations given by its argument, because it may run for
  ever; the results say whether it is still running, and the safety theorems hold for every number. The loops
  of the parser, framer, scanners, dictionary compiler and server handshake terminate by a measure. The field
  loop of repeating groups has as much fuel as there are fields left. The reference JSON reader has twice the
  length of its input.

  \<^bold>\<open>What the lemmas show.\<close> Round trips (message, execution report, journal, snapshot, group, dictionary, JSON);
  absence of panics in engine and server for every input, world and application that does not panic itself; soundness of the parser on
  arbitrary bytes; for messages that neither stop the engine nor wait for its timer, independence of the
  segmentation of the stream (locale \<open>unseen\<close>: two worlds the engine cannot tell apart); the order and gap rules of the session;
  the invariants of the acceptor pool, of sessions and of the cluster under any sequence of operations;
  refinement of the acceptor, of the replicated table and of the dashboard to maps; the safety of the lock-free
  pool when allocations do not overlap, and the ABA run when they do; the calendar against day-by-day
  stepping, and the accuracy of measured latencies; a whole session of two engines, from Logon to Logout, under
  every schedule that lets both run; the replies of the dashboard's server, byte for byte; the
  feature demonstration, which runs to its end and shows the values it should, its measured loops included.

  \<^bold>\<open>Not modelled.\<close> The benchmarks under \<open>benches\<close> and the tests; what the modelled binaries
  print, and their threads and listeners apart from \<open>aeron_demo\<close>, where a turn of a thread is a whole iteration of its engine's loop; \<open>lib.rs\<close> (module
  declarations); \<open>Debug\<close> instances. Sockets, clocks, the CPU counter and its
  calibrated frequency, the results of opening, sizing, mapping and flushing the journal's file, and the
  histogram package are parameters; thread creation, lock poisoning and memory ordering are left out. Both
  endpoints of \<open>aeron_demo\<close> are opened before the first turn. A failure to allocate is modelled where the size
  comes from the input (the count of a repeating group, \<open>reserve\<close>; the tag index of a dictionary, \<open>memory\<close>);
  other allocations are taken to succeed.
\<close>

end
